(* ===== verification/Prelude.thy ===== *)
theory Prelude
  imports Main "HOL-Library.Word"
begin

text \<open>
  Shared vocabulary of the development.

  The fixed-width integers of \<^verbatim>\<open>ServerCore/Types.h\<close> are words; the
  \<^verbatim>\<open>CRASH\<close> and \<^verbatim>\<open>ASSERT_CRASH\<close> macros of
  \<^verbatim>\<open>ServerCore/CoreMacro.h\<close> are values of the type \<open>failure\<close>, so that a
  deliberate crash is a branch of the model. What C++ leaves undefined (an index out of range,
  a null pointer followed, freed memory touched) is the other constructor, \<open>UB\<close>: the model
  never continues past it. Below them are the read-modify-write primitive of
  \<^verbatim>\<open>std::atomic\<close> and the lemmas on words, lists and sums that several
  components share.
\<close>

unbundle bit_operations_syntax

named_theorems outcome_simps "unfolding of the result type"
named_theorems lock_word_simps "the two halves of a 32-bit lock flag"

section \<open>Fixed-width integers\<close>

type_synonym uint16 = "16 word"
type_synonym uint32 = "32 word"
type_synonym uint64 = "64 word"

text \<open>
  \<^verbatim>\<open>static_cast<int32>\<close> of a wider value keeps the low 32 bits and reads them as
  two's complement.
\<close>

definition to_int32 :: "int \<Rightarrow> int" where
  "to_int32 x = signed_take_bit 31 x"

lemma to_int32_id: "- (2 ^ 31) \<le> x \<Longrightarrow> x < 2 ^ 31 \<Longrightarrow> to_int32 x = x"
  by (simp add: to_int32_def signed_take_bit_int_eq_self)

lemma to_int32_wrap: "to_int32 (x + 2 ^ 32) = to_int32 x"
  unfolding to_int32_def signed_take_bit_eq_iff_take_bit_eq by (simp add: take_bit_eq_mod)

lemma to_int32_range: "- (2 ^ 31) \<le> to_int32 x" "to_int32 x < 2 ^ 31"
  using signed_take_bit_int_greater_eq_minus_exp [of 31 x]
    signed_take_bit_int_less_exp [of 31 x]
  by (simp_all add: to_int32_def)

section \<open>Crashes and results\<close>

datatype failure =
    CRASH string  \<comment> \<open>the CRASH macro, with its cause\<close>
  | UB string     \<comment> \<open>undefined behaviour of C++, with what happened\<close>

type_synonym 'a outcome = "failure + 'a"

definition ASSERT_CRASH :: "bool \<Rightarrow> unit outcome" where
  "ASSERT_CRASH expr = (if \<not> expr then Inl (CRASH ''ASSERT_CRASH'') else Inr ())"

definition and_then :: "'a outcome \<Rightarrow> ('a \<Rightarrow> 'b outcome) \<Rightarrow> 'b outcome" where
  "and_then m f = (case m of Inl e \<Rightarrow> Inl e | Inr a \<Rightarrow> f a)"

lemma and_then_simps [simp, outcome_simps]:
  "and_then (Inl e) f = Inl e"
  "and_then (Inr a) f = f a"
  by (simp_all add: and_then_def)

lemma and_then_Inr_iff [outcome_simps]:
  "and_then m f = Inr b \<longleftrightarrow> (\<exists>a. m = Inr a \<and> f a = Inr b)"
  by (cases m) auto

lemma and_then_assoc: "and_then (and_then m f) g = and_then m (\<lambda>a. and_then (f a) g)"
  by (cases m) simp_all

lemma and_then_Inr [simp]: "and_then m Inr = m"
  by (cases m) simp_all

lemma ASSERT_CRASH_simps [simp]:
  "ASSERT_CRASH True = Inr ()"
  "ASSERT_CRASH False = Inl (CRASH ''ASSERT_CRASH'')"
  by (simp_all add: ASSERT_CRASH_def)

lemma ASSERT_CRASH_Inr_iff [simp]: "ASSERT_CRASH e = Inr u \<longleftrightarrow> e"
  by (cases e) auto

section \<open>Atomic read-modify-write\<close>

text \<open>
  \<^verbatim>\<open>compare_exchange_strong(expected, desired)\<close> on a variable that holds
  \<open>v\<close>: whether it succeeded, and what the variable holds afterwards.
\<close>

definition compare_exchange_strong :: "'a \<Rightarrow> 'a \<Rightarrow> 'a \<Rightarrow> bool \<times> 'a" where
  "compare_exchange_strong v expected desired =
     (if v = expected then (True, desired) else (False, v))"

lemma compare_exchange_fst [simp]:
  "fst (compare_exchange_strong v e d) \<longleftrightarrow> v = e"
  by (simp add: compare_exchange_strong_def)

lemma compare_exchange_snd [simp]:
  "snd (compare_exchange_strong v e d) = (if v = e then d else v)"
  by (simp add: compare_exchange_strong_def)

section \<open>The two halves of a 32-bit word\<close>

lemma low_half [lock_word_simps]:
  "unat ((w :: uint32) AND 0x0000FFFF) = unat w mod 65536"
proof -
  have "w AND 0x0000FFFF = w mod 65536"
    by (simp add: take_bit_eq_mask mask_numeral flip: take_bit_eq_mod [of 16, simplified])
  then show ?thesis by (simp add: unat_mod)
qed

lemma high_half [lock_word_simps]:
  "unat (drop_bit 16 ((w :: uint32) AND 0xFFFF0000)) = unat w div 65536"
proof -
  have "drop_bit 16 (w AND 0xFFFF0000) = drop_bit 16 w AND drop_bit 16 0xFFFF0000"
    by (simp only: drop_bit_and)
  also have "drop_bit 16 (0xFFFF0000 :: uint32) = mask 16"
    by (simp add: mask_numeral)
  also have "drop_bit 16 w AND mask 16 = take_bit 16 (drop_bit 16 w)"
    by (simp add: take_bit_eq_mask)
  also have "\<dots> = drop_bit 16 w"
    by (rule bit_word_eqI) (auto simp add: bit_simps dest: bit_imp_le_length)
  also have "\<dots> = w div 65536"
    by (simp add: drop_bit_eq_div)
  finally show ?thesis by (simp only: unat_div) simp
qed

lemma shifted_half [lock_word_simps]:
  "unat (push_bit 16 (t :: uint32) AND 0xFFFF0000) = (unat t mod 65536) * 65536"
proof -
  have low: "t AND mask 16 = t mod 65536"
    by (simp add: take_bit_eq_mod flip: take_bit_eq_mask)
  have "push_bit 16 t AND 0xFFFF0000 = push_bit 16 t AND push_bit 16 (mask 16)"
    by (simp add: mask_numeral)
  also have "\<dots> = push_bit 16 (t mod 65536)"
    by (simp only: low flip: push_bit_and)
  also have "\<dots> = (t mod 65536) * 65536"
    by (simp add: push_bit_eq_mult)
  finally have eq: "push_bit 16 t AND 0xFFFF0000 = (t mod 65536) * 65536" .
  have "unat (t mod 65536) * unat (65536 :: uint32) < 2 ^ 32"
    by (simp add: unat_mod)
  then show ?thesis
    unfolding eq by (subst unat_mult_lem [THEN iffD1]) (simp_all add: unat_mod)
qed

lemma word32_eq_iff_unat: "(a :: uint32) = b \<longleftrightarrow> unat a = unat b"
  by (simp add: word_unat_eq_iff)

lemma unat_Suc_lt:
  "unat (w :: 'a::len word) + 1 < 2 ^ LENGTH('a) \<Longrightarrow> unat (w + 1) = unat w + 1"
  by (simp add: unat_word_ariths(1))

lemma unat_of_nat_small: "n < 2 ^ LENGTH('a) \<Longrightarrow> unat (of_nat n :: 'a::len word) = n"
  by (simp add: unat_of_nat take_bit_nat_eq_self)

lemma unat_pred_pos: "0 < unat (w :: 'a::len word) \<Longrightarrow> unat (w - 1) = unat w - 1"
  by (metis unat_minus_one unat_eq_zero less_not_refl)

section \<open>Sums over finitely many threads\<close>

lemma sum_fun_upd:
  fixes f :: "'t \<Rightarrow> nat"
  assumes "finite A" "a \<in> A"
  shows "sum (f(a := v)) A + f a = sum f A + v"
proof -
  have "sum (f(a := v)) A = v + sum f (A - {a})"
    using assms by (simp add: sum.remove [of A a])
  moreover have "sum f A = f a + sum f (A - {a})"
    using assms by (simp add: sum.remove [of A a])
  ultimately show ?thesis by simp
qed

lemma sum_single:
  fixes f :: "'t \<Rightarrow> nat"
  assumes "finite A" "a \<in> A" "\<And>b. b \<in> A \<Longrightarrow> b \<noteq> a \<Longrightarrow> f b = 0"
  shows "sum f A = f a"
  using assms by (simp add: sum.remove [of A a])

lemma member_le_sum_nat: "finite A \<Longrightarrow> a \<in> A \<Longrightarrow> (f a :: nat) \<le> sum f A"
  by (simp add: member_le_sum)

end
