(* ===== verification/RW_Lock.thy ===== *)
theory RW_Lock
  imports Prelude
begin

text \<open>
  The reader-writer spin lock of \<^verbatim>\<open>ServerCore/Lock.h\<close> and
  \<^verbatim>\<open>ServerCore/Lock.cpp\<close>, as built without \<^verbatim>\<open>_DEBUG\<close>.

  \<open>lock_step\<close> is the code of the four methods, cut where a thread touches the lock or
  the clock: one step is one atomic access to \<^verbatim>\<open>_lockFlag\<close>, one access to
  \<^verbatim>\<open>_writeCount\<close> or one call of \<^verbatim>\<open>GetTickCount64\<close>, and the
  constructors of \<open>pc\<close> are the places between them. \<open>sys_step\<close> interleaves any
  number of threads. The clock is the environment's: it may show any value at any time.
  \<open>wheld\<close> and \<open>rheld\<close> count, per thread, the lock calls that have returned
  and have not been undone; they are bookkeeping for the statements, no step of the code reads
  them.
\<close>

section \<open>The lock\<close>

definition ACQUIRE_TIMEOUT_TICK :: uint64 where
  "ACQUIRE_TIMEOUT_TICK = 10000"

definition MAX_SPIN_COUNT :: nat where
  "MAX_SPIN_COUNT = 5000"

definition WRITE_THREAD_MASK :: uint32 where
  "WRITE_THREAD_MASK = 0xFFFF0000"

definition READ_COUNT_MASK :: uint32 where
  "READ_COUNT_MASK = 0x0000FFFF"

definition EMPTY_FLAG :: uint32 where
  "EMPTY_FLAG = 0x00000000"

lemmas lock_const_defs =
  WRITE_THREAD_MASK_def READ_COUNT_MASK_def EMPTY_FLAG_def

record lock =
  lockFlag :: uint32
  writeCount :: uint16

definition new_lock :: lock where
  "new_lock = \<lparr>lockFlag = EMPTY_FLAG, writeCount = 0\<rparr>"

definition lock_thread_id :: "lock \<Rightarrow> uint32" where
  "lock_thread_id l = drop_bit 16 (lockFlag l AND WRITE_THREAD_MASK)"

definition desired_flag :: "uint32 \<Rightarrow> uint32" where
  "desired_flag LThreadId = push_bit 16 LThreadId AND WRITE_THREAD_MASK"

definition timed_out :: "uint64 \<Rightarrow> uint64 \<Rightarrow> bool" where
  "timed_out now beginTick \<longleftrightarrow> now - beginTick \<ge> ACQUIRE_TIMEOUT_TICK"

section \<open>The four methods, one shared access at a time\<close>

datatype pc =
    Idle
  | WL_load | WL_rec | WL_tick | WL_spin uint64 nat | WL_won
  | WU_check | WU_dec | WU_store
  | RL_load | RL_add | RL_tick | RL_read uint64 nat | RL_cas uint64 nat uint32
  | RU_sub

fun lock_step :: "uint64 \<Rightarrow> uint32 \<Rightarrow> lock \<Rightarrow> pc \<Rightarrow> (lock \<times> pc) outcome" where
  "lock_step now LThreadId l Idle = Inr (l, Idle)"
\<comment> \<open>WriteLock\<close>
| "lock_step now LThreadId l WL_load =
     (if LThreadId = lock_thread_id l then Inr (l, WL_rec) else Inr (l, WL_tick))"
| "lock_step now LThreadId l WL_rec = Inr (l\<lparr>writeCount := writeCount l + 1\<rparr>, Idle)"
| "lock_step now LThreadId l WL_tick = Inr (l, WL_spin now 0)"
| "lock_step now LThreadId l (WL_spin beginTick spinCount) =
     (if spinCount < MAX_SPIN_COUNT
      then (case compare_exchange_strong (lockFlag l) EMPTY_FLAG (desired_flag LThreadId) of
              (ok, f) \<Rightarrow>
                Inr (l\<lparr>lockFlag := f\<rparr>, if ok then WL_won else WL_spin beginTick (spinCount + 1)))
      else if timed_out now beginTick then Inl (CRASH ''Lock_Timeout'')
      else Inr (l, WL_spin beginTick 0))"
| "lock_step now LThreadId l WL_won = Inr (l\<lparr>writeCount := writeCount l + 1\<rparr>, Idle)"
\<comment> \<open>WriteUnlock\<close>
| "lock_step now LThreadId l WU_check =
     (if lockFlag l AND READ_COUNT_MASK \<noteq> 0 then Inl (CRASH ''INVALID_UNLOCK_ORDER'')
      else Inr (l, WU_dec))"
| "lock_step now LThreadId l WU_dec =
     (let lockCount = writeCount l - 1
      in Inr (l\<lparr>writeCount := lockCount\<rparr>, if lockCount = 0 then WU_store else Idle))"
| "lock_step now LThreadId l WU_store = Inr (l\<lparr>lockFlag := EMPTY_FLAG\<rparr>, Idle)"
\<comment> \<open>ReadLock\<close>
| "lock_step now LThreadId l RL_load =
     (if LThreadId = lock_thread_id l then Inr (l, RL_add) else Inr (l, RL_tick))"
| "lock_step now LThreadId l RL_add = Inr (l\<lparr>lockFlag := lockFlag l + 1\<rparr>, Idle)"
| "lock_step now LThreadId l RL_tick = Inr (l, RL_read now 0)"
| "lock_step now LThreadId l (RL_read beginTick spinCount) =
     (if spinCount < MAX_SPIN_COUNT
      then Inr (l, RL_cas beginTick spinCount (lockFlag l AND READ_COUNT_MASK))
      else if timed_out now beginTick then Inl (CRASH ''Lock_Timeout'')
      else Inr (l, RL_read beginTick 0))"
| "lock_step now LThreadId l (RL_cas beginTick spinCount expected) =
     (case compare_exchange_strong (lockFlag l) expected (expected + 1) of
        (ok, f) \<Rightarrow>
          Inr (l\<lparr>lockFlag := f\<rparr>, if ok then Idle else RL_read beginTick (spinCount + 1)))"
\<comment> \<open>ReadUnlock\<close>
| "lock_step now LThreadId l RU_sub =
     (if lockFlag l AND READ_COUNT_MASK = 0 then Inl (CRASH ''MULTIPLE UNLOCK'')
      else Inr (l\<lparr>lockFlag := lockFlag l - 1\<rparr>, Idle))"

datatype call = WriteLock | WriteUnlock | ReadLock | ReadUnlock

fun entry :: "call \<Rightarrow> pc" where
  "entry WriteLock = WL_load"
| "entry WriteUnlock = WU_check"
| "entry ReadLock = RL_load"
| "entry ReadUnlock = RU_sub"

section \<open>Interleaved threads\<close>

record 't sys =
  the_lock :: lock
  pcs :: "'t \<Rightarrow> pc"
  wheld :: "'t \<Rightarrow> nat"
  rheld :: "'t \<Rightarrow> nat"
  clock :: uint64
  crashed :: "failure option"

definition lock_init :: "'t sys" where
  "lock_init = \<lparr>the_lock = new_lock, pcs = (\<lambda>_. Idle), wheld = (\<lambda>_. 0), rheld = (\<lambda>_. 0),
     clock = 0, crashed = None\<rparr>"

text \<open>
  What a thread may call: an unlock only of what it holds, which the guard classes ensure, and
  no more than \<open>depth\<close> nested holds of either kind.
\<close>

fun may_call :: "nat \<Rightarrow> nat \<Rightarrow> nat \<Rightarrow> call \<Rightarrow> bool" where
  "may_call depth w r WriteLock = (w < depth)"
| "may_call depth w r WriteUnlock = (0 < w)"
| "may_call depth w r ReadLock = (r < depth)"
| "may_call depth w r ReadUnlock = (0 < r)"

definition enter :: "'t sys \<Rightarrow> 't \<Rightarrow> call \<Rightarrow> 't sys" where
  "enter s t c = s\<lparr>pcs := (pcs s)(t := entry c),
     wheld := (wheld s)(t := wheld s t - (if c = WriteUnlock then 1 else 0)),
     rheld := (rheld s)(t := rheld s t - (if c = ReadUnlock then 1 else 0))\<rparr>"

fun write_returns :: "pc \<Rightarrow> bool" where
  "write_returns WL_rec = True"
| "write_returns WL_won = True"
| "write_returns _ = False"

fun read_returns :: "pc \<Rightarrow> pc \<Rightarrow> bool" where
  "read_returns RL_add Idle = True"
| "read_returns (RL_cas _ _ _) Idle = True"
| "read_returns _ _ = False"

definition moved :: "'t sys \<Rightarrow> 't \<Rightarrow> lock \<Rightarrow> pc \<Rightarrow> 't sys" where
  "moved s t l p = s\<lparr>the_lock := l, pcs := (pcs s)(t := p),
     wheld := (wheld s)(t := wheld s t + (if write_returns (pcs s t) then 1 else 0)),
     rheld := (rheld s)(t := rheld s t + (if read_returns (pcs s t) p then 1 else 0))\<rparr>"

inductive sys_step :: "'t set \<Rightarrow> ('t \<Rightarrow> uint32) \<Rightarrow> nat \<Rightarrow> 't sys \<Rightarrow> 't sys \<Rightarrow> bool"
  for T :: "'t set" and tid :: "'t \<Rightarrow> uint32" and depth :: nat where
  call: "\<lbrakk>crashed s = None; t \<in> T; pcs s t = Idle; may_call depth (wheld s t) (rheld s t) c\<rbrakk>
     \<Longrightarrow> sys_step T tid depth s (enter s t c)"
| run: "\<lbrakk>crashed s = None; t \<in> T;
      lock_step (clock s) (tid t) (the_lock s) (pcs s t) = Inr (l, p)\<rbrakk>
     \<Longrightarrow> sys_step T tid depth s (moved s t l p)"
| crash: "\<lbrakk>crashed s = None; t \<in> T;
      lock_step (clock s) (tid t) (the_lock s) (pcs s t) = Inl e\<rbrakk>
     \<Longrightarrow> sys_step T tid depth s (s\<lparr>crashed := Some e\<rparr>)"
| tick: "crashed s = None \<Longrightarrow> sys_step T tid depth s (s\<lparr>clock := c\<rparr>)"

inductive lock_reachable :: "'t set \<Rightarrow> ('t \<Rightarrow> uint32) \<Rightarrow> nat \<Rightarrow> 't sys \<Rightarrow> bool"
  for T :: "'t set" and tid :: "'t \<Rightarrow> uint32" and depth :: nat where
  start: "lock_reachable T tid depth lock_init"
| step: "lock_reachable T tid depth s \<Longrightarrow> sys_step T tid depth s s' \<Longrightarrow> lock_reachable T tid depth s'"

text \<open>A schedule, and the state it leads to; \<open>None\<close> when a step of it is not possible.\<close>

datatype 't event = Call 't call | Run 't

fun lock_event :: "'t set \<Rightarrow> ('t \<Rightarrow> uint32) \<Rightarrow> nat \<Rightarrow> 't event \<Rightarrow> 't sys \<Rightarrow> 't sys option" where
  "lock_event T tid depth (Call t c) s =
     (if crashed s = None \<and> t \<in> T \<and> pcs s t = Idle \<and> may_call depth (wheld s t) (rheld s t) c
      then Some (enter s t c) else None)"
| "lock_event T tid depth (Run t) s =
     (if crashed s = None \<and> t \<in> T
      then (case lock_step (clock s) (tid t) (the_lock s) (pcs s t) of
              Inl e \<Rightarrow> Some (s\<lparr>crashed := Some e\<rparr>)
            | Inr (l, p) \<Rightarrow> Some (moved s t l p))
      else None)"

definition lock_exec ::
  "'t set \<Rightarrow> ('t \<Rightarrow> uint32) \<Rightarrow> nat \<Rightarrow> 't event list \<Rightarrow> 't sys \<Rightarrow> 't sys option" where
  "lock_exec T tid depth es s =
     foldl (\<lambda>m e. Option.bind m (lock_event T tid depth e)) (Some s) es"

lemma lock_event_step:
  "lock_event T tid depth e s = Some s' \<Longrightarrow> sys_step T tid depth s s'"
  by (cases e) (auto intro: sys_step.intros split: if_splits sum.splits)

lemma lock_exec_reachable:
  "lock_exec T tid depth es s = Some s' \<Longrightarrow> lock_reachable T tid depth s \<Longrightarrow>
     lock_reachable T tid depth s'"
proof (induction es arbitrary: s' rule: rev_induct)
  case (snoc e es)
  then obtain s'' where "lock_exec T tid depth es s = Some s''"
    and "lock_event T tid depth e s'' = Some s'"
    by (auto simp: lock_exec_def Option.bind_eq_Some_conv)
  then show ?case using snoc lock_event_step lock_reachable.step by blast
qed (simp add: lock_exec_def)

section \<open>The lock flag as a number\<close>

lemma unat_read_count: "unat (lockFlag l AND READ_COUNT_MASK) = unat (lockFlag l) mod 65536"
  by (simp only: lock_const_defs low_half)

lemma unat_lock_thread_id: "unat (lock_thread_id l) = unat (lockFlag l) div 65536"
  by (simp only: lock_thread_id_def lock_const_defs high_half)

lemma unat_desired_flag: "unat (desired_flag t) = (unat t mod 65536) * 65536"
  by (simp only: desired_flag_def lock_const_defs shifted_half)

lemma read_count_zero_iff:
  "lockFlag l AND READ_COUNT_MASK = 0 \<longleftrightarrow> unat (lockFlag l) mod 65536 = 0"
  by (simp add: word32_eq_iff_unat unat_read_count)

lemma owner_test_iff:
  "t = lock_thread_id l \<longleftrightarrow> unat t = unat (lockFlag l) div 65536"
  by (simp add: word32_eq_iff_unat unat_lock_thread_id)

lemma empty_test_iff: "f = EMPTY_FLAG \<longleftrightarrow> unat f = 0"
  by (simp add: word32_eq_iff_unat EMPTY_FLAG_def)

lemma unat_EMPTY_FLAG [simp]: "unat EMPTY_FLAG = 0"
  by (simp add: EMPTY_FLAG_def)

end
