(* ===== verification/RW_Lock_Safety.thy ===== *)
theory RW_Lock_Safety
  imports RW_Lock
begin

text \<open>
  Safety of the reader-writer lock for every interleaving. The interface to the rest of the
  program is the locale \<open>lock_clients\<close>: finitely many threads whose 32-bit ids are
  distinct, not zero and fit the 16 bits the flag has for them, and fewer than 65536 holds in
  all. Under it the flag is, in every reachable state, the owner's id in the upper half plus
  the number of read holds in the lower half (\<open>lock_inv\<close>), from which mutual exclusion
  and the absence of every crash but the timeout and the wrong unlock order follow.
\<close>

section \<open>The invariant\<close>

definition reads :: "'t sys \<Rightarrow> 't \<Rightarrow> nat" where
  "reads s t = rheld s t + (if pcs s t = RU_sub then 1 else 0)"

definition writes :: "'t sys \<Rightarrow> 't \<Rightarrow> nat" where
  "writes s t = wheld s t + (if pcs s t = WU_check \<or> pcs s t = WU_dec then 1 else 0)"

fun write_pc :: "pc \<Rightarrow> bool" where
  "write_pc WL_rec = True"
| "write_pc WL_won = True"
| "write_pc WU_check = True"
| "write_pc WU_dec = True"
| "write_pc WU_store = True"
| "write_pc _ = False"

fun pc_ok :: "nat \<Rightarrow> pc \<Rightarrow> nat \<Rightarrow> nat \<Rightarrow> bool" where
  "pc_ok depth Idle w r = True"
| "pc_ok depth WL_load w r = (w < depth)"
| "pc_ok depth WL_rec w r = (0 < w \<and> w < depth)"
| "pc_ok depth WL_tick w r = (w < depth)"
| "pc_ok depth (WL_spin b n) w r = (w < depth)"
| "pc_ok depth WL_won w r = (w = 0 \<and> 0 < depth)"
| "pc_ok depth WU_check w r = (w < depth)"
| "pc_ok depth WU_dec w r = (w < depth \<and> r = 0)"
| "pc_ok depth WU_store w r = (w = 0 \<and> r = 0)"
| "pc_ok depth RL_load w r = (r < depth)"
| "pc_ok depth RL_add w r = (0 < w \<and> r < depth)"
| "pc_ok depth RL_tick w r = (r < depth)"
| "pc_ok depth (RL_read b n) w r = (r < depth)"
| "pc_ok depth (RL_cas b n e) w r = (r < depth \<and> unat e < 65536)"
| "pc_ok depth RU_sub w r = (r < depth)"

definition thread_ok :: "nat \<Rightarrow> 't option \<Rightarrow> 't sys \<Rightarrow> 't \<Rightarrow> bool" where
  "thread_ok depth own s t \<longleftrightarrow>
     (own = Some t \<longleftrightarrow> 0 < wheld s t \<or> write_pc (pcs s t)) \<and>
     wheld s t \<le> depth \<and> rheld s t \<le> depth \<and>
     pc_ok depth (pcs s t) (wheld s t) (rheld s t) \<and>
     (own \<noteq> None \<longrightarrow> own \<noteq> Some t \<longrightarrow> reads s t = 0)"

definition owner_part :: "('t \<Rightarrow> uint32) \<Rightarrow> 't option \<Rightarrow> nat" where
  "owner_part tid own = (case own of None \<Rightarrow> 0 | Some t \<Rightarrow> unat (tid t) * 65536)"

definition lock_inv :: "'t set \<Rightarrow> ('t \<Rightarrow> uint32) \<Rightarrow> nat \<Rightarrow> 't option \<Rightarrow> 't sys \<Rightarrow> bool" where
  "lock_inv T tid depth own s \<longleftrightarrow>
     set_option own \<subseteq> T \<and>
     unat (lockFlag (the_lock s)) = owner_part tid own + sum (reads s) T \<and>
     unat (writeCount (the_lock s)) = (case own of None \<Rightarrow> 0 | Some t \<Rightarrow> writes s t) \<and>
     (\<forall>t\<in>T. thread_ok depth own s t)"

lemma owner_part_simps [simp]:
  "owner_part tid None = 0"
  "owner_part tid (Some t) = unat (tid t) * 65536"
  by (simp_all add: owner_part_def)

lemma thread_ok_frame:
  assumes "thread_ok depth own s t"
    and "pcs s' t = pcs s t" "wheld s' t = wheld s t" "rheld s' t = rheld s t"
    and "own' = Some t \<longleftrightarrow> own = Some t"
    and "own' \<noteq> None \<Longrightarrow> own' \<noteq> Some t \<Longrightarrow> reads s t = 0"
  shows "thread_ok depth own' s' t"
  using assms by (auto simp: thread_ok_def reads_def)

lemma reads_frame:
  "pcs s' t = pcs s t \<Longrightarrow> rheld s' t = rheld s t \<Longrightarrow> reads s' t = reads s t"
  by (simp add: reads_def)

lemma sum_reads_upd:
  assumes "finite T" "t \<in> T"
    and "\<And>u. u \<noteq> t \<Longrightarrow> reads s' u = reads s u"
  shows "sum (reads s') T + reads s t = sum (reads s) T + reads s' t"
proof -
  have "sum (reads s') T = sum ((reads s)(t := reads s' t)) T"
    using assms(3) by (intro sum.cong) auto
  then show ?thesis using sum_fun_upd [OF assms(1,2), of "reads s" "reads s' t"] by simp
qed

section \<open>The interface: threads that use one lock\<close>

locale lock_clients =
  fixes T :: "'t set" and tid :: "'t \<Rightarrow> uint32" and depth :: nat
  assumes finite_T: "finite T"
    and tid_inj: "inj_on tid T"
    and tid_pos: "t \<in> T \<Longrightarrow> 0 < unat (tid t)"
    and tid_small: "t \<in> T \<Longrightarrow> unat (tid t) < 65536"
    and room: "card T * depth < 65536"
begin

lemma sum_reads_le:
  assumes inv: "lock_inv T tid depth own s"
  shows "sum (reads s) T \<le> card T * depth"
proof -
  have "reads s t \<le> depth" if "t \<in> T" for t
    using inv that by (auto simp: lock_inv_def thread_ok_def reads_def)
  then show ?thesis
    using sum_bounded_above [of T "reads s" depth] by simp
qed

lemma sum_reads_less:
  assumes inv: "lock_inv T tid depth own s" and t: "t \<in> T" "reads s t < depth"
  shows "sum (reads s) T + 1 < 65536"
proof -
  have le: "reads s u \<le> depth" if "u \<in> T" for u
    using inv that by (auto simp: lock_inv_def thread_ok_def reads_def)
  have "sum (reads s) T < sum (\<lambda>_. depth) T"
    using finite_T t le by (intro sum_strict_mono_ex1) auto
  then show ?thesis using room by simp
qed

lemma flag_mod:
  assumes inv: "lock_inv T tid depth own s"
  shows "unat (lockFlag (the_lock s)) mod 65536 = sum (reads s) T"
proof -
  have "sum (reads s) T < 65536"
    using sum_reads_le [OF inv] room by simp
  then show ?thesis
    using inv by (cases own) (auto simp: lock_inv_def)
qed

lemma flag_div:
  assumes inv: "lock_inv T tid depth own s"
  shows "unat (lockFlag (the_lock s)) div 65536 = (case own of None \<Rightarrow> 0 | Some o' \<Rightarrow> unat (tid o'))"
proof -
  have "sum (reads s) T < 65536"
    using sum_reads_le [OF inv] room by simp
  then show ?thesis
    using inv by (cases own) (auto simp: lock_inv_def)
qed

lemma owner_test:
  assumes inv: "lock_inv T tid depth own s" and t: "t \<in> T"
  shows "tid t = lock_thread_id (the_lock s) \<longleftrightarrow> own = Some t"
proof (cases own)
  case None
  then show ?thesis
    using flag_div [OF inv] tid_pos [OF t] by (simp add: owner_test_iff)
next
  case (Some o')
  then have "o' \<in> T" using inv by (auto simp: lock_inv_def)
  then have "unat (tid t) = unat (tid o') \<longleftrightarrow> t = o'"
    using tid_inj t by (auto simp: inj_on_def word_unat_eq_iff)
  then show ?thesis
    using Some flag_div [OF inv] by (auto simp: owner_test_iff)
qed

lemma only_owner_reads:
  assumes inv: "lock_inv T tid depth (Some t) s"
  shows "sum (reads s) T = reads s t"
  using inv finite_T by (intro sum_single) (auto simp: lock_inv_def thread_ok_def)


text \<open>One thread moves: what has to be shown about it, the others being framed.\<close>

lemma inv_update:
  assumes inv: "lock_inv T tid depth own s" and t: "t \<in> T"
    and others: "\<And>u. u \<noteq> t \<Longrightarrow> pcs s' u = pcs s u \<and> wheld s' u = wheld s u \<and> rheld s' u = rheld s u"
    and own': "set_option own' \<subseteq> T" "\<And>u. u \<in> T \<Longrightarrow> u \<noteq> t \<Longrightarrow> own' = Some u \<longleftrightarrow> own = Some u"
    and ok: "thread_ok depth own' s' t"
    and alone: "own' = Some t \<Longrightarrow> own = Some t \<or> sum (reads s) T = 0"
    and flag: "unat (lockFlag (the_lock s')) + reads s t + owner_part tid own =
               unat (lockFlag (the_lock s)) + reads s' t + owner_part tid own'"
    and count: "unat (writeCount (the_lock s')) = (case own' of None \<Rightarrow> 0 | Some u \<Rightarrow> writes s' u)"
  shows "lock_inv T tid depth own' s'"
proof -
  have "sum (reads s') T + reads s t = sum (reads s) T + reads s' t"
    using others by (intro sum_reads_upd [OF finite_T t] reads_frame) auto
  then have "unat (lockFlag (the_lock s')) = owner_part tid own' + sum (reads s') T"
    using inv flag by (simp add: lock_inv_def)
  moreover have "thread_ok depth own' s' u" if u: "u \<in> T" for u
  proof (cases "u = t")
    case False
    have "reads s u = 0" if "own' \<noteq> None" "own' \<noteq> Some u"
    proof (cases "own' = Some t")
      case True
      then show ?thesis
        using alone inv u False finite_T
        by (auto simp: lock_inv_def thread_ok_def)
    next
      case False
      with that obtain v where v: "own' = Some v" "v \<noteq> t" by (cases own') auto
      then have "own = Some v" using own' by auto
      then show ?thesis
        using v that inv u by (auto simp: lock_inv_def thread_ok_def)
    qed
    then show ?thesis
      using thread_ok_frame [of depth own s u s' own'] inv u others [OF False] own'(2) [OF u False]
      by (auto simp: lock_inv_def)
  qed (simp add: ok)
  ultimately show ?thesis
    using own' count by (simp add: lock_inv_def)
qed

lemma inv_thread: "lock_inv T tid depth own s \<Longrightarrow> t \<in> T \<Longrightarrow> thread_ok depth own s t"
  by (simp add: lock_inv_def)

lemma inv_owner_in: "lock_inv T tid depth (Some t) s \<Longrightarrow> t \<in> T"
  by (simp add: lock_inv_def)

lemma small_flag_unowned:
  assumes inv: "lock_inv T tid depth own s" and small: "unat (lockFlag (the_lock s)) < 65536"
  shows "own = None"
proof (cases own)
  case (Some o')
  then have "unat (tid o') = 0" using flag_div [OF inv] small by simp
  moreover have "o' \<in> T" using inv Some by (simp add: lock_inv_def)
  ultimately show ?thesis using tid_pos by fastforce
qed

text \<open>Steps that leave the lock alone.\<close>

lemma inv_quiet:
  assumes inv: "lock_inv T tid depth own s" and t: "t \<in> T"
    and l: "the_lock s' = the_lock s"
    and others: "\<And>u. u \<noteq> t \<Longrightarrow> pcs s' u = pcs s u \<and> wheld s' u = wheld s u \<and> rheld s' u = rheld s u"
    and ok: "thread_ok depth own s' t"
    and same: "reads s' t = reads s t" "own = Some t \<Longrightarrow> writes s' t = writes s t"
  shows "lock_inv T tid depth own s'"
proof (rule inv_update [OF inv t others])
  show "unat (writeCount (the_lock s')) = (case own of None \<Rightarrow> 0 | Some u \<Rightarrow> writes s' u)"
  proof (cases own)
    case (Some u)
    then have "writes s' u = writes s u"
      using same(2) others [of u] by (cases "u = t") (auto simp: writes_def)
    then show ?thesis using inv l Some by (simp add: lock_inv_def)
  qed (use inv l in \<open>simp add: lock_inv_def\<close>)
qed (use inv l ok same in \<open>auto simp: lock_inv_def\<close>)

lemma inv_enter:
  assumes inv: "lock_inv T tid depth own s" and t: "t \<in> T"
    and idle: "pcs s t = Idle" and may: "may_call depth (wheld s t) (rheld s t) c"
  shows "lock_inv T tid depth own (enter s t c)"
proof (rule inv_quiet [OF inv t])
  show "thread_ok depth own (enter s t c) t"
    using may inv_thread [OF inv t] idle
    by (cases c) (auto simp: enter_def thread_ok_def reads_def)
  show "reads (enter s t c) t = reads s t" "writes (enter s t c) t = writes s t"
    using may idle by (cases c; simp add: enter_def reads_def writes_def)+
qed (auto simp: enter_def)

lemma inv_spin_won:
  assumes inv: "lock_inv T tid depth own s" and t: "t \<in> T"
    and pc: "pcs s t = WL_spin b n" and free: "lockFlag (the_lock s) = EMPTY_FLAG"
  shows "lock_inv T tid depth (Some t)
           (moved s t ((the_lock s)\<lparr>lockFlag := desired_flag (tid t)\<rparr>) WL_won)"
proof -
  have own: "own = None"
    by (rule small_flag_unowned [OF inv]) (simp add: free)
  then have zero: "sum (reads s) T = 0"
    using inv free by (simp add: lock_inv_def)
  then have r: "reads s t = 0" using t finite_T by simp
  let ?s' = "moved s t ((the_lock s)\<lparr>lockFlag := desired_flag (tid t)\<rparr>) WL_won"
  have ok: "thread_ok depth None s t" using inv_thread [OF inv t] own by simp
  show ?thesis
  proof (rule inv_update [OF inv t])
    show "thread_ok depth (Some t) ?s' t"
      using ok pc by (auto simp: thread_ok_def moved_def)
    show "unat (lockFlag (the_lock ?s')) + reads s t + owner_part tid own =
        unat (lockFlag (the_lock s)) + reads ?s' t + owner_part tid (Some t)"
      using r pc own free tid_small [OF t]
      by (simp add: moved_def unat_desired_flag reads_def)
    show "unat (writeCount (the_lock ?s')) = (case Some t of None \<Rightarrow> 0 | Some u \<Rightarrow> writes ?s' u)"
      using inv own ok pc by (simp add: lock_inv_def moved_def writes_def thread_ok_def)
  qed (use t own zero in \<open>auto simp: moved_def\<close>)
qed

lemma inv_counted:
  assumes inv: "lock_inv T tid depth own s" and t: "t \<in> T"
    and pc: "pcs s t = WL_rec \<or> pcs s t = WL_won"
  shows "lock_inv T tid depth own
           (moved s t ((the_lock s)\<lparr>writeCount := writeCount (the_lock s) + 1\<rparr>) Idle)"
proof -
  have ok: "thread_ok depth own s t" by (rule inv_thread [OF inv t])
  then have own: "own = Some t" using pc by (auto simp: thread_ok_def)
  have "card T \<ge> 1" using t finite_T by (simp add: Suc_le_eq card_gt_0_iff) blast
  then have "depth < 65536" using room
    by (metis le_less_trans mult_le_mono1 nat_mult_1)
  then have "unat (writeCount (the_lock s)) + 1 < 2 ^ LENGTH(16)"
    using inv own ok pc by (auto simp: lock_inv_def thread_ok_def writes_def)
  then have "unat (writeCount (the_lock s) + 1) = unat (writeCount (the_lock s)) + 1"
    by (rule unat_Suc_lt)
  then show ?thesis
    using ok pc own inv t
    by (intro inv_update [OF inv t])
      (auto simp: moved_def thread_ok_def reads_def writes_def lock_inv_def)
qed

lemma inv_uncounted:
  assumes inv: "lock_inv T tid depth own s" and t: "t \<in> T" and pc: "pcs s t = WU_dec"
    and p: "p = (if writeCount (the_lock s) - 1 = 0 then WU_store else Idle)"
  shows "lock_inv T tid depth own
           (moved s t ((the_lock s)\<lparr>writeCount := writeCount (the_lock s) - 1\<rparr>) p)"
proof -
  have ok: "thread_ok depth own s t" by (rule inv_thread [OF inv t])
  then have own: "own = Some t" using pc by (auto simp: thread_ok_def)
  have c: "unat (writeCount (the_lock s)) = wheld s t + 1"
    using inv own pc by (simp add: lock_inv_def writes_def)
  then have d: "unat (writeCount (the_lock s) - 1) = wheld s t"
    by (simp add: unat_pred_pos)
  then have "writeCount (the_lock s) - 1 = 0 \<longleftrightarrow> wheld s t = 0"
    by (metis unat_eq_zero)
  then show ?thesis
    using ok pc own inv t d p
    by (intro inv_update [OF inv t])
      (auto simp: moved_def thread_ok_def reads_def writes_def lock_inv_def)
qed

lemma inv_released:
  assumes inv: "lock_inv T tid depth own s" and t: "t \<in> T" and pc: "pcs s t = WU_store"
  shows "lock_inv T tid depth None (moved s t ((the_lock s)\<lparr>lockFlag := EMPTY_FLAG\<rparr>) Idle)"
proof -
  have ok: "thread_ok depth own s t" by (rule inv_thread [OF inv t])
  then have own: "own = Some t" using pc by (auto simp: thread_ok_def)
  have r: "reads s t = 0" using ok pc by (auto simp: thread_ok_def reads_def)
  then have "sum (reads s) T = 0"
    using only_owner_reads inv own by simp
  then show ?thesis
    using ok pc own inv t r
    by (intro inv_update [OF inv t])
      (auto simp: moved_def thread_ok_def reads_def writes_def lock_inv_def)
qed

lemma inv_read_taken:
  assumes inv: "lock_inv T tid depth own s" and t: "t \<in> T"
    and pc: "pcs s t = RL_add \<or>
      (\<exists>b n. pcs s t = RL_cas b n (lockFlag (the_lock s)))"
  shows "lock_inv T tid depth own (moved s t ((the_lock s)\<lparr>lockFlag := lockFlag (the_lock s) + 1\<rparr>) Idle)"
proof -
  have ok: "thread_ok depth own s t" by (rule inv_thread [OF inv t])
  have r: "reads s t < depth" using ok pc by (auto simp: thread_ok_def reads_def)
  have small: "sum (reads s) T + 1 < 65536" by (rule sum_reads_less [OF inv t r])
  have own: "own = None \<or> own = Some t"
  proof (cases "pcs s t = RL_add")
    case True
    then show ?thesis using ok by (auto simp: thread_ok_def)
  next
    case False
    then have "unat (lockFlag (the_lock s)) < 65536"
      using pc ok by (auto simp: thread_ok_def)
    then show ?thesis using small_flag_unowned [OF inv] by blast
  qed
  have "unat (lockFlag (the_lock s)) \<le> 65535 * 65536 + sum (reads s) T"
    using inv own tid_small [OF t] by (auto simp: lock_inv_def)
  then have "unat (lockFlag (the_lock s)) + 1 < 2 ^ LENGTH(32)"
    using small by simp
  then have f: "unat (lockFlag (the_lock s) + 1) = unat (lockFlag (the_lock s)) + 1"
    by (rule unat_Suc_lt)
  then show ?thesis
    using ok pc own inv t f
    by (intro inv_update [OF inv t])
      (auto simp: moved_def thread_ok_def reads_def writes_def lock_inv_def)
qed

lemma inv_read_given_back:
  assumes inv: "lock_inv T tid depth own s" and t: "t \<in> T" and pc: "pcs s t = RU_sub"
  shows "lock_inv T tid depth own (moved s t ((the_lock s)\<lparr>lockFlag := lockFlag (the_lock s) - 1\<rparr>) Idle)"
proof -
  have ok: "thread_ok depth own s t" by (rule inv_thread [OF inv t])
  have "0 < reads s t" using pc by (simp add: reads_def)
  then have "0 < sum (reads s) T"
    using member_le_sum_nat [OF finite_T t, of "reads s"] by simp
  then have "0 < unat (lockFlag (the_lock s))"
    using inv by (auto simp: lock_inv_def)
  then have f: "unat (lockFlag (the_lock s) - 1) = unat (lockFlag (the_lock s)) - 1"
    by (rule unat_pred_pos)
  then show ?thesis
    using ok pc inv t f \<open>0 < unat (lockFlag (the_lock s))\<close>
    by (intro inv_update [OF inv t])
      (auto simp: moved_def thread_ok_def reads_def writes_def lock_inv_def)
qed


lemma inv_spin_lost:
  assumes inv: "lock_inv T tid depth own s" and t: "t \<in> T"
    and pcs: "\<not> write_pc (pcs s t)" "\<not> write_pc p" "pcs s t \<noteq> RU_sub" "p \<noteq> RU_sub"
      "\<not> read_returns (pcs s t) p" "pc_ok depth p (wheld s t) (rheld s t)"
  shows "lock_inv T tid depth own (moved s t (the_lock s) p)"
proof (rule inv_quiet [OF inv t])
  have w: "\<not> write_returns (pcs s t)" using pcs(1) by (cases "pcs s t") auto
  show "thread_ok depth own (moved s t (the_lock s) p) t"
    using inv_thread [OF inv t] pcs w by (auto simp: thread_ok_def moved_def reads_def)
  show "reads (moved s t (the_lock s) p) t = reads s t"
    using pcs by (simp add: moved_def reads_def)
  show "writes (moved s t (the_lock s) p) t = writes s t"
    using pcs w by (cases "pcs s t"; cases p) (auto simp: moved_def writes_def)
qed (auto simp: moved_def)

lemma inv_own_step:
  assumes inv: "lock_inv T tid depth own s" and t: "t \<in> T" and own: "own = Some t"
    and p: "pcs s t = WL_load \<and> p = WL_rec \<or> pcs s t = RL_load \<and> p = RL_add"
  shows "lock_inv T tid depth own (moved s t (the_lock s) p)"
proof (rule inv_quiet [OF inv t])
  show "thread_ok depth own (moved s t (the_lock s) p) t"
    using inv_thread [OF inv t] p own by (auto simp: thread_ok_def moved_def reads_def)
  show "reads (moved s t (the_lock s) p) t = reads s t"
    using p by (auto simp: moved_def reads_def)
  show "writes (moved s t (the_lock s) p) t = writes s t"
    using p by (auto simp: moved_def writes_def)
qed (auto simp: moved_def)

lemma inv_unlock_checked:
  assumes inv: "lock_inv T tid depth own s" and t: "t \<in> T"
    and pc: "pcs s t = WU_check" and zero: "lockFlag (the_lock s) AND READ_COUNT_MASK = 0"
  shows "lock_inv T tid depth own (moved s t (the_lock s) WU_dec)"
proof (rule inv_quiet [OF inv t])
  have "sum (reads s) T = 0"
    using zero flag_mod [OF inv] by (simp add: read_count_zero_iff)
  then have "rheld s t = 0" using t finite_T by (simp add: reads_def)
  then show "thread_ok depth own (moved s t (the_lock s) WU_dec) t"
    using inv_thread [OF inv t] pc by (auto simp: thread_ok_def moved_def reads_def)
qed (auto simp: moved_def reads_def writes_def pc)

lemma pc_ok_now: "lock_inv T tid depth own s \<Longrightarrow> t \<in> T \<Longrightarrow>
    pc_ok depth (pcs s t) (wheld s t) (rheld s t)"
  using inv_thread by (fastforce simp: thread_ok_def)

lemma run_inv_load:
  assumes inv: "lock_inv T tid depth own s" and t: "t \<in> T"
    and pc: "pcs s t = WL_load \<or> pcs s t = RL_load"
    and run: "lock_step (clock s) (tid t) (the_lock s) (pcs s t) = Inr (l, p)"
  shows "lock_inv T tid depth own (moved s t l p)"
proof (cases "own = Some t")
  case True
  then have l: "l = the_lock s"
    and "pcs s t = WL_load \<and> p = WL_rec \<or> pcs s t = RL_load \<and> p = RL_add"
    using run pc owner_test [OF inv t] by auto
  then show ?thesis using inv_own_step [OF inv t True] by blast
next
  case False
  then have l: "l = the_lock s"
    and p: "pcs s t = WL_load \<and> p = WL_tick \<or> pcs s t = RL_load \<and> p = RL_tick"
    using run pc owner_test [OF inv t] by auto
  show ?thesis unfolding l
    by (rule inv_spin_lost [OF inv t]) (use p pc_ok_now [OF inv t] in auto)
qed

lemma run_inv_wait:
  assumes inv: "lock_inv T tid depth own s" and t: "t \<in> T"
    and pc: "pcs s t = Idle \<or> pcs s t = WL_tick \<or> pcs s t = RL_tick \<or>
      (\<exists>b n. pcs s t = RL_read b n)"
    and run: "lock_step (clock s) (tid t) (the_lock s) (pcs s t) = Inr (l, p)"
  shows "lock_inv T tid depth own (moved s t l p)"
proof -
  have l: "l = the_lock s" using pc run by (auto split: if_splits)
  have p: "\<not> write_pc p" "p \<noteq> RU_sub" "\<not> read_returns (pcs s t) p"
    "pc_ok depth p (wheld s t) (rheld s t)"
    using pc run pc_ok_now [OF inv t] by (auto simp: unat_read_count split: if_splits)
  show ?thesis unfolding l
    by (rule inv_spin_lost [OF inv t]) (use p pc in auto)
qed

lemma run_inv_spin:
  assumes inv: "lock_inv T tid depth own s" and t: "t \<in> T" and pc: "pcs s t = WL_spin b n"
    and run: "lock_step (clock s) (tid t) (the_lock s) (pcs s t) = Inr (l, p)"
  shows "\<exists>own'. lock_inv T tid depth own' (moved s t l p)"
proof (cases "n < MAX_SPIN_COUNT \<and> lockFlag (the_lock s) = EMPTY_FLAG")
  case True
  then have "l = (the_lock s)\<lparr>lockFlag := desired_flag (tid t)\<rparr>" "p = WL_won"
    using run pc by (simp_all add: compare_exchange_strong_def)
  then show ?thesis using inv_spin_won [OF inv t pc] True by blast
next
  case False
  then have l: "l = the_lock s" and p: "\<exists>b n. p = WL_spin b n"
    using run pc by (auto simp: compare_exchange_strong_def split: if_splits)
  have "lock_inv T tid depth own (moved s t (the_lock s) p)"
    by (rule inv_spin_lost [OF inv t]) (use p pc pc_ok_now [OF inv t] in auto)
  then show ?thesis unfolding l by blast
qed

lemma run_inv_cas:
  assumes inv: "lock_inv T tid depth own s" and t: "t \<in> T" and pc: "pcs s t = RL_cas b n e"
    and run: "lock_step (clock s) (tid t) (the_lock s) (pcs s t) = Inr (l, p)"
  shows "lock_inv T tid depth own (moved s t l p)"
proof (cases "lockFlag (the_lock s) = e")
  case True
  then have "l = (the_lock s)\<lparr>lockFlag := lockFlag (the_lock s) + 1\<rparr>" "p = Idle"
    using run pc by (simp_all add: compare_exchange_strong_def)
  then show ?thesis using inv_read_taken [OF inv t] pc True by blast
next
  case False
  then have l: "l = the_lock s" and p: "p = RL_read b (n + 1)"
    using run pc by (auto simp: compare_exchange_strong_def)
  show ?thesis unfolding l
    by (rule inv_spin_lost [OF inv t]) (use p pc pc_ok_now [OF inv t] in auto)
qed

lemma run_inv:
  assumes inv: "lock_inv T tid depth own s" and t: "t \<in> T"
    and run: "lock_step (clock s) (tid t) (the_lock s) (pcs s t) = Inr (l, p)"
  shows "\<exists>own'. lock_inv T tid depth own' (moved s t l p)"
proof (cases "pcs s t")
  case Idle
  then show ?thesis using run_inv_wait [OF inv t _ run] by blast
next
  case WL_load
  then show ?thesis using run_inv_load [OF inv t _ run] by blast
next
  case WL_rec
  then show ?thesis using run inv_counted [OF inv t] by auto
next
  case WL_tick
  then show ?thesis using run_inv_wait [OF inv t _ run] by blast
next
  case (WL_spin b n)
  then show ?thesis using run_inv_spin [OF inv t _ run] by blast
next
  case WL_won
  then show ?thesis using run inv_counted [OF inv t] by auto
next
  case WU_check
  then show ?thesis
    using run inv_unlock_checked [OF inv t] by (auto split: if_splits)
next
  case WU_dec
  then show ?thesis using run inv_uncounted [OF inv t] by (auto simp: Let_def)
next
  case WU_store
  then show ?thesis using run inv_released [OF inv t] by auto
next
  case RL_load
  then show ?thesis using run_inv_load [OF inv t _ run] by blast
next
  case RL_add
  then show ?thesis using run inv_read_taken [OF inv t] by auto
next
  case RL_tick
  then show ?thesis using run_inv_wait [OF inv t _ run] by blast
next
  case (RL_read b n)
  then show ?thesis using run_inv_wait [OF inv t _ run] by blast
next
  case (RL_cas b n e)
  then show ?thesis using run_inv_cas [OF inv t _ run] by blast
next
  case RU_sub
  then show ?thesis using run inv_read_given_back [OF inv t] by (auto split: if_splits)
qed

lemma inv_irrelevant:
  assumes "lock_inv T tid depth own s"
  shows "lock_inv T tid depth own (s\<lparr>clock := c\<rparr>)" "lock_inv T tid depth own (s\<lparr>crashed := e\<rparr>)"
proof -
  have "reads (s\<lparr>clock := c\<rparr>) = reads s" "reads (s\<lparr>crashed := e\<rparr>) = reads s"
    "\<And>t. writes (s\<lparr>clock := c\<rparr>) t = writes s t" "\<And>t. writes (s\<lparr>crashed := e\<rparr>) t = writes s t"
    by (auto simp: reads_def writes_def)
  then show "lock_inv T tid depth own (s\<lparr>clock := c\<rparr>)" "lock_inv T tid depth own (s\<lparr>crashed := e\<rparr>)"
    using assms by (cases own; simp add: lock_inv_def thread_ok_def)+
qed

lemma step_inv:
  "sys_step T tid depth s s' \<Longrightarrow> lock_inv T tid depth own s \<Longrightarrow> \<exists>own'. lock_inv T tid depth own' s'"
  by (induction rule: sys_step.cases) (auto dest: inv_enter run_inv inv_irrelevant)

lemma init_inv: "lock_inv T tid depth None lock_init"
  by (simp add: lock_inv_def lock_init_def new_lock_def thread_ok_def reads_def)

lemma lock_reachable_inv: "lock_reachable T tid depth s \<Longrightarrow> \<exists>own. lock_inv T tid depth own s"
proof (induction rule: lock_reachable.induct)
  case start
  show ?case using init_inv ..
next
  case (step s s')
  then show ?case using step_inv by blast
qed

text \<open>What the clients of the lock rely on.\<close>

lemma mutual_exclusion:
  assumes "lock_reachable T tid depth s" "t \<in> T" "u \<in> T" "t \<noteq> u" "0 < wheld s t"
  shows "wheld s u = 0 \<and> rheld s u = 0"
proof -
  obtain own where inv: "lock_inv T tid depth own s" using lock_reachable_inv assms(1) by blast
  then have "own = Some t" using inv_thread [OF inv assms(2)] assms(5) by (simp add: thread_ok_def)
  then show ?thesis
    using inv_thread [OF inv assms(3)] assms(4) by (auto simp: thread_ok_def reads_def)
qed

lemma write_count_race_free:
  assumes "lock_reachable T tid depth s" "t \<in> T" "u \<in> T" "write_pc (pcs s t)" "write_pc (pcs s u)"
  shows "t = u"
proof -
  obtain own where inv: "lock_inv T tid depth own s" using lock_reachable_inv assms(1) by blast
  then show ?thesis
    using inv_thread [OF inv assms(2)] inv_thread [OF inv assms(3)] assms(4,5)
    by (auto simp: thread_ok_def)
qed

lemma flag_meaning:
  assumes "lock_reachable T tid depth s" "\<And>t. t \<in> T \<Longrightarrow> pcs s t = Idle"
  shows "unat (lockFlag (the_lock s)) mod 65536 = (\<Sum>t\<in>T. rheld s t)"
    and "t \<in> T \<Longrightarrow> 0 < wheld s t \<longleftrightarrow> lock_thread_id (the_lock s) = tid t"
    and "t \<in> T \<Longrightarrow> 0 < wheld s t \<Longrightarrow> unat (writeCount (the_lock s)) = wheld s t"
proof -
  obtain own where inv: "lock_inv T tid depth own s" using lock_reachable_inv assms(1) by blast
  have "sum (reads s) T = (\<Sum>t\<in>T. rheld s t)"
    using assms(2) by (intro sum.cong) (auto simp: reads_def)
  then show "unat (lockFlag (the_lock s)) mod 65536 = (\<Sum>t\<in>T. rheld s t)"
    using flag_mod [OF inv] by simp
  assume t: "t \<in> T"
  show "0 < wheld s t \<longleftrightarrow> lock_thread_id (the_lock s) = tid t"
    using owner_test [OF inv t] inv_thread [OF inv t] assms(2) [OF t]
    by (auto simp: thread_ok_def)
  show "0 < wheld s t \<Longrightarrow> unat (writeCount (the_lock s)) = wheld s t"
    using inv inv_thread [OF inv t] assms(2) [OF t]
    by (auto simp: thread_ok_def lock_inv_def writes_def)
qed

lemma crash_causes:
  assumes inv: "lock_inv T tid depth own s" and t: "t \<in> T"
    and crash: "lock_step (clock s) (tid t) (the_lock s) (pcs s t) = Inl e"
  shows "e = CRASH ''Lock_Timeout'' \<or>
    e = CRASH ''INVALID_UNLOCK_ORDER'' \<and> pcs s t = WU_check \<and> 0 < rheld s t"
proof (cases "pcs s t")
  case WU_check
  then have "own = Some t" using inv_thread [OF inv t] by (simp add: thread_ok_def)
  then have "reads s t \<noteq> 0"
    using crash WU_check flag_mod [OF inv] only_owner_reads inv
    by (auto simp: read_count_zero_iff split: if_splits)
  then show ?thesis using crash WU_check by (auto simp: reads_def split: if_splits)
next
  case RU_sub
  then have "sum (reads s) T \<noteq> 0" using t finite_T by (auto simp: reads_def)
  then show ?thesis
    using crash RU_sub flag_mod [OF inv] by (simp add: read_count_zero_iff split: if_splits)
qed (use crash in \<open>auto simp: compare_exchange_strong_def Let_def split: if_splits\<close>)

lemma only_crashes:
  "lock_reachable T tid depth s \<Longrightarrow> crashed s = Some e \<Longrightarrow>
     e = CRASH ''Lock_Timeout'' \<or>
     e = CRASH ''INVALID_UNLOCK_ORDER'' \<and> (\<exists>t\<in>T. pcs s t = WU_check \<and> 0 < rheld s t)"
proof (induction rule: lock_reachable.induct)
  case start
  then show ?case by (simp add: lock_init_def)
next
  case (step s s')
  obtain own where inv: "lock_inv T tid depth own s" using lock_reachable_inv step.hyps(1) by blast
  from step.hyps(2) show ?case
  proof cases
    case (crash t e')
    then show ?thesis using crash_causes [OF inv crash(3,4)] step.prems by auto
  qed (use step.prems in \<open>auto simp: enter_def moved_def\<close>)
qed

end

end
