(* ===== verification/RW_Lock_Alone.thy ===== *)
theory RW_Lock_Alone
  imports RW_Lock
begin

text \<open>
  What a call of the lock does when no other thread interferes, as one function per method
  (\<open>WriteLock_alone\<close> and its siblings), with the proof that the step-by-step code of
  \<open>RW_Lock\<close> computes exactly that; how long a call may wait whatever the others do; and
  the guards of \<^verbatim>\<open>Lock.h\<close>: which nestings of \<^verbatim>\<open>ReadLockGuard\<close> and
  \<^verbatim>\<open>WriteLockGuard\<close> in one thread run through and which crash.
\<close>

section \<open>One thread at a time\<close>

fun solo :: "uint64 list \<Rightarrow> uint32 \<Rightarrow> lock \<Rightarrow> pc \<Rightarrow> (lock \<times> pc) outcome" where
  "solo [] t l p = Inr (l, p)"
| "solo (now # clocks) t l p =
     and_then (lock_step now t l p) (\<lambda>(l', p'). solo clocks t l' p')"

definition WriteLock_alone :: "uint32 \<Rightarrow> lock \<Rightarrow> lock outcome" where
  "WriteLock_alone t l =
     (if t = lock_thread_id l then Inr (l\<lparr>writeCount := writeCount l + 1\<rparr>)
      else if lockFlag l = EMPTY_FLAG
      then Inr (l\<lparr>lockFlag := desired_flag t, writeCount := writeCount l + 1\<rparr>)
      else Inl (CRASH ''Lock_Timeout''))"

definition WriteUnlock_alone :: "uint32 \<Rightarrow> lock \<Rightarrow> lock outcome" where
  "WriteUnlock_alone t l =
     (if lockFlag l AND READ_COUNT_MASK \<noteq> 0 then Inl (CRASH ''INVALID_UNLOCK_ORDER'')
      else if writeCount l - 1 = 0 then Inr (l\<lparr>lockFlag := EMPTY_FLAG, writeCount := 0\<rparr>)
      else Inr (l\<lparr>writeCount := writeCount l - 1\<rparr>))"

definition ReadLock_alone :: "uint32 \<Rightarrow> lock \<Rightarrow> lock outcome" where
  "ReadLock_alone t l =
     (if t = lock_thread_id l \<or> lockFlag l = lockFlag l AND READ_COUNT_MASK
      then Inr (l\<lparr>lockFlag := lockFlag l + 1\<rparr>)
      else Inl (CRASH ''Lock_Timeout''))"

definition ReadUnlock_alone :: "uint32 \<Rightarrow> lock \<Rightarrow> lock outcome" where
  "ReadUnlock_alone t l =
     (if lockFlag l AND READ_COUNT_MASK = 0 then Inl (CRASH ''MULTIPLE UNLOCK'')
      else Inr (l\<lparr>lockFlag := lockFlag l - 1\<rparr>))"

fun call_alone :: "call \<Rightarrow> uint32 \<Rightarrow> lock \<Rightarrow> lock outcome" where
  "call_alone WriteLock = WriteLock_alone"
| "call_alone WriteUnlock = WriteUnlock_alone"
| "call_alone ReadLock = ReadLock_alone"
| "call_alone ReadUnlock = ReadUnlock_alone"

lemma solo_Idle [simp]: "solo clocks t l Idle = Inr (l, Idle)"
  by (induction clocks) simp_all

lemma solo_step:
  "lock_step now t l p = r \<Longrightarrow>
     solo (now # clocks) t l p = and_then r (\<lambda>(l', p'). solo clocks t l' p')"
  by simp

text \<open>Spinning in vain: every attempt fails, then the clock is looked at.\<close>

lemma solo_write_spin:
  assumes "lockFlag l \<noteq> EMPTY_FLAG" "n \<le> MAX_SPIN_COUNT" "MAX_SPIN_COUNT - n < length clocks"
    and "\<forall>c \<in> set clocks. timed_out c b"
  shows "solo clocks t l (WL_spin b n) = Inl (CRASH ''Lock_Timeout'')"
  using assms
proof (induction clocks arbitrary: n)
  case (Cons c clocks)
  show ?case
  proof (cases "n < MAX_SPIN_COUNT")
    case True
    then have "solo clocks t l (WL_spin b (n + 1)) = Inl (CRASH ''Lock_Timeout'')"
      using Cons.prems by (intro Cons.IH) auto
    then show ?thesis using Cons.prems True by (simp add: compare_exchange_strong_def)
  qed (use Cons.prems in simp)
qed simp

lemma solo_read_spin:
  assumes "lockFlag l \<noteq> lockFlag l AND READ_COUNT_MASK" "n \<le> MAX_SPIN_COUNT"
    and "2 * (MAX_SPIN_COUNT - n) < length clocks" "\<forall>c \<in> set clocks. timed_out c b"
  shows "solo clocks t l (RL_read b n) = Inl (CRASH ''Lock_Timeout'')"
  using assms
proof (induction "MAX_SPIN_COUNT - n" arbitrary: n clocks)
  case 0
  then show ?case by (cases clocks) auto
next
  case (Suc k)
  then have n: "n < MAX_SPIN_COUNT" by simp
  then obtain c c' clocks' where cl: "clocks = c # c' # clocks'"
    using Suc.prems(3) by (cases clocks; cases "tl clocks") auto
  have "solo clocks' t l (RL_read b (n + 1)) = Inl (CRASH ''Lock_Timeout'')"
    using Suc.prems Suc.hyps(2) cl n by (intro Suc.hyps(1)) auto
  then show ?case using Suc.prems(1) n cl by (simp add: compare_exchange_strong_def)
qed

lemma solo_cas_free:
  assumes "lockFlag l = EMPTY_FLAG" "2 \<le> length clocks"
  shows "solo clocks t l (WL_spin b 0) =
    Inr (l\<lparr>lockFlag := desired_flag t, writeCount := writeCount l + 1\<rparr>, Idle)"
  using assms by (cases clocks; cases "tl clocks")
    (auto simp: compare_exchange_strong_def MAX_SPIN_COUNT_def)

lemma solo_cas_read:
  assumes "lockFlag l = lockFlag l AND READ_COUNT_MASK" "2 \<le> length clocks"
  shows "solo clocks t l (RL_read b 0) = Inr (l\<lparr>lockFlag := lockFlag l + 1\<rparr>, Idle)"
  using assms by (cases clocks; cases "tl clocks")
    (auto simp: compare_exchange_strong_def MAX_SPIN_COUNT_def)

lemma solo_acquire:
  assumes "length clocks > 2 * MAX_SPIN_COUNT" "\<forall>c \<in> set clocks. timed_out c b"
  shows "solo (c0 # b # clocks) t l WL_load =
      map_sum id (\<lambda>l'. (l', Idle)) (WriteLock_alone t l)"
    and "solo (c0 # b # clocks) t l RL_load =
      map_sum id (\<lambda>l'. (l', Idle)) (ReadLock_alone t l)"
proof -
  have len: "2 \<le> length clocks" "MAX_SPIN_COUNT - 0 < length clocks"
    "2 * (MAX_SPIN_COUNT - 0) < length clocks"
    using assms(1) by (simp_all add: MAX_SPIN_COUNT_def)
  show "solo (c0 # b # clocks) t l WL_load =
      map_sum id (\<lambda>l'. (l', Idle)) (WriteLock_alone t l)"
    using solo_cas_free [OF _ len(1)] solo_write_spin [OF _ _ len(2) assms(2)]
    by (simp add: WriteLock_alone_def)
  show "solo (c0 # b # clocks) t l RL_load =
      map_sum id (\<lambda>l'. (l', Idle)) (ReadLock_alone t l)"
    using solo_cas_read [OF _ len(1)] solo_read_spin [OF _ _ len(3) assms(2)]
    by (simp add: ReadLock_alone_def)
qed

text \<open>
  C20. Without interference, each method's code, run access by access until the clock has passed
  the limit, ends in exactly the result of its one-function description: the changed lock, or
  the crash.
\<close>

theorem call_alone_refines:
  assumes "length clocks > 2 * MAX_SPIN_COUNT" "\<forall>c \<in> set clocks. timed_out c b"
  shows "solo (c0 # b # clocks) t l (entry c) =
    map_sum id (\<lambda>l'. (l', Idle)) (call_alone c t l)"
proof (cases c)
  case WriteUnlock
  have "clocks \<noteq> []" using assms(1) by auto
  then obtain c1 rest where "clocks = c1 # rest" by (cases clocks) auto
  then show ?thesis
    using WriteUnlock by (auto simp: WriteUnlock_alone_def Let_def)
next
  case ReadUnlock
  then show ?thesis by (simp add: ReadUnlock_alone_def)
qed (use solo_acquire [OF assms] in simp_all)

theorem call_alone_refines_witness:
  "solo (0 # 0 # replicate 10001 10000) 7 new_lock (entry WriteLock) =
     Inr (\<lparr>lockFlag = 0x70000, writeCount = 1\<rparr>, Idle)"
proof -
  have t: "timed_out 10000 0" by (simp add: timed_out_def ACQUIRE_TIMEOUT_TICK_def)
  have len: "length (replicate 10001 (10000 :: uint64)) > 2 * MAX_SPIN_COUNT"
    by (simp add: MAX_SPIN_COUNT_def)
  have all: "\<forall>c \<in> set (replicate 10001 (10000 :: uint64)). timed_out c 0"
    using t by (metis in_set_replicate)
  have "call_alone WriteLock 7 new_lock = Inr \<lparr>lockFlag = 0x70000, writeCount = 1\<rparr>"
    by (simp add: WriteLock_alone_def new_lock_def lock_thread_id_def desired_flag_def lock_const_defs)
  then show ?thesis
    using call_alone_refines [OF len all, of 0 7 new_lock WriteLock] by simp
qed

section \<open>Waiting is bounded\<close>

text \<open>
  \<open>observe\<close> runs one thread while the others do what they like: each of its accesses
  sees some clock and some lock, given as a list.
\<close>

fun observe :: "uint32 \<Rightarrow> (uint64 \<times> lock) list \<Rightarrow> pc \<Rightarrow> pc outcome" where
  "observe t [] p = Inr p"
| "observe t ((now, l) # obs) p = and_then (lock_step now t l p) (\<lambda>(l', p'). observe t obs p')"

fun waiting :: "pc \<Rightarrow> bool" where
  "waiting (WL_spin b n) = True"
| "waiting (RL_read b n) = True"
| "waiting (RL_cas b n e) = True"
| "waiting _ = False"

definition wait_over :: "pc outcome \<Rightarrow> bool" where
  "wait_over r \<longleftrightarrow> r = Inl (CRASH ''Lock_Timeout'') \<or> (\<exists>p. r = Inr p \<and> \<not> waiting p)"

lemma observe_acquired: "p = Idle \<or> p = WL_won \<Longrightarrow> wait_over (observe t obs p)"
proof (induction obs arbitrary: p)
  case Nil
  then show ?case by (auto simp: wait_over_def)
next
  case (Cons o' obs)
  then show ?case by (cases o') auto
qed

lemma observe_write:
  assumes "\<forall>(now, l) \<in> set obs. timed_out now b" "n \<le> MAX_SPIN_COUNT"
    and "MAX_SPIN_COUNT - n < length obs"
  shows "wait_over (observe t obs (WL_spin b n))"
  using assms
proof (induction obs arbitrary: n)
  case (Cons o' obs)
  obtain now l where o': "o' = (now, l)" by (cases o')
  show ?case
  proof (cases "n < MAX_SPIN_COUNT")
    case True
    then have "wait_over (observe t obs (WL_spin b (n + 1)))"
      using Cons.prems by (intro Cons.IH) auto
    then show ?thesis
      using True o' observe_acquired [of WL_won] by (simp add: compare_exchange_strong_def)
  qed (use Cons.prems o' in \<open>simp add: wait_over_def\<close>)
qed simp

lemma observe_read:
  assumes "\<forall>(now, l) \<in> set obs. timed_out now b" "n \<le> MAX_SPIN_COUNT"
    and "2 * (MAX_SPIN_COUNT - n) < length obs"
  shows "wait_over (observe t obs (RL_read b n))"
  using assms
proof (induction "MAX_SPIN_COUNT - n" arbitrary: n obs)
  case 0
  then show ?case by (cases obs) (auto simp: wait_over_def)
next
  case (Suc k)
  then have n: "n < MAX_SPIN_COUNT" by simp
  then obtain x y obs' where obs: "obs = x # y # obs'"
    using Suc.prems(3) by (cases obs; cases "tl obs") auto
  have "wait_over (observe t obs' (RL_read b (n + 1)))"
    using Suc.prems Suc.hyps(2) obs n by (intro Suc.hyps(1)) auto
  then show ?case
    using n obs observe_acquired [of Idle]
    by (cases x; cases y) (simp add: compare_exchange_strong_def)
qed

text \<open>
  C21. Whatever the other threads do to the lock, a thread that spins for it does not spin for
  ever: once the clock has moved ACQUIRE_TIMEOUT_TICK past the start of the wait, it has the
  lock or has crashed within 5001 accesses in WriteLock and 10001 in ReadLock.
\<close>

theorem waiting_is_bounded:
  assumes "\<forall>(now, l) \<in> set obs. timed_out now b"
  shows "(MAX_SPIN_COUNT < length obs \<and> n \<le> MAX_SPIN_COUNT \<longrightarrow>
            wait_over (observe t obs (WL_spin b n))) \<and>
         (2 * MAX_SPIN_COUNT < length obs \<and> n \<le> MAX_SPIN_COUNT \<longrightarrow>
            wait_over (observe t obs (RL_read b n)))"
  by (intro conjI impI observe_write [OF assms] observe_read [OF assms]) auto

theorem waiting_is_bounded_witness:
  "wait_over (observe 3 (replicate 10001 (10000, \<lparr>lockFlag = 0x20000, writeCount = 1\<rparr>)) (RL_read 0 0))"
proof -
  have "\<forall>(now, l) \<in> set (replicate 10001 (10000, \<lparr>lockFlag = 0x20000, writeCount = 1\<rparr>)).
      timed_out now 0"
    by (auto simp: timed_out_def ACQUIRE_TIMEOUT_TICK_def)
  from waiting_is_bounded [OF this, of 0 3] show ?thesis
    by (simp add: MAX_SPIN_COUNT_def)
qed

section \<open>Nested guards in one thread\<close>

text \<open>
  A block guarded by \<^verbatim>\<open>READ_LOCK\<close> or \<^verbatim>\<open>WRITE_LOCK\<close> holds the blocks inside it: the
  guard's constructor takes the lock, its destructor releases it at the end of the block.
\<close>

datatype block = ReadGuard "block list" | WriteGuard "block list"

fun run_block :: "uint32 \<Rightarrow> block \<Rightarrow> lock \<Rightarrow> lock outcome"
  and run_blocks :: "uint32 \<Rightarrow> block list \<Rightarrow> lock \<Rightarrow> lock outcome" where
  "run_block t (ReadGuard bs) l =
     and_then (ReadLock_alone t l) (\<lambda>l. and_then (run_blocks t bs l) (ReadUnlock_alone t))"
| "run_block t (WriteGuard bs) l =
     and_then (WriteLock_alone t l) (\<lambda>l. and_then (run_blocks t bs l) (WriteUnlock_alone t))"
| "run_blocks t [] l = Inr l"
| "run_blocks t (b # bs) l = and_then (run_block t b l) (run_blocks t bs)"

text \<open>The policy of \<^verbatim>\<open>Lock.h\<close>: W to W and W to R are allowed, R to W is not.\<close>

fun policy_block :: "bool \<Rightarrow> block \<Rightarrow> bool"
  and policy_blocks :: "bool \<Rightarrow> block list \<Rightarrow> bool" where
  "policy_block reading (ReadGuard bs) = policy_blocks True bs"
| "policy_block reading (WriteGuard bs) = (\<not> reading \<and> policy_blocks False bs)"
| "policy_blocks reading [] = True"
| "policy_blocks reading (b # bs) = (policy_block reading b \<and> policy_blocks reading bs)"

fun height_block :: "block \<Rightarrow> nat" and height_blocks :: "block list \<Rightarrow> nat" where
  "height_block (ReadGuard bs) = Suc (height_blocks bs)"
| "height_block (WriteGuard bs) = Suc (height_blocks bs)"
| "height_blocks [] = 0"
| "height_blocks (b # bs) = max (height_block b) (height_blocks bs)"

text \<open>The lock as thread \<open>t\<close> has left it after \<open>w\<close> write and \<open>r\<close> read guards.\<close>

definition held_lock :: "uint32 \<Rightarrow> nat \<Rightarrow> nat \<Rightarrow> lock" where
  "held_lock t w r = \<lparr>lockFlag = of_nat ((if 0 < w then unat t * 65536 else 0) + r),
     writeCount = of_nat w\<rparr>"

lemma held_lock_0 [simp]: "held_lock t 0 0 = new_lock"
  by (simp add: held_lock_def new_lock_def EMPTY_FLAG_def)

lemma unat_held_flag:
  assumes "unat t < 65536" "r < 65536"
  shows "unat (lockFlag (held_lock t w r)) = (if 0 < w then unat t * 65536 else 0) + r"
proof -
  have "unat t * 65536 \<le> 65535 * 65536" using assms(1) by simp
  then have "(if 0 < w then unat t * 65536 else 0) + r < 2 ^ LENGTH(32)" using assms(2) by simp
  then show ?thesis unfolding held_lock_def lock.simps by (rule unat_of_nat_small)
qed

lemma held_write_count:
  "w < 65536 \<Longrightarrow> unat (writeCount (held_lock t w r)) = w"
  unfolding held_lock_def lock.simps by (rule unat_of_nat_small) simp

lemma held_owner:
  assumes "unat t < 65536" "0 < unat t" "r < 65536"
  shows "t = lock_thread_id (held_lock t w r) \<longleftrightarrow> 0 < w"
  using assms by (auto simp: owner_test_iff unat_held_flag)

lemma held_readers:
  assumes "unat t < 65536" "r < 65536"
  shows "lockFlag (held_lock t w r) AND READ_COUNT_MASK = 0 \<longleftrightarrow> r = 0"
  using assms by (auto simp: read_count_zero_iff unat_held_flag)

lemma lock_eqI:
  "unat (lockFlag l) = unat (lockFlag l') \<Longrightarrow> unat (writeCount l) = unat (writeCount l') \<Longrightarrow>
     (l :: lock) = l'"
  by (cases l; cases l') (simp add: word_unat_eq_iff)

locale one_thread =
  fixes t :: uint32
  assumes id_small: "unat t < 65536" and id_pos: "0 < unat t"
begin

lemmas held = unat_held_flag [OF id_small] held_write_count held_owner [OF id_small id_pos]
  held_readers [OF id_small]

lemma write_lock_held:
  assumes "w + 1 < 65536" "r < 65536"
  shows "WriteLock_alone t (held_lock t w r) =
    (if 0 < w \<or> r = 0 then Inr (held_lock t (w + 1) r) else Inl (CRASH ''Lock_Timeout''))"
proof (cases "0 < w")
  case True
  then have "t = lock_thread_id (held_lock t w r)" using assms held by simp
  moreover have "(held_lock t w r)\<lparr>writeCount := writeCount (held_lock t w r) + 1\<rparr> =
      held_lock t (w + 1) r"
    using True by (simp add: held_lock_def)
  ultimately show ?thesis using True by (simp add: WriteLock_alone_def)
next
  case False
  moreover have "lockFlag (held_lock t 0 r) = EMPTY_FLAG \<longleftrightarrow> r = 0"
    using assms by (simp add: empty_test_iff held)
  moreover have "(held_lock t 0 0)\<lparr>lockFlag := desired_flag t,
      writeCount := writeCount (held_lock t 0 0) + 1\<rparr> = held_lock t 1 0"
    using id_small by (intro lock_eqI) (simp_all add: held unat_desired_flag new_lock_def)
  ultimately show ?thesis
    using assms held by (auto simp: WriteLock_alone_def)
qed

lemma read_lock_held:
  assumes "r + 1 < 65536"
  shows "ReadLock_alone t (held_lock t w r) = Inr (held_lock t w (r + 1))"
proof -
  have "lockFlag (held_lock t 0 r) = lockFlag (held_lock t 0 r) AND READ_COUNT_MASK"
    using assms by (simp add: word32_eq_iff_unat unat_read_count held)
  moreover have "(held_lock t w r)\<lparr>lockFlag := lockFlag (held_lock t w r) + 1\<rparr> =
      held_lock t w (r + 1)"
    by (simp add: held_lock_def)
  ultimately show ?thesis
    using assms held by (cases "0 < w") (auto simp: ReadLock_alone_def)
qed

lemma read_unlock_held:
  assumes "r + 1 < 65536"
  shows "ReadUnlock_alone t (held_lock t w (r + 1)) = Inr (held_lock t w r)"
proof -
  have "(held_lock t w (r + 1))\<lparr>lockFlag := lockFlag (held_lock t w (r + 1)) - 1\<rparr> =
      held_lock t w r"
    by (simp add: held_lock_def)
  then show ?thesis using assms held by (simp add: ReadUnlock_alone_def)
qed

lemma write_unlock_held:
  assumes "w + 1 < 65536" "r < 65536"
  shows "WriteUnlock_alone t (held_lock t (w + 1) r) =
    (if r = 0 then Inr (held_lock t w r) else Inl (CRASH ''INVALID_UNLOCK_ORDER''))"
proof -
  have m: "writeCount (held_lock t (w + 1) r) - 1 = of_nat w"
    by (simp add: held_lock_def)
  have "(of_nat w :: uint16) = 0 \<longleftrightarrow> w = 0"
    using unat_of_nat_small [of w, where 'a = 16] assms by (auto simp: word_unat_eq_iff)
  moreover have "(held_lock t (w + 1) r)\<lparr>writeCount := of_nat w\<rparr> = held_lock t w r" if "0 < w"
    using that by (simp add: held_lock_def)
  moreover have "(held_lock t 1 0)\<lparr>lockFlag := EMPTY_FLAG, writeCount := 0\<rparr> = held_lock t 0 0"
    by (simp add: held_lock_def EMPTY_FLAG_def)
  ultimately show ?thesis
    using held(4) [OF assms(2), of "w + 1"] m by (cases "w = 0") (auto simp: WriteUnlock_alone_def)
qed

text \<open>Blocks restore the lock exactly when they respect the policy.\<close>

lemma run_held:
  "w + height_block b < 65536 \<Longrightarrow> r + height_block b < 65536 \<Longrightarrow>
     (if policy_block (0 < r) b then run_block t b (held_lock t w r) = Inr (held_lock t w r)
      else \<exists>e. run_block t b (held_lock t w r) = Inl e)"
  "w + height_blocks bs < 65536 \<Longrightarrow> r + height_blocks bs < 65536 \<Longrightarrow>
     (if policy_blocks (0 < r) bs then run_blocks t bs (held_lock t w r) = Inr (held_lock t w r)
      else \<exists>e. run_blocks t bs (held_lock t w r) = Inl e)"
proof (induction b and bs arbitrary: w r and w r rule: height_block_height_blocks.induct)
  case (1 bs)
  have "if policy_blocks True bs
      then run_blocks t bs (held_lock t w (r + 1)) = Inr (held_lock t w (r + 1))
      else \<exists>e. run_blocks t bs (held_lock t w (r + 1)) = Inl e"
    using "1.IH" [of w "r + 1"] "1.prems" by simp
  then show ?case
    using read_lock_held [of r w] read_unlock_held [of r w] "1.prems"
    by (cases "policy_blocks True bs") auto
next
  case (2 bs)
  have body: "if policy_blocks (0 < r) bs
      then run_blocks t bs (held_lock t (w + 1) r) = Inr (held_lock t (w + 1) r)
      else \<exists>e. run_blocks t bs (held_lock t (w + 1) r) = Inl e"
    using "2.IH" [of "w + 1" r] "2.prems" by simp
  show ?case
  proof (cases "r = 0")
    case True
    then show ?thesis
      using body write_lock_held [of w 0] write_unlock_held [of w 0] "2.prems"
      by (cases "policy_blocks False bs") auto
  next
    case False
    then show ?thesis
      using body write_lock_held [of w r] write_unlock_held [of w r] "2.prems"
      by (cases "w = 0"; cases "policy_blocks True bs") auto
  qed
next
  case 3
  then show ?case by simp
next
  case (4 b bs)
  have "if policy_block (0 < r) b then run_block t b (held_lock t w r) = Inr (held_lock t w r)
      else \<exists>e. run_block t b (held_lock t w r) = Inl e"
    by (rule "4.IH"(1)) (use "4.prems" in auto)
  moreover have "if policy_blocks (0 < r) bs
      then run_blocks t bs (held_lock t w r) = Inr (held_lock t w r)
      else \<exists>e. run_blocks t bs (held_lock t w r) = Inl e"
    by (rule "4.IH"(2)) (use "4.prems" in auto)
  ultimately show ?case
    by (cases "policy_block (0 < r) b"; cases "policy_blocks (0 < r) bs") auto
qed

lemma blocks_run_iff:
  "height_blocks bs < 65536 \<Longrightarrow>
     run_blocks t bs new_lock = Inr l \<longleftrightarrow> policy_blocks False bs \<and> l = new_lock"
  using run_held(2) [of 0 bs 0] by (auto split: if_splits)

end

end
