(* ===== verification/Thread_Manager.thy ===== *)
theory Thread_Manager
  imports Prelude
begin

text \<open>
  The thread manager of \<^verbatim>\<open>ServerCore/ThreadManager.h\<close>,
  \<^verbatim>\<open>ServerCore/ThreadManager.cpp\<close> and the thread-local id of
  \<^verbatim>\<open>ServerCore/CoreTLS.cpp\<close>.

  Threads of the operating system are numbered in the order of their creation, the main thread
  being 0. A launched thread runs the lambda of \<^verbatim>\<open>Launch\<close>: \<^verbatim>\<open>InitTLS\<close>, the callback,
  \<^verbatim>\<open>DestroyTLS\<close>; \<open>phase\<close> says where in it each one is, and the steps of
  different threads interleave. \<^verbatim>\<open>Join\<close> is cut at the calls that block. The field
  \<open>inited\<close> records in which order threads called \<^verbatim>\<open>InitTLS\<close>; no step reads it.
\<close>

section \<open>State and operations\<close>

datatype phase = Unborn | Spawned | InCallback | Exited

datatype joiner = NotJoining | Joining "nat list"

record thread_mgr =
  SThreadId :: uint32
  LThreadId :: "nat \<Rightarrow> uint32"
  threads :: "nat list"
  joinable :: "nat \<Rightarrow> bool"
  phase :: "nat \<Rightarrow> phase"
  created :: nat
  join_pc :: joiner
  inited :: "nat list"

definition InitTLS :: "nat \<Rightarrow> thread_mgr \<Rightarrow> thread_mgr" where
  "InitTLS k m = m\<lparr>LThreadId := (LThreadId m)(k := SThreadId m),
     SThreadId := SThreadId m + 1, inited := inited m @ [k]\<rparr>"

definition DestroyTLS :: "nat \<Rightarrow> thread_mgr \<Rightarrow> thread_mgr" where
  "DestroyTLS k m = m"

text \<open>The process starts with the static id counter at 1 and every \<open>LThreadId\<close> 0.\<close>

definition no_threads :: thread_mgr where
  "no_threads = \<lparr>SThreadId = 1, LThreadId = (\<lambda>_. 0), threads = [], joinable = (\<lambda>_. False),
     phase = (\<lambda>k. if k = 0 then Spawned else Unborn), created = 1, join_pc = NotJoining,
     inited = []\<rparr>"

definition ThreadManager_ctor :: thread_mgr where
  "ThreadManager_ctor = (InitTLS 0 no_threads)\<lparr>phase := (phase no_threads)(0 := InCallback)\<rparr>"

definition Launch :: "thread_mgr \<Rightarrow> thread_mgr" where
  "Launch m = (let k = created m in
     m\<lparr>threads := threads m @ [k], joinable := (joinable m)(k := True),
       phase := (phase m)(k := Spawned), created := k + 1\<rparr>)"

definition thread_begins :: "nat \<Rightarrow> thread_mgr \<Rightarrow> thread_mgr" where
  "thread_begins k m = (InitTLS k m)\<lparr>phase := (phase m)(k := InCallback)\<rparr>"

definition thread_ends :: "nat \<Rightarrow> thread_mgr \<Rightarrow> thread_mgr" where
  "thread_ends k m = (DestroyTLS k m)\<lparr>phase := (phase m)(k := Exited)\<rparr>"

inductive tm_step :: "thread_mgr \<Rightarrow> thread_mgr \<Rightarrow> bool" where
  launch: "join_pc m = NotJoining \<Longrightarrow> tm_step m (Launch m)"
| begins: "phase m k = Spawned \<Longrightarrow> tm_step m (thread_begins k m)"
| ends: "phase m k = InCallback \<Longrightarrow> k \<noteq> 0 \<Longrightarrow> tm_step m (thread_ends k m)"
| join_starts: "join_pc m = NotJoining \<Longrightarrow> tm_step m (m\<lparr>join_pc := Joining (threads m)\<rparr>)"
| join_thread: "join_pc m = Joining (k # ks) \<Longrightarrow> joinable m k \<Longrightarrow> phase m k = Exited \<Longrightarrow>
     tm_step m (m\<lparr>joinable := (joinable m)(k := False), join_pc := Joining ks\<rparr>)"
| join_skips: "join_pc m = Joining (k # ks) \<Longrightarrow> \<not> joinable m k \<Longrightarrow>
     tm_step m (m\<lparr>join_pc := Joining ks\<rparr>)"
| join_returns: "join_pc m = Joining [] \<Longrightarrow>
     tm_step m (m\<lparr>threads := [], join_pc := NotJoining\<rparr>)"

inductive tm_reachable :: "thread_mgr \<Rightarrow> bool" where
  tm_start: "tm_reachable ThreadManager_ctor"
| tm_next: "tm_reachable m \<Longrightarrow> tm_step m m' \<Longrightarrow> tm_reachable m'"

inductive_cases tm_step_from: "tm_step m m'"

section \<open>Invariant\<close>

definition has_id :: "thread_mgr \<Rightarrow> nat \<Rightarrow> bool" where
  "has_id m k \<longleftrightarrow> phase m k = InCallback \<or> phase m k = Exited"

definition ids_ok :: "thread_mgr \<Rightarrow> bool" where
  "ids_ok m \<longleftrightarrow>
     distinct (inited m) \<and> set (inited m) = {k. has_id m k} \<and>
     SThreadId m = of_nat (length (inited m) + 1) \<and>
     (\<forall>i < length (inited m). LThreadId m (inited m ! i) = of_nat (i + 1))"

definition join_ok :: "thread_mgr \<Rightarrow> bool" where
  "join_ok m \<longleftrightarrow>
     (\<forall>k. created m \<le> k \<longrightarrow> phase m k = Unborn) \<and>
     set (threads m) \<subseteq> {k. k < created m} \<and>
     (\<forall>k \<in> set (threads m). \<not> joinable m k \<longrightarrow> phase m k = Exited) \<and>
     (case join_pc m of NotJoining \<Rightarrow> True
      | Joining ks \<Rightarrow> \<exists>ds. threads m = ds @ ks \<and> (\<forall>k \<in> set ds. phase m k = Exited))"

lemmas tm_op_defs = Launch_def thread_begins_def thread_ends_def InitTLS_def DestroyTLS_def Let_def

lemma thread_begins_simps [simp]:
  "inited (thread_begins k m) = inited m @ [k]"
  "SThreadId (thread_begins k m) = SThreadId m + 1"
  "LThreadId (thread_begins k m) = (LThreadId m)(k := SThreadId m)"
  "phase (thread_begins k m) = (phase m)(k := InCallback)"
  by (simp_all add: tm_op_defs)

lemma ids_ok_begins:
  assumes ok: "ids_ok m" and k: "phase m k = Spawned"
  shows "ids_ok (thread_begins k m)"
proof -
  have fresh: "k \<notin> set (inited m)" using ok k by (auto simp: ids_ok_def has_id_def)
  have ids: "{j. has_id (thread_begins k m) j} = insert k {j. has_id m j}"
    by (auto simp: has_id_def)
  have "LThreadId (thread_begins k m) ((inited m @ [k]) ! i) = of_nat (i + 1)"
    if i: "i < length (inited m @ [k])" for i
  proof (cases "i < length (inited m)")
    case True
    then have "inited m ! i \<noteq> k" using fresh nth_mem by metis
    then show ?thesis using ok True by (simp add: ids_ok_def nth_append)
  next
    case False
    then have "i = length (inited m)" using i by simp
    then show ?thesis using ok by (simp add: ids_ok_def)
  qed
  then have new: "\<forall>i < length (inited (thread_begins k m)).
      LThreadId (thread_begins k m) (inited (thread_begins k m) ! i) = of_nat (i + 1)"
    unfolding thread_begins_simps(1) by blast
  show ?thesis
    unfolding ids_ok_def
    by (intro conjI new) (use ok fresh ids in \<open>simp_all add: ids_ok_def\<close>)
qed

lemma ids_ok_same:
  assumes "ids_ok m" "inited m' = inited m" "SThreadId m' = SThreadId m" "LThreadId m' = LThreadId m"
    "has_id m' = has_id m"
  shows "ids_ok m'"
  using assms by (simp add: ids_ok_def)

lemma ids_ok_launch:
  assumes "ids_ok m" "join_ok m"
  shows "ids_ok (Launch m)"
proof (rule ids_ok_same [OF assms(1)])
  have "phase m (created m) = Unborn" using assms(2) by (simp add: join_ok_def)
  then show "has_id (Launch m) = has_id m" by (auto simp: has_id_def tm_op_defs fun_eq_iff)
qed (simp_all add: tm_op_defs)

lemma ids_ok_ends:
  assumes "ids_ok m" "phase m k = InCallback"
  shows "ids_ok (thread_ends k m)"
proof (rule ids_ok_same [OF assms(1)])
  show "has_id (thread_ends k m) = has_id m"
    using assms(2) by (auto simp: has_id_def tm_op_defs fun_eq_iff)
qed (simp_all add: tm_op_defs)

lemma ids_ok_join_pc:
  "ids_ok m \<Longrightarrow> ids_ok (m\<lparr>join_pc := j\<rparr>)"
  "ids_ok m \<Longrightarrow> ids_ok (m\<lparr>joinable := f, join_pc := j\<rparr>)"
  "ids_ok m \<Longrightarrow> ids_ok (m\<lparr>threads := ts, join_pc := j\<rparr>)"
  by (rule ids_ok_same [of m]; simp add: has_id_def fun_eq_iff)+

lemma ids_ok_step: "tm_step m m' \<Longrightarrow> ids_ok m \<Longrightarrow> join_ok m \<Longrightarrow> ids_ok m'"
  by (induction rule: tm_step.induct)
    (simp_all add: ids_ok_launch ids_ok_begins ids_ok_ends ids_ok_join_pc)

lemma join_ok_mono:
  assumes "join_ok m" "threads m' = threads m" "joinable m' = joinable m" "created m' = created m"
    "join_pc m' = join_pc m"
    "\<And>k. phase m k = Exited \<Longrightarrow> phase m' k = Exited"
    "\<And>k. phase m k = Unborn \<Longrightarrow> phase m' k = Unborn"
  shows "join_ok m'"
proof -
  have "case join_pc m' of NotJoining \<Rightarrow> True
      | Joining ks \<Rightarrow> \<exists>ds. threads m' = ds @ ks \<and> (\<forall>k \<in> set ds. phase m' k = Exited)"
    using assms by (cases "join_pc m") (auto simp: join_ok_def)
  then show ?thesis using assms by (simp add: join_ok_def)
qed

lemma join_ok_created:
  "join_ok m \<Longrightarrow> \<forall>k. created m \<le> k \<longrightarrow> phase m k = Unborn"
  "join_ok m \<Longrightarrow> set (threads m) \<subseteq> {k. k < created m}"
  by (simp_all add: join_ok_def)

lemma join_ok_Joining:
  "join_ok m \<Longrightarrow> join_pc m = Joining ks \<Longrightarrow>
     \<exists>ds. threads m = ds @ ks \<and> (\<forall>k \<in> set ds. phase m k = Exited)"
  by (simp add: join_ok_def)

lemma join_ok_advance:
  assumes "join_ok m" "join_pc m = Joining (k # ks)" "phase m k = Exited"
    "threads m' = threads m" "phase m' = phase m" "created m' = created m"
    "join_pc m' = Joining ks" "\<And>j. j \<noteq> k \<Longrightarrow> joinable m' j = joinable m j"
  shows "join_ok m'"
proof -
  obtain ds where ds: "threads m = ds @ k # ks" "\<forall>j \<in> set ds. phase m j = Exited"
    using join_ok_Joining [OF assms(1,2)] by blast
  then have "threads m' = (ds @ [k]) @ ks \<and> (\<forall>j \<in> set (ds @ [k]). phase m' j = Exited)"
    using assms(3-5) by simp
  then have split: "\<exists>ds. threads m' = ds @ ks \<and> (\<forall>j \<in> set ds. phase m' j = Exited)"
    by (rule exI)
  have old: "\<forall>j \<in> set (threads m). \<not> joinable m j \<longrightarrow> phase m j = Exited"
    using assms(1) by (simp add: join_ok_def)
  have "phase m' j = Exited" if "j \<in> set (threads m')" "\<not> joinable m' j" for j
  proof (cases "j = k")
    case False
    then show ?thesis using old that assms(4,5) assms(8) [OF False] by simp
  qed (use assms(3,5) in simp)
  then have joined: "\<forall>j \<in> set (threads m'). \<not> joinable m' j \<longrightarrow> phase m' j = Exited"
    by blast
  show ?thesis
    unfolding join_ok_def assms(7) joiner.case
    by (intro conjI split joined) (use join_ok_created [OF assms(1)] assms(4-6) in simp_all)
qed

lemma join_head_exited:
  assumes "join_ok m" "join_pc m = Joining (k # ks)" "\<not> joinable m k"
  shows "phase m k = Exited"
proof -
  have "k \<in> set (threads m)" using join_ok_Joining [OF assms(1,2)] by auto
  then show ?thesis using assms(1,3) by (simp add: join_ok_def)
qed

lemma join_ok_launch:
  assumes "join_ok m" "join_pc m = NotJoining"
  shows "join_ok (Launch m)"
  using assms by (auto simp: join_ok_def tm_op_defs)

lemma join_ok_step: "tm_step m m' \<Longrightarrow> join_ok m \<Longrightarrow> join_ok m'"
proof (induction rule: tm_step.induct)
  case (launch m)
  then show ?case by (simp add: join_ok_launch)
next
  case (begins m k)
  show ?case by (rule join_ok_mono [OF begins(2)]) (use begins(1) in \<open>auto simp: tm_op_defs\<close>)
next
  case (ends m k)
  show ?case by (rule join_ok_mono [OF ends(3)]) (use ends(1) in \<open>auto simp: tm_op_defs\<close>)
next
  case (join_starts m)
  then show ?case by (simp add: join_ok_def)
next
  case (join_thread m k ks)
  show ?case by (rule join_ok_advance [OF join_thread(4,1,3)]) simp_all
next
  case (join_skips m k ks)
  show ?case
    by (rule join_ok_advance [OF join_skips(3,1) join_head_exited [OF join_skips(3,1,2)]]) simp_all
next
  case (join_returns m)
  then show ?case by (simp add: join_ok_def)
qed

lemma tm_invariant: "tm_reachable m \<Longrightarrow> ids_ok m \<and> join_ok m"
proof (induction rule: tm_reachable.induct)
  case tm_start
  have "{k. has_id ThreadManager_ctor k} = {0}"
    by (auto simp: has_id_def ThreadManager_ctor_def no_threads_def)
  then show ?case
    by (auto simp: ids_ok_def join_ok_def ThreadManager_ctor_def no_threads_def InitTLS_def)
next
  case (tm_next m m')
  then show ?case using ids_ok_step join_ok_step by blast
qed

section \<open>Identifiers\<close>

lemma issued_id:
  assumes "ids_ok m" "k \<in> set (inited m)" "length (inited m) < 2 ^ 32"
  shows "\<exists>i < length (inited m). inited m ! i = k \<and> unat (LThreadId m k) = i + 1"
proof -
  obtain i where i: "i < length (inited m)" "inited m ! i = k"
    using assms(2) by (auto simp: in_set_conv_nth)
  then have "LThreadId m k = of_nat (i + 1)" using assms(1) by (auto simp: ids_ok_def)
  moreover have "i + 1 < 2 ^ LENGTH(32)" using i assms(3) by simp
  ultimately have "unat (LThreadId m k) = i + 1" by (simp only: unat_of_nat_small)
  with i show ?thesis by blast
qed

lemma thread_ids_injective:
  "ids_ok m \<Longrightarrow> length (inited m) < 2 ^ 32 \<Longrightarrow> inj_on (LThreadId m) (set (inited m))"
  using issued_id by (intro inj_onI) (metis add_right_cancel)

text \<open>
  C15. Every thread that has run InitTLS holds an id that is not 0 and that no other such thread
  holds, as long as fewer than 2^32 ids have been issued; ids are never reused.
\<close>

theorem thread_ids_unique:
  assumes "tm_reachable m" and "length (inited m) < 2 ^ 32"
  shows "inj_on (LThreadId m) {k. has_id m k} \<and> (\<forall>k. has_id m k \<longrightarrow> LThreadId m k \<noteq> 0)"
proof -
  have ok: "ids_ok m" using tm_invariant assms(1) by blast
  then have set: "{k. has_id m k} = set (inited m)" by (simp add: ids_ok_def)
  have "inj_on (LThreadId m) (set (inited m))"
    by (rule thread_ids_injective [OF ok assms(2)])
  moreover have "LThreadId m k \<noteq> 0" if "k \<in> set (inited m)" for k
    using issued_id [OF ok that assms(2)] by auto
  ultimately show ?thesis using set by auto
qed


theorem thread_ids_unique_witness:
  "tm_reachable (thread_begins 1 (Launch ThreadManager_ctor)) \<and>
   LThreadId (thread_begins 1 (Launch ThreadManager_ctor)) 1 = 2 \<and>
   inj_on (LThreadId (thread_begins 1 (Launch ThreadManager_ctor)))
     {k. has_id (thread_begins 1 (Launch ThreadManager_ctor)) k}"
proof -
  let ?m = "thread_begins 1 (Launch ThreadManager_ctor)"
  have one: "tm_step ThreadManager_ctor (Launch ThreadManager_ctor)"
    by (rule tm_step.launch) (simp add: ThreadManager_ctor_def no_threads_def InitTLS_def)
  have two: "tm_step (Launch ThreadManager_ctor) ?m"
    by (rule tm_step.begins)
      (simp add: tm_op_defs ThreadManager_ctor_def no_threads_def)
  have reach: "tm_reachable ?m"
    using tm_start one two tm_next by blast
  moreover have "length (inited ?m) < 2 ^ 32"
    by (simp add: tm_op_defs ThreadManager_ctor_def no_threads_def)
  ultimately have "inj_on (LThreadId ?m) {k. has_id ?m k}"
    using thread_ids_unique by blast
  then show ?thesis
    using reach by (simp add: tm_op_defs ThreadManager_ctor_def no_threads_def)
qed


end
