(* ===== verification/Lock_Threads.thy ===== *)
theory Lock_Threads
  imports RW_Lock_Safety RW_Lock_Alone Thread_Manager
begin

text \<open>
  The lock used by the threads of the thread manager. The manager's ids satisfy the interface
  \<open>lock_clients\<close> as long as fewer than 65536 have been issued, which gives the lock's
  safety for the threads that run \<^verbatim>\<open>InitTLS\<close>; for the two kinds of thread outside that range,
  a thread that never ran it (id 0) and the 65536th, the flag cannot tell the owner from nobody,
  and exclusion fails.
\<close>

section \<open>The manager's ids and the lock's interface\<close>

lemma managed_id:
  assumes "tm_reachable m" "length (inited m) < 65536" "k \<in> set (inited m)"
  shows "0 < unat (LThreadId m k)" "unat (LThreadId m k) < 65536"
  using issued_id [of m k] tm_invariant [OF assms(1)] assms(2,3) by auto

lemma managed_clients:
  assumes "tm_reachable m" "length (inited m) * depth < 65536" "0 < depth"
  shows "lock_clients (set (inited m)) (LThreadId m) depth"
proof
  have ok: "ids_ok m" using tm_invariant assms(1) by blast
  have "length (inited m) \<le> length (inited m) * depth" using assms(3) by simp
  then have len: "length (inited m) < 65536" using assms(2) by linarith
  show "inj_on (LThreadId m) (set (inited m))"
    using thread_ids_injective [OF ok] len by simp
  have "card (set (inited m)) = length (inited m)"
    by (rule distinct_card) (use ok in \<open>simp add: ids_ok_def\<close>)
  then show "card (set (inited m)) * depth < 65536"
    using assms(2) by simp
  show "\<And>t. t \<in> set (inited m) \<Longrightarrow> 0 < unat (LThreadId m t)"
    "\<And>t. t \<in> set (inited m) \<Longrightarrow> unat (LThreadId m t) < 65536"
    using managed_id assms(1) len by blast+
qed simp

lemma managed_one_thread:
  assumes "tm_reachable m" "length (inited m) < 65536" "k \<in> set (inited m)"
  shows "one_thread (LThreadId m k)"
  using managed_id [OF assms] by unfold_locales

text \<open>
  The threads of \<^verbatim>\<open>GameServer.cpp\<close>: the main thread and the five workers it launches.
\<close>

definition game_server_threads :: thread_mgr where
  "game_server_threads =
     ((\<lambda>m. thread_begins (created m) (Launch m)) ^^ 5) ThreadManager_ctor"

lemma worker_reachable:
  assumes "tm_reachable m" "join_pc m = NotJoining"
  shows "tm_reachable (thread_begins (created m) (Launch m)) \<and>
    join_pc (thread_begins (created m) (Launch m)) = NotJoining"
proof -
  have "tm_step m (Launch m)" using assms(2) by (rule tm_step.launch)
  moreover have "tm_step (Launch m) (thread_begins (created m) (Launch m))"
    by (rule tm_step.begins) (simp add: tm_op_defs)
  ultimately show ?thesis using assms tm_next by (auto simp: tm_op_defs)
qed

lemma game_server_threads_reachable: "tm_reachable game_server_threads"
proof -
  have "tm_reachable (((\<lambda>m. thread_begins (created m) (Launch m)) ^^ n) ThreadManager_ctor) \<and>
      join_pc (((\<lambda>m. thread_begins (created m) (Launch m)) ^^ n) ThreadManager_ctor) = NotJoining"
    for n
  proof (induction n)
    case 0
    have "join_pc ThreadManager_ctor = NotJoining"
      by (simp add: ThreadManager_ctor_def no_threads_def InitTLS_def)
    then show ?case by (simp add: tm_start)
  next
    case (Suc n)
    then show ?case using worker_reachable by simp
  qed
  then show ?thesis by (simp add: game_server_threads_def)
qed

lemma game_server_inited: "inited game_server_threads = [0, 1, 2, 3, 4, 5]"
proof -
  have "inited (((\<lambda>m. thread_begins (created m) (Launch m)) ^^ n) ThreadManager_ctor) = [0..<n + 1] \<and>
      created (((\<lambda>m. thread_begins (created m) (Launch m)) ^^ n) ThreadManager_ctor) = n + 1" for n
    by (induction n) (simp_all add: tm_op_defs ThreadManager_ctor_def no_threads_def)
  then have "inited game_server_threads = [0..<5 + 1]" unfolding game_server_threads_def by blast
  then show ?thesis by (simp add: upt_rec)
qed

lemma game_server_ids: "k \<le> 5 \<Longrightarrow> LThreadId game_server_threads k = of_nat (k + 1)"
proof -
  assume k: "k \<le> 5"
  have ok: "ids_ok game_server_threads" using tm_invariant game_server_threads_reachable by blast
  have "inited game_server_threads ! k = k"
    using k by (auto simp: game_server_inited nth_Cons' numeral_eq_Suc)
  moreover have "k < length (inited game_server_threads)"
    using k by (simp add: game_server_inited)
  ultimately show ?thesis using ok unfolding ids_ok_def by metis
qed

interpretation game_server:
  lock_clients "set (inited game_server_threads)" "LThreadId game_server_threads" 10922
  by (rule managed_clients [OF game_server_threads_reachable]) (simp_all add: game_server_inited)

interpretation main_thread: one_thread "LThreadId game_server_threads 0"
  by (rule managed_one_thread [OF game_server_threads_reachable]) (simp_all add: game_server_inited)

section \<open>Safety of the lock\<close>

text \<open>
  C1. Mutual exclusion, for every interleaving of any number of managed threads: while one
  thread holds the lock for writing, no other thread holds it for writing or for reading.
\<close>

theorem lock_mutual_exclusion:
  assumes "tm_reachable m" and "length (inited m) * depth < 65536" and "0 < depth"
    and "lock_reachable (set (inited m)) (LThreadId m) depth s"
    and "t \<in> set (inited m)" and "u \<in> set (inited m)" and "t \<noteq> u" and "0 < wheld s t"
  shows "wheld s u = 0 \<and> rheld s u = 0"
  using lock_clients.mutual_exclusion [OF managed_clients [OF assms(1-3)] assms(4-8)] .

text \<open>
  At most one thread at a time is at a place that reads or writes the plain (not atomic)
  counter _writeCount, so its increments and decrements cannot race.
\<close>

theorem write_count_has_no_race:
  assumes "tm_reachable m" and "length (inited m) * depth < 65536" and "0 < depth"
    and "lock_reachable (set (inited m)) (LThreadId m) depth s"
    and "t \<in> set (inited m)" and "u \<in> set (inited m)"
    and "pcs s t \<in> {WL_rec, WL_won, WU_dec}" and "pcs s u \<in> {WL_rec, WL_won, WU_dec}"
  shows "t = u"
  using lock_clients.write_count_race_free [OF managed_clients [OF assms(1-3)] assms(4-6)]
    assms(7,8) by auto

text \<open>
  C8. Between calls the 32-bit flag says who holds the lock: its lower half is the number of
  read holds, its upper half the id of exactly the thread that holds it for writing, whose
  nesting depth is _writeCount.
\<close>

theorem lock_flag_encodes_holders:
  assumes "tm_reachable m" and "length (inited m) * depth < 65536" and "0 < depth"
    and "lock_reachable (set (inited m)) (LThreadId m) depth s"
    and "\<forall>t \<in> set (inited m). pcs s t = Idle" and "u \<in> set (inited m)"
  shows "unat (lockFlag (the_lock s) AND READ_COUNT_MASK) = (\<Sum>t \<in> set (inited m). rheld s t) \<and>
    (lock_thread_id (the_lock s) = LThreadId m u \<longleftrightarrow> 0 < wheld s u) \<and>
    (0 < wheld s u \<longrightarrow> unat (writeCount (the_lock s)) = wheld s u)"
proof -
  have idle: "\<And>t. t \<in> set (inited m) \<Longrightarrow> pcs s t = Idle" using assms(5) by blast
  note meaning = lock_clients.flag_meaning [OF managed_clients [OF assms(1-3)] assms(4) idle]
  show ?thesis
    using meaning(1) meaning(2,3) [OF _ assms(6)] by (auto simp: unat_read_count)
qed

text \<open>
  C19. No use of the lock that unlocks only what it holds can end in the crash MULTIPLE UNLOCK;
  a crash of the lock is a timeout, or INVALID_UNLOCK_ORDER in a thread that gives the write
  lock back while it still holds a read lock.
\<close>

theorem lock_crash_causes:
  assumes "tm_reachable m" and "length (inited m) * depth < 65536" and "0 < depth"
    and "lock_reachable (set (inited m)) (LThreadId m) depth s" and "crashed s = Some e"
  shows "e = CRASH ''Lock_Timeout'' \<or>
    e = CRASH ''INVALID_UNLOCK_ORDER'' \<and>
    (\<exists>t. t \<in> set (inited m) \<and> pcs s t = WU_check \<and> 0 < rheld s t)"
  using lock_clients.only_crashes [OF managed_clients [OF assms(1-3)] assms(4,5)] by blast

text \<open>
  In one thread, nested guards run through and leave the lock free exactly when no write
  guard stands inside a read guard: the policy stated in Lock.h (W to W, W to R, not R to W).
\<close>

theorem guard_nesting_policy:
  assumes "tm_reachable m" and "length (inited m) < 65536" and "k \<in> set (inited m)"
    and "height_blocks bs < 65536"
  shows "run_blocks (LThreadId m k) bs new_lock = Inr l \<longleftrightarrow> policy_blocks False bs \<and> l = new_lock"
  using one_thread.blocks_run_iff [OF managed_one_thread [OF assms(1-3)] assms(4)] .

section \<open>Runs of the six threads of the game server\<close>

text \<open>
  Concrete schedules, evaluated: the main thread takes the lock for writing; it then takes it
  for reading as well and gives the write lock back too early.
\<close>

definition gs_exec :: "nat event list \<Rightarrow> nat sys option" where
  "gs_exec es = lock_exec (set (inited game_server_threads)) (LThreadId game_server_threads) 10922
     es lock_init"

lemmas lock_eval =
  lock_exec_def lock_init_def new_lock_def lock_thread_id_def lock_const_defs desired_flag_def
  MAX_SPIN_COUNT_def compare_exchange_strong_def enter_def moved_def

lemma main_writes:
  "gs_exec [Call 0 WriteLock, Run 0, Run 0, Run 0, Run 0] =
     Some (lock_init\<lparr>the_lock := \<lparr>lockFlag = 0x10000, writeCount = 1\<rparr>, wheld := (\<lambda>_. 0)(0 := 1)\<rparr>)"
  by (simp add: gs_exec_def game_server_inited game_server_ids lock_eval fun_eq_iff)

lemma main_enters:
  "gs_exec [Call 0 WriteLock, Run 0, Run 0, Run 0] =
     Some (lock_init\<lparr>the_lock := \<lparr>lockFlag = 0x10000, writeCount = 0\<rparr>, pcs := (\<lambda>_. Idle)(0 := WL_won)\<rparr>)"
  by (simp add: gs_exec_def game_server_inited game_server_ids lock_eval fun_eq_iff)

lemma main_unlocks_too_early:
  "gs_exec [Call 0 WriteLock, Run 0, Run 0, Run 0, Run 0, Call 0 ReadLock, Run 0, Run 0,
       Call 0 WriteUnlock, Run 0] =
     Some (lock_init\<lparr>the_lock := \<lparr>lockFlag = 0x10001, writeCount = 1\<rparr>,
       pcs := (\<lambda>_. Idle)(0 := WU_check), rheld := (\<lambda>_. 0)(0 := 1),
       crashed := Some (CRASH ''INVALID_UNLOCK_ORDER'')\<rparr>)"
  by (simp add: gs_exec_def game_server_inited game_server_ids lock_eval fun_eq_iff)

lemma gs_reachable:
  "gs_exec es = Some s \<Longrightarrow>
     lock_reachable (set (inited game_server_threads)) (LThreadId game_server_threads) 10922 s"
  unfolding gs_exec_def by (rule lock_exec_reachable [OF _ lock_reachable.start])

lemma gs_size: "length (inited game_server_threads) * 10922 < 65536" "0 < (10922 :: nat)"
  by (simp_all add: game_server_inited)

lemmas gs_clients = game_server_threads_reachable gs_size

theorem lock_mutual_exclusion_witness:
  "\<exists>s. gs_exec [Call 0 WriteLock, Run 0, Run 0, Run 0, Run 0] = Some s \<and> wheld s 0 = 1 \<and>
     wheld s 5 = 0 \<and> rheld s 5 = 0"
  using lock_mutual_exclusion [OF gs_clients gs_reachable [OF main_writes], of 0 5]
  by (simp add: main_writes game_server_inited)

theorem write_count_has_no_race_witness:
  "\<exists>s. gs_exec [Call 0 WriteLock, Run 0, Run 0, Run 0] = Some s \<and> pcs s 0 = WL_won \<and>
     \<not> (\<exists>t \<in> {1, 2, 3, 4, 5}. pcs s t \<in> {WL_rec, WL_won, WU_dec})"
  using write_count_has_no_race [OF gs_clients gs_reachable [OF main_enters], of 0]
  by (simp add: main_enters game_server_inited)

theorem lock_flag_encodes_holders_witness:
  "\<exists>s. gs_exec [Call 0 WriteLock, Run 0, Run 0, Run 0, Run 0] = Some s \<and>
     lock_thread_id (the_lock s) = LThreadId game_server_threads 0 \<and>
     unat (writeCount (the_lock s)) = 1"
  using lock_flag_encodes_holders [OF gs_clients gs_reachable [OF main_writes], of 0]
  by (simp add: main_writes game_server_inited lock_init_def)

theorem lock_crash_causes_witness:
  "\<exists>s e. gs_exec [Call 0 WriteLock, Run 0, Run 0, Run 0, Run 0, Call 0 ReadLock, Run 0, Run 0,
       Call 0 WriteUnlock, Run 0] = Some s \<and> crashed s = Some e \<and>
     (e = CRASH ''Lock_Timeout'' \<or> e = CRASH ''INVALID_UNLOCK_ORDER'' \<and>
       (\<exists>t. t \<in> set (inited game_server_threads) \<and> pcs s t = WU_check \<and> 0 < rheld s t))"
  using lock_crash_causes [OF gs_clients gs_reachable [OF main_unlocks_too_early]]
  by (simp add: main_unlocks_too_early)

theorem guard_nesting_policy_witness:
  "run_blocks (LThreadId game_server_threads 0) [WriteGuard [WriteGuard [], ReadGuard [ReadGuard []]]]
     new_lock = Inr new_lock \<and>
   run_blocks (LThreadId game_server_threads 0) [WriteGuard [ReadGuard [WriteGuard []]]] new_lock
     \<noteq> Inr new_lock"
  using guard_nesting_policy [OF game_server_threads_reachable, of 0
      "[WriteGuard [WriteGuard [], ReadGuard [ReadGuard []]]]" new_lock]
    guard_nesting_policy [OF game_server_threads_reachable, of 0
      "[WriteGuard [ReadGuard [WriteGuard []]]]" new_lock]
  by (simp add: game_server_inited del: run_block.simps run_blocks.simps)

section \<open>Threads the flag cannot name\<close>

text \<open>
  The flag has 16 bits for the owner, and 0 there means nobody. A thread that never ran
  InitTLS has id 0, and the 65536th id issued has its lower half 0: each of them takes the write
  lock, and the next thread takes it as well while they hold it.
\<close>

theorem exclusion_fails_outside_id_range:
  "(\<exists>s. lock_reachable {0, 1} (\<lambda>k::nat. if k = 0 then 0 else 2) 1 s \<and>
      wheld s 0 = 1 \<and> wheld s 1 = 1) \<and>
   (\<exists>s. lock_reachable {0, 1} (\<lambda>k::nat. if k = 0 then 65536 else 2) 1 s \<and>
      wheld s 0 = 1 \<and> wheld s 1 = 1)"
proof -
  let ?T = "{0, 1 :: nat}"
  have "\<exists>s. lock_exec ?T (\<lambda>k::nat. if k = 0 then 0 else 2) 1
      [Call 0 WriteLock, Run 0, Run 0, Call 1 WriteLock, Run 1, Run 1, Run 1, Run 1] lock_init = Some s \<and>
      wheld s 0 = 1 \<and> wheld s 1 = 1"
    by (simp add: lock_eval)
  moreover have "\<exists>s. lock_exec ?T (\<lambda>k::nat. if k = 0 then 65536 else 2) 1
      [Call 0 WriteLock, Run 0, Run 0, Run 0, Run 0, Call 1 WriteLock, Run 1, Run 1, Run 1, Run 1]
      lock_init = Some s \<and> wheld s 0 = 1 \<and> wheld s 1 = 1"
    by (simp add: lock_eval)
  ultimately show ?thesis
    using lock_exec_reachable [OF _ lock_reachable.start] by blast
qed

end
