(* ===== verification/DeadLock_Profiler.thy ===== *)
theory DeadLock_Profiler
  imports Prelude
begin

text \<open>
  The lock-order profiler of \<^verbatim>\<open>ServerCore/DeadLockProfiler.h\<close> and
  \<^verbatim>\<open>ServerCore/DeadLockProfiler.cpp\<close>.

  Lock ids are natural numbers (the code's \<^verbatim>\<open>int32\<close>, far from its bound: one id per
  distinct lock name); a \<^verbatim>\<open>const char*\<close> key is the pointer, compared as a pointer.
  \<^verbatim>\<open>std::set<int32>\<close> is its elements in iteration order, an ascending list;
  \<^verbatim>\<open>unordered_map\<close> is the list of its entries, so that \<^verbatim>\<open>size()\<close> is its length. A vector
  index out of range is \<open>Undefined\<close>. The depth of the recursion of \<^verbatim>\<open>Dfs\<close> is
  bounded by a fuel argument; running out of it is \<open>Diverges\<close>, which
  \<open>Profiler_Dfs\<close> shows never happens with the fuel \<^verbatim>\<open>CheckCycle\<close> gives.
\<close>

section \<open>State\<close>

type_synonym cstr = nat \<comment> \<open>a \<open>const char*\<close>: the address\<close>

type_synonym history = "nat \<Rightarrow> nat list option"

record profiler =
  nameToId :: "(cstr \<times> nat) list"
  idToName :: "(nat \<times> cstr) list"
  lockStack :: "nat list"
  lockHistory :: history

definition new_profiler :: profiler where
  "new_profiler = \<lparr>nameToId = [], idToName = [], lockStack = [], lockHistory = (\<lambda>_. None)\<rparr>"

record dfs_state =
  discoveredOrder :: "int list"
  discoveredCount :: int
  finished :: "bool list"
  parent :: "int list"

text \<open>Why a check stops without returning; the lines printed on the way are the report.\<close>

datatype dfs_stop =
    Deadlock "(nat \<times> nat) list"  \<comment> \<open>CRASH DEADLOCK\_DETECTED, after printing these edges\<close>
  | Undefined string               \<comment> \<open>a vector index out of range\<close>
  | Diverges                       \<comment> \<open>the fuel is used up\<close>

section \<open>Cycle check\<close>

text \<open>
  The printing loop: from \<open>now\<close> along \<^verbatim>\<open>_parent\<close> until \<open>there\<close>.
\<close>

fun print_parents :: "nat \<Rightarrow> int list \<Rightarrow> nat \<Rightarrow> nat \<Rightarrow> dfs_stop + (nat \<times> nat) list" where
  "print_parents 0 par there now = Inl Diverges"
| "print_parents (Suc fuel) par there now =
     (if length par \<le> now \<or> par ! now < 0 then Inl (Undefined ''_parent'')
      else let up = nat (par ! now) in
        if up = there then Inr [(up, now)]
        else (case print_parents fuel par there up of
                Inl e \<Rightarrow> Inl e | Inr ls \<Rightarrow> Inr ((up, now) # ls)))"

definition report_deadlock :: "dfs_state \<Rightarrow> nat \<Rightarrow> nat \<Rightarrow> dfs_stop" where
  "report_deadlock st here there =
     (case print_parents (length (parent st)) (parent st) there here of
        Inl e \<Rightarrow> e | Inr ls \<Rightarrow> Deadlock ((here, there) # ls))"

definition finish :: "nat \<Rightarrow> dfs_state \<Rightarrow> dfs_state" where
  "finish here st = st\<lparr>finished := (finished st)[here := True]\<rparr>"

definition discover :: "nat \<Rightarrow> dfs_state \<Rightarrow> dfs_state" where
  "discover here st = st\<lparr>discoveredOrder := (discoveredOrder st)[here := discoveredCount st],
     discoveredCount := discoveredCount st + 1\<rparr>"

definition set_parent :: "nat \<Rightarrow> nat \<Rightarrow> dfs_state \<Rightarrow> dfs_state" where
  "set_parent there here st = st\<lparr>parent := (parent st)[there := int here]\<rparr>"

fun Dfs :: "nat \<Rightarrow> history \<Rightarrow> nat \<Rightarrow> dfs_state \<Rightarrow> dfs_stop + dfs_state"
  and Dfs_loop :: "nat \<Rightarrow> history \<Rightarrow> nat \<Rightarrow> nat list \<Rightarrow> dfs_state \<Rightarrow> dfs_stop + dfs_state" where
  "Dfs 0 h here st = Inl Diverges"
| "Dfs (Suc fuel) h here st =
     (if length (discoveredOrder st) \<le> here then Inl (Undefined ''_discoveredOrder'')
      else if discoveredOrder st ! here \<noteq> -1 then Inr st
      else case h here of
        None \<Rightarrow> Inr (finish here (discover here st))
      | Some nextSet \<Rightarrow>
          (case Dfs_loop fuel h here nextSet (discover here st) of
             Inl e \<Rightarrow> Inl e | Inr st' \<Rightarrow> Inr (finish here st')))"
| "Dfs_loop fuel h here [] st = Inr st"
| "Dfs_loop fuel h here (there # nextSet) st =
     (if length (discoveredOrder st) \<le> there then Inl (Undefined ''_discoveredOrder'')
      else if discoveredOrder st ! there = -1 then
        (case Dfs fuel h there (set_parent there here st) of
           Inl e \<Rightarrow> Inl e | Inr st' \<Rightarrow> Dfs_loop fuel h here nextSet st')
      else if discoveredOrder st ! here < discoveredOrder st ! there then
        Dfs_loop fuel h here nextSet st
      else if \<not> finished st ! there then Inl (report_deadlock st here there)
      else Dfs_loop fuel h here nextSet st)"

definition dfs_init :: "nat \<Rightarrow> dfs_state" where
  "dfs_init lockCount = \<lparr>discoveredOrder = replicate lockCount (-1), discoveredCount = 0,
     finished = replicate lockCount False, parent = replicate lockCount (-1)\<rparr>"

fun check_from :: "nat \<Rightarrow> history \<Rightarrow> nat list \<Rightarrow> dfs_state \<Rightarrow> dfs_stop + dfs_state" where
  "check_from fuel h [] st = Inr st"
| "check_from fuel h (lockId # ids) st =
     (case Dfs fuel h lockId st of Inl e \<Rightarrow> Inl e | Inr st' \<Rightarrow> check_from fuel h ids st')"

definition CheckCycle :: "nat \<Rightarrow> history \<Rightarrow> dfs_stop + unit" where
  "CheckCycle lockCount h =
     map_sum id (\<lambda>_. ()) (check_from (lockCount + 1) h [0..<lockCount] (dfs_init lockCount))"

section \<open>Taking and releasing a lock\<close>

datatype prof_stop =
    Prof_CRASH string
  | Prof_Deadlock "(cstr option \<times> cstr option) list"  \<comment> \<open>the printed lines\<close>
  | Prof_Bad dfs_stop

definition report_names :: "(nat \<times> cstr) list \<Rightarrow> dfs_stop \<Rightarrow> prof_stop" where
  "report_names names e = (case e of
     Deadlock ls \<Rightarrow> Prof_Deadlock (map (\<lambda>(a, b). (map_of names a, map_of names b)) ls)
   | _ \<Rightarrow> Prof_Bad e)"

definition lock_id_of :: "profiler \<Rightarrow> cstr \<Rightarrow> profiler \<times> nat" where
  "lock_id_of p name = (case map_of (nameToId p) name of
     None \<Rightarrow> let lockId = length (nameToId p) in
       (p\<lparr>nameToId := nameToId p @ [(name, lockId)], idToName := (lockId, name) # idToName p\<rparr>, lockId)
   | Some lockId \<Rightarrow> (p, lockId))"

definition history_of :: "history \<Rightarrow> nat \<Rightarrow> nat list" where
  "history_of h i = (case h i of None \<Rightarrow> [] | Some s \<Rightarrow> s)"

definition PushLock_with ::
  "(nat \<Rightarrow> history \<Rightarrow> dfs_stop + unit) \<Rightarrow> profiler \<Rightarrow> cstr \<Rightarrow> prof_stop + profiler" where
  "PushLock_with check p0 name = (case lock_id_of p0 name of (p, lockId) \<Rightarrow>
     (case lockStack p of
        [] \<Rightarrow> Inr (p\<lparr>lockStack := [lockId]\<rparr>)
      | prevId # rest \<Rightarrow>
          if lockId = prevId then Inr (p\<lparr>lockStack := lockId # lockStack p\<rparr>)
          else let hist = history_of (lockHistory p) prevId in
            if lockId \<in> set hist
            then Inr (p\<lparr>lockHistory := (lockHistory p)(prevId \<mapsto> hist),
                        lockStack := lockId # lockStack p\<rparr>)
            else let h' = (lockHistory p)(prevId \<mapsto> insort lockId hist) in
              (case check (length (nameToId p)) h' of
                 Inl e \<Rightarrow> Inl (report_names (idToName p) e)
               | Inr _ \<Rightarrow> Inr (p\<lparr>lockHistory := h', lockStack := lockId # lockStack p\<rparr>))))"

definition PushLock :: "profiler \<Rightarrow> cstr \<Rightarrow> prof_stop + profiler" where
  "PushLock = PushLock_with CheckCycle"

text \<open>
  \<^verbatim>\<open>_nameToId[name]\<close> in \<^verbatim>\<open>PopLock\<close> inserts the value 0 for a name it does not hold.
\<close>

definition PopLock :: "profiler \<Rightarrow> cstr \<Rightarrow> prof_stop + profiler" where
  "PopLock p name = (case lockStack p of
     [] \<Rightarrow> Inl (Prof_CRASH ''MULTIPLE UNLOCK'')
   | topId # rest \<Rightarrow>
       (let (p', lockId) = (case map_of (nameToId p) name of
              None \<Rightarrow> (p\<lparr>nameToId := nameToId p @ [(name, 0)]\<rparr>, 0)
            | Some i \<Rightarrow> (p, i))
        in if lockId \<noteq> topId then Inl (Prof_CRASH ''INVALID_UNLOCK'')
           else Inr (p'\<lparr>lockStack := rest\<rparr>)))"

datatype prof_op = Push cstr | Pop cstr

fun prof_do :: "prof_op \<Rightarrow> profiler \<Rightarrow> prof_stop + profiler" where
  "prof_do (Push n) p = PushLock p n"
| "prof_do (Pop n) p = PopLock p n"

text \<open>
  Calls of any threads, in the order in which they get the profiler's mutex. The class keeps
  one stack for all of them: the thread's number plays no part.
\<close>

fun prof_run :: "(nat \<times> prof_op) list \<Rightarrow> profiler \<Rightarrow> prof_stop + profiler" where
  "prof_run [] p = Inr p"
| "prof_run ((thread, opn) # ops) p =
     (case prof_do opn p of Inl e \<Rightarrow> Inl e | Inr p' \<Rightarrow> prof_run ops p')"

end
