(* ===== verification/Profiler_Dfs.thy ===== *)
theory Profiler_Dfs
  imports DeadLock_Profiler
begin

text \<open>
  The depth-first search of \<^verbatim>\<open>DeadLockProfiler::Dfs\<close> decides whether the graph of lock
  orders has a cycle. A lock is unseen, on the current path (seen, not finished) or finished;
  the invariant \<open>dfs_inv\<close> says that the path is a path of the graph along
  \<^verbatim>\<open>_parent\<close>, in descending order of discovery, and that the finished locks are closed under
  successors and lie on no cycle. A back edge then closes a cycle, and without one the whole
  graph ends up finished.
\<close>

section \<open>The graph\<close>

definition edges :: "history \<Rightarrow> (nat \<times> nat) set" where
  "edges h = {(a, b). \<exists>s. h a = Some s \<and> b \<in> set s}"

definition wf_history :: "nat \<Rightarrow> history \<Rightarrow> bool" where
  "wf_history n h \<longleftrightarrow> (\<forall>a b. (a, b) \<in> edges h \<longrightarrow> a < n \<and> b < n \<and> a \<noteq> b)"

text \<open>The printed lines are a cycle of the graph, read backwards.\<close>

definition cycle_report :: "(nat \<times> nat) set \<Rightarrow> (nat \<times> nat) list \<Rightarrow> bool" where
  "cycle_report E ls \<longleftrightarrow> ls \<noteq> [] \<and> set ls \<subseteq> E \<and> successively (\<lambda>l l'. snd l' = fst l) ls \<and>
     snd (hd ls) = fst (last ls)"

lemma report_path:
  "ls \<noteq> [] \<Longrightarrow> set ls \<subseteq> E \<Longrightarrow> successively (\<lambda>l l'. snd l' = fst l) ls \<Longrightarrow>
     (fst (last ls), snd (hd ls)) \<in> E\<^sup>+"
proof (induction ls)
  case (Cons l ls)
  show ?case
  proof (cases ls)
    case Nil
    then show ?thesis using Cons.prems by (cases l) auto
  next
    case (Cons l' ls')
    then have step: "(fst (last ls), fst l) \<in> E\<^sup>+"
      using Cons.IH \<open>set (l # ls) \<subseteq> E\<close> \<open>successively (\<lambda>l l'. snd l' = fst l) (l # ls)\<close> by simp
    have "(fst l, snd l) \<in> E" using \<open>set (l # ls) \<subseteq> E\<close> by (cases l) auto
    with step have "(fst (last ls), snd l) \<in> E\<^sup>+" by (rule trancl_into_trancl)
    then show ?thesis using Cons by simp
  qed
qed simp

lemma cycle_report_cyclic: "cycle_report E ls \<Longrightarrow> \<not> acyclic E"
  using report_path [of ls E] by (auto simp: cycle_report_def acyclic_def)

section \<open>The invariant\<close>

definition unseen :: "dfs_state \<Rightarrow> nat set" where
  "unseen st = {i. i < length (discoveredOrder st) \<and> discoveredOrder st ! i = -1}"

definition all_done :: "dfs_state \<Rightarrow> nat set" where
  "all_done st = {i. i < length (discoveredOrder st) \<and> finished st ! i}"

definition sizes_ok :: "nat \<Rightarrow> dfs_state \<Rightarrow> bool" where
  "sizes_ok n st \<longleftrightarrow> length (discoveredOrder st) = n \<and> length (finished st) = n \<and>
     length (parent st) = n \<and> 0 \<le> discoveredCount st \<and>
     (\<forall>i < n. -1 \<le> discoveredOrder st ! i \<and> discoveredOrder st ! i < discoveredCount st) \<and>
     (\<forall>i < n. discoveredOrder st ! i = -1 \<longrightarrow> \<not> finished st ! i)"

definition path_ok :: "nat \<Rightarrow> history \<Rightarrow> nat list \<Rightarrow> dfs_state \<Rightarrow> bool" where
  "path_ok n h path st \<longleftrightarrow> distinct path \<and> set path = {..<n} - unseen st - all_done st \<and>
     sorted_wrt (\<lambda>a b. discoveredOrder st ! b < discoveredOrder st ! a) path \<and>
     successively (\<lambda>a b. parent st ! a = int b \<and> (b, a) \<in> edges h) path"

definition closed_ok :: "history \<Rightarrow> nat set \<Rightarrow> bool" where
  "closed_ok h D \<longleftrightarrow> (\<forall>x y. x \<in> D \<longrightarrow> (x, y) \<in> edges h \<longrightarrow> y \<in> D) \<and>
     (\<forall>x \<in> D. (x, x) \<notin> (edges h)\<^sup>+)"

definition dfs_inv :: "nat \<Rightarrow> history \<Rightarrow> nat list \<Rightarrow> dfs_state \<Rightarrow> bool" where
  "dfs_inv n h path st \<longleftrightarrow> sizes_ok n st \<and> path_ok n h path st \<and> closed_ok h (all_done st)"

definition grows :: "dfs_state \<Rightarrow> dfs_state \<Rightarrow> bool" where
  "grows st st' \<longleftrightarrow> all_done st \<subseteq> all_done st' \<and> unseen st' \<subseteq> unseen st"

lemma grows_refl [simp]: "grows st st"
  by (simp add: grows_def)

lemma grows_trans: "grows a b \<Longrightarrow> grows b c \<Longrightarrow> grows a c"
  by (auto simp: grows_def)

lemma finite_unseen [simp]: "finite (unseen st)"
  by (simp add: unseen_def)

lemma unseen_less: "sizes_ok n st \<Longrightarrow> i \<in> unseen st \<Longrightarrow> i < n"
  by (simp add: unseen_def sizes_ok_def)

lemma done_less: "sizes_ok n st \<Longrightarrow> i \<in> all_done st \<Longrightarrow> i < n"
  by (simp add: all_done_def sizes_ok_def)

lemma unseen_not_done: "sizes_ok n st \<Longrightarrow> i \<in> unseen st \<Longrightarrow> i \<notin> all_done st"
  by (auto simp: unseen_def all_done_def sizes_ok_def)

lemma done_closed_path:
  "(x, y) \<in> (edges h)\<^sup>+ \<Longrightarrow> closed_ok h D \<Longrightarrow> x \<in> D \<Longrightarrow> y \<in> D"
  by (induction rule: trancl_induct) (auto simp: closed_ok_def)

section \<open>Elementary changes\<close>

lemma discover_sets:
  assumes "sizes_ok n st" "here \<in> unseen st"
  shows "unseen (discover here st) = unseen st - {here}" "all_done (discover here st) = all_done st"
    "sizes_ok n (discover here st)"
  using assms by (auto simp: unseen_def all_done_def sizes_ok_def discover_def nth_list_update)

lemma finish_sets:
  assumes "sizes_ok n st" "here < n" "here \<notin> unseen st"
  shows "unseen (finish here st) = unseen st" "all_done (finish here st) = insert here (all_done st)"
    "sizes_ok n (finish here st)"
  using assms by (auto simp: unseen_def all_done_def sizes_ok_def finish_def nth_list_update)

lemma set_parent_sets [simp]:
  "unseen (set_parent there here st) = unseen st" "all_done (set_parent there here st) = all_done st"
  "discoveredOrder (set_parent there here st) = discoveredOrder st"
  "sizes_ok n (set_parent there here st) = sizes_ok n st"
  by (auto simp: unseen_def all_done_def sizes_ok_def set_parent_def)

lemma set_parent_at: "a \<noteq> there \<Longrightarrow> parent (set_parent there here st) ! a = parent st ! a"
  by (simp add: set_parent_def)

lemma discover_at: "a \<noteq> here \<Longrightarrow> discoveredOrder (discover here st) ! a = discoveredOrder st ! a"
  by (simp add: discover_def)

lemma inv_path_set: "dfs_inv n h path st \<Longrightarrow> set path = {..<n} - unseen st - all_done st"
  by (simp add: dfs_inv_def path_ok_def)

lemma inv_set_parent:
  assumes inv: "dfs_inv n h path st" and there: "there \<in> unseen st"
  shows "dfs_inv n h path (set_parent there here st)"
proof -
  have "there \<notin> set path" using inv_path_set [OF inv] there by simp
  then have "parent (set_parent there here st) ! a = parent st ! a" if "a \<in> set path" for a
    using that by (intro set_parent_at) auto
  then have "successively (\<lambda>a b. parent (set_parent there here st) ! a = int b \<and> (b, a) \<in> edges h) path
      \<longleftrightarrow> successively (\<lambda>a b. parent st ! a = int b \<and> (b, a) \<in> edges h) path"
    by (intro successively_cong) simp_all
  then show ?thesis
    using inv by (simp add: dfs_inv_def path_ok_def)
qed

lemma inv_discover:
  assumes inv: "dfs_inv n h path st" and here: "here \<in> unseen st"
    and link: "path \<noteq> [] \<Longrightarrow> parent st ! here = int (hd path) \<and> (hd path, here) \<in> edges h"
  shows "dfs_inv n h (here # path) (discover here st)"
proof -
  have sz: "sizes_ok n st" and p: "path_ok n h path st" and cl: "closed_ok h (all_done st)"
    using inv by (auto simp: dfs_inv_def)
  have n: "here < n" by (rule unseen_less [OF sz here])
  have notin: "here \<notin> set path" using inv_path_set [OF inv] here by simp
  have len: "here < length (discoveredOrder st)" using sz n by (simp add: sizes_ok_def)
  have old: "discoveredOrder (discover here st) ! a = discoveredOrder st ! a"
    if "a \<in> set path" for a
    by (rule discover_at) (use that notin in auto)
  have new: "discoveredOrder (discover here st) ! here = discoveredCount st"
    using len by (simp add: discover_def)
  have below: "discoveredOrder st ! a < discoveredCount st" if "a \<in> set path" for a
    using that p sz by (auto simp: path_ok_def sizes_ok_def)
  have sorted: "sorted_wrt (\<lambda>a b. discoveredOrder (discover here st) ! b <
      discoveredOrder (discover here st) ! a) (here # path)"
  proof -
    have "sorted_wrt (\<lambda>a b. discoveredOrder st ! b < discoveredOrder st ! a) path"
      using p by (simp add: path_ok_def)
    then have "sorted_wrt (\<lambda>a b. discoveredOrder (discover here st) ! b <
        discoveredOrder (discover here st) ! a) path"
      by (rule sorted_wrt_mono_rel [rotated]) (simp add: old)
    then show ?thesis using old new below by simp
  qed
  have "successively (\<lambda>a b. parent st ! a = int b \<and> (b, a) \<in> edges h) (here # path)"
    using p link by (cases path) (auto simp: path_ok_def)
  then have chain: "successively (\<lambda>a b. parent (discover here st) ! a = int b \<and> (b, a) \<in> edges h)
      (here # path)"
    by (simp add: discover_def)
  have set: "set (here # path) = {..<n} - unseen (discover here st) - all_done (discover here st)"
    using p n here unseen_not_done [OF sz here] discover_sets [OF sz here]
    by (auto simp: path_ok_def)
  show ?thesis
    unfolding dfs_inv_def path_ok_def
    using sorted chain set notin p cl discover_sets [OF sz here]
    by (simp add: path_ok_def)
qed

lemma inv_finish:
  assumes inv: "dfs_inv n h (here # path) st"
    and succs: "\<And>y. (here, y) \<in> edges h \<Longrightarrow> y \<in> all_done st"
  shows "dfs_inv n h path (finish here st)" "here \<in> all_done (finish here st)"
proof -
  have sz: "sizes_ok n st" and p: "path_ok n h (here # path) st" and cl: "closed_ok h (all_done st)"
    using inv by (auto simp: dfs_inv_def)
  have "here \<in> {..<n} - unseen st - all_done st" using p by (auto simp: path_ok_def)
  then have here: "here < n" "here \<notin> unseen st" "here \<notin> all_done st" by auto
  note fin = finish_sets [OF sz here(1,2)]
  show "here \<in> all_done (finish here st)" using fin by simp
  have acyc: "(x, x) \<notin> (edges h)\<^sup>+" if x: "x \<in> all_done (finish here st)" for x
  proof (cases "x = here")
    case True
    show ?thesis
    proof
      assume "(x, x) \<in> (edges h)\<^sup>+"
      then obtain y where "(here, y) \<in> edges h" "(y, here) \<in> (edges h)\<^sup>*"
        using True by (meson tranclD)
      then have "here \<in> all_done st"
        using succs done_closed_path [OF _ cl] by (metis rtrancl_eq_or_trancl)
      then show False using here by simp
    qed
  next
    case False
    then show ?thesis using x fin cl by (auto simp: closed_ok_def)
  qed
  have "closed_ok h (all_done (finish here st))"
    using acyc fin succs cl by (auto simp: closed_ok_def)
  moreover have "path_ok n h path (finish here st)"
  proof -
    have "set path = {..<n} - unseen st - insert here (all_done st)"
      using p by (auto simp: path_ok_def)
    moreover have "successively (\<lambda>a b. parent st ! a = int b \<and> (b, a) \<in> edges h) path"
      using p by (cases path) (auto simp: path_ok_def)
    ultimately show ?thesis
      using p fin by (simp add: path_ok_def finish_def)
  qed
  ultimately show "dfs_inv n h path (finish here st)"
    using fin by (simp add: dfs_inv_def)
qed

section \<open>The report\<close>

lemma print_parents_path:
  assumes "successively (\<lambda>a b. par ! a = int b \<and> (b, a) \<in> E) (now # mid @ [there])"
    and "\<forall>a \<in> set (now # mid). a < length par" and "there \<notin> set mid" and "length mid < fuel"
  shows "\<exists>ls. print_parents fuel par there now = Inr ls \<and> ls \<noteq> [] \<and> set ls \<subseteq> E \<and>
    successively (\<lambda>l l'. snd l' = fst l) ls \<and> snd (hd ls) = now \<and> fst (last ls) = there"
  using assms
proof (induction mid arbitrary: now fuel)
  case Nil
  then obtain f where "fuel = Suc f" by (cases fuel) auto
  then show ?case using Nil.prems by simp
next
  case (Cons m mid)
  then obtain f where f: "fuel = Suc f" by (cases fuel) auto
  obtain ls where ls: "print_parents f par there m = Inr ls" "ls \<noteq> []" "set ls \<subseteq> E"
      "successively (\<lambda>l l'. snd l' = fst l) ls" "snd (hd ls) = m" "fst (last ls) = there"
    using Cons.IH [of m f] Cons.prems f by auto
  have up: "par ! now = int m" "(m, now) \<in> E" "m \<noteq> there" "now < length par"
    using Cons.prems by auto
  then have "print_parents fuel par there now = Inr ((m, now) # ls)"
    using f ls(1) by simp
  moreover have "successively (\<lambda>l l'. snd l' = fst l) ((m, now) # ls)"
    using ls(2,4,5) by (cases ls) auto
  ultimately show ?case using ls up by auto
qed

lemma report_is_cycle:
  assumes inv: "dfs_inv n h (here # path) st" and wf: "wf_history n h"
    and edge: "(here, there) \<in> edges h" and grey: "there \<notin> unseen st" "there \<notin> all_done st"
  shows "\<exists>ls. report_deadlock st here there = Deadlock ls \<and> cycle_report (edges h) ls"
proof -
  have p: "path_ok n h (here # path) st" and sz: "sizes_ok n st"
    using inv by (auto simp: dfs_inv_def)
  have "there < n" "there \<noteq> here" using wf edge by (auto simp: wf_history_def)
  then have "there \<in> set path" using inv_path_set [OF inv] grey by auto
  then obtain mid rest where path: "path = mid @ there # rest" "there \<notin> set mid"
    using split_list_first [of there path] by blast
  have below: "set (here # path) \<subseteq> {..<n}" using inv_path_set [OF inv] by blast
  have "length (here # path) = card (set (here # path))"
    by (rule distinct_card [symmetric]) (use p in \<open>simp add: path_ok_def\<close>)
  also have "\<dots> \<le> n" using card_mono [OF _ below] by simp
  finally have fuel: "length mid < length (parent st)"
    using path sz by (simp add: sizes_ok_def)
  have "successively (\<lambda>a b. parent st ! a = int b \<and> (b, a) \<in> edges h)
      ((here # mid @ [there]) @ rest)"
    using p path by (simp add: path_ok_def)
  then have "successively (\<lambda>a b. parent st ! a = int b \<and> (b, a) \<in> edges h) (here # mid @ [there])"
    unfolding successively_append_iff by blast
  moreover have "\<forall>a \<in> set (here # mid). a < length (parent st)"
    using below path sz by (auto simp: sizes_ok_def)
  ultimately obtain ls where ls: "print_parents (length (parent st)) (parent st) there here = Inr ls"
      "ls \<noteq> []" "set ls \<subseteq> edges h" "successively (\<lambda>l l'. snd l' = fst l) ls"
      "snd (hd ls) = here" "fst (last ls) = there"
    using print_parents_path path(2) fuel by blast
  have "cycle_report (edges h) ((here, there) # ls)"
    using ls edge by (cases ls) (auto simp: cycle_report_def)
  then show ?thesis using ls(1) by (simp add: report_deadlock_def)
qed

section \<open>The search\<close>

definition dfs_post :: "nat \<Rightarrow> history \<Rightarrow> nat list \<Rightarrow> nat set \<Rightarrow> dfs_state \<Rightarrow> dfs_stop + dfs_state \<Rightarrow> bool"
  where
  "dfs_post n h path D st r = (case r of
     Inl e \<Rightarrow> \<exists>ls. e = Deadlock ls \<and> cycle_report (edges h) ls
   | Inr st' \<Rightarrow> dfs_inv n h path st' \<and> grows st st' \<and> D \<subseteq> all_done st')"

lemma dfs_post_simps [simp]:
  "dfs_post n h path D st (Inl e) \<longleftrightarrow> (\<exists>ls. e = Deadlock ls \<and> cycle_report (edges h) ls)"
  "dfs_post n h path D st (Inr st') \<longleftrightarrow> dfs_inv n h path st' \<and> grows st st' \<and> D \<subseteq> all_done st'"
  by (simp_all add: dfs_post_def)

lemma later_is_done:
  assumes inv: "dfs_inv n h (here # path) st" and "there < n" "there \<notin> unseen st"
    and "discoveredOrder st ! here < discoveredOrder st ! there"
  shows "there \<in> all_done st"
proof (rule ccontr)
  assume "there \<notin> all_done st"
  then have "there \<in> set (here # path)" using inv_path_set [OF inv] assms(2,3) by blast
  then show False using inv assms(4) by (auto simp: dfs_inv_def path_ok_def)
qed

lemma dfs_enter:
  assumes inv: "dfs_inv n h path st" and here: "here \<in> unseen st"
    and link: "path \<noteq> [] \<Longrightarrow> parent st ! here = int (hd path) \<and> (hd path, here) \<in> edges h"
    and fuel: "card (unseen st) < Suc fuel"
  shows "dfs_inv n h (here # path) (discover here st)" "card (unseen (discover here st)) < fuel"
    "grows st (discover here st)"
proof -
  have sz: "sizes_ok n st" using inv by (simp add: dfs_inv_def)
  show "dfs_inv n h (here # path) (discover here st)" by (rule inv_discover [OF inv here link])
  show "card (unseen (discover here st)) < fuel"
  proof -
    have "0 < card (unseen st)" using here by (auto simp: card_gt_0_iff)
    then show ?thesis
      using fuel here unfolding discover_sets(1) [OF sz here] by simp
  qed
  show "grows st (discover here st)"
    using discover_sets [OF sz here] by (auto simp: grows_def)
qed

lemma dfs_leave:
  assumes inv: "dfs_inv n h (here # path) st'" and g: "grows st st'"
    and succs: "edges h `` {here} \<subseteq> all_done st'"
  shows "dfs_inv n h path (finish here st') \<and> grows st (finish here st') \<and>
    here \<in> all_done (finish here st')"
proof -
  have sz: "sizes_ok n st'" using inv by (simp add: dfs_inv_def)
  have here: "here < n" "here \<notin> unseen st'" using inv_path_set [OF inv] by auto
  have "grows st' (finish here st')"
    using finish_sets [OF sz here] by (auto simp: grows_def)
  then show ?thesis
    using inv_finish [OF inv] succs g grows_trans by blast
qed

lemma unseen_iff:
  "dfs_inv n h path st \<Longrightarrow> i < n \<Longrightarrow> i \<in> unseen st \<longleftrightarrow> discoveredOrder st ! i = -1"
  by (simp add: unseen_def dfs_inv_def sizes_ok_def)

lemma done_iff: "dfs_inv n h path st \<Longrightarrow> i < n \<Longrightarrow> i \<in> all_done st \<longleftrightarrow> finished st ! i"
  by (simp add: all_done_def dfs_inv_def sizes_ok_def)

lemma order_length: "dfs_inv n h path st \<Longrightarrow> length (discoveredOrder st) = n"
  by (simp add: dfs_inv_def sizes_ok_def)

text \<open>The call, from what its loop does.\<close>

lemma dfs_call:
  assumes inv: "dfs_inv n h path st" and n: "here < n" and start: "here \<in> unseen st \<or> path = []"
    and link: "path \<noteq> [] \<Longrightarrow> parent st ! here = int (hd path) \<and> (hd path, here) \<in> edges h"
    and fuel: "card (unseen st) < Suc fuel"
    and loop: "\<And>nexts. here \<in> unseen st \<Longrightarrow> h here = Some nexts \<Longrightarrow>
      dfs_post n h (here # path) (set nexts) (discover here st) (Dfs_loop fuel h here nexts (discover here st))"
  shows "dfs_post n h path {here} st (Dfs (Suc fuel) h here st)"
proof (cases "here \<in> unseen st")
  case False
  then have "path = []" "discoveredOrder st ! here \<noteq> -1"
    using start unseen_iff [OF inv n] by auto
  then have "here \<in> all_done st" using inv_path_set [OF inv] n False by auto
  then show ?thesis
    using inv n order_length [OF inv] \<open>discoveredOrder st ! here \<noteq> -1\<close> by simp
next
  case True
  then have new: "discoveredOrder st ! here = -1" using unseen_iff [OF inv n] by simp
  note entered = dfs_enter [OF inv True link fuel]
  show ?thesis
  proof (cases "h here")
    case None
    then have "edges h `` {here} = {}" by (auto simp: edges_def)
    then show ?thesis
      using dfs_leave [OF entered(1,3)] None new n order_length [OF inv] by simp
  next
    case (Some nexts)
    then have nexts: "set nexts = edges h `` {here}" by (auto simp: edges_def)
    then show ?thesis
      using loop [OF True Some] dfs_leave [of n h here path _ st] entered(3) grows_trans new n Some
        order_length [OF inv]
      by (cases "Dfs_loop fuel h here nexts (discover here st)") auto
  qed
qed

text \<open>A tree edge, from what the call and the rest of the loop do.\<close>

lemma loop_tree_edge:
  assumes inv: "dfs_inv n h (here # path) st" and n: "there < n" and new: "there \<in> unseen st"
    and sub: "dfs_post n h (here # path) {there} (set_parent there here st) (Dfs fuel h there (set_parent there here st))"
    and rest: "\<And>st'. Dfs fuel h there (set_parent there here st) = Inr st' \<Longrightarrow> dfs_inv n h (here # path) st' \<Longrightarrow>
      card (unseen st') \<le> card (unseen st) \<Longrightarrow>
      dfs_post n h (here # path) (set nexts) st' (Dfs_loop fuel h here nexts st')"
  shows "dfs_post n h (here # path) (set (there # nexts)) st (Dfs_loop fuel h here (there # nexts) st)"
proof -
  have order: "discoveredOrder st ! there = -1" "length (discoveredOrder st) = n"
    using new unseen_iff [OF inv n] order_length [OF inv] by simp_all
  show ?thesis
  proof (cases "Dfs fuel h there (set_parent there here st)")
    case (Inl e)
    then show ?thesis using sub order n by simp
  next
    case (Inr st')
    then have st': "dfs_inv n h (here # path) st'" "grows st st'" "there \<in> all_done st'"
      using sub by (auto simp: grows_def)
    have "card (unseen st') \<le> card (unseen st)"
      using st'(2) by (auto simp: grows_def intro: card_mono)
    note rest [OF Inr st'(1) this]
    then show ?thesis
      using Inr order n st' by (cases "Dfs_loop fuel h here nexts st'") (auto simp: grows_def)
  qed
qed

text \<open>An edge to a lock that is finished, and one to a lock on the path, which closes a cycle.\<close>

lemma loop_done_edge:
  assumes inv: "dfs_inv n h (here # path) st" and n: "there < n" and there: "there \<in> all_done st" "there \<notin> unseen st"
    and rest: "dfs_post n h (here # path) (set nexts) st (Dfs_loop fuel h here nexts st)"
  shows "dfs_post n h (here # path) (set (there # nexts)) st (Dfs_loop fuel h here (there # nexts) st)"
  using rest there n done_iff [OF inv n] unseen_iff [OF inv n] order_length [OF inv]
  by (cases "Dfs_loop fuel h here nexts st") (auto simp: grows_def)

lemma loop_back_edge:
  assumes inv: "dfs_inv n h (here # path) st" and wf: "wf_history n h" and edge: "(here, there) \<in> edges h"
    and there: "there \<notin> all_done st" "there \<notin> unseen st"
  shows "dfs_post n h (here # path) D st (Dfs_loop fuel h here (there # nexts) st)"
proof -
  have n: "there < n" using wf edge by (auto simp: wf_history_def)
  have "\<not> discoveredOrder st ! here < discoveredOrder st ! there"
    using later_is_done [OF inv n there(2)] there(1) by blast
  then show ?thesis
    using report_is_cycle [OF inv wf edge there(2,1)] there n done_iff [OF inv n] unseen_iff [OF inv n]
      order_length [OF inv] by auto
qed

lemma Dfs_correct:
  "wf_history n h \<Longrightarrow> dfs_inv n h path st \<Longrightarrow> here < n \<Longrightarrow> here \<in> unseen st \<or> path = [] \<Longrightarrow>
      (path \<noteq> [] \<Longrightarrow> parent st ! here = int (hd path) \<and> (hd path, here) \<in> edges h) \<Longrightarrow>
      card (unseen st) < fuel \<Longrightarrow>
      dfs_post n h path {here} st (Dfs fuel h here st)"
  "wf_history n h \<Longrightarrow> dfs_inv n h (here # path) st \<Longrightarrow> set nexts \<subseteq> edges h `` {here} \<Longrightarrow>
      card (unseen st) < fuel \<Longrightarrow>
      dfs_post n h (here # path) (set nexts) st (Dfs_loop fuel h here nexts st)"
proof (induction fuel h here st and fuel h here nexts st arbitrary: path and path
    rule: Dfs_Dfs_loop.induct)
  case (1 h here st)
  then show ?case by simp
next
  case (2 fuel h here st)
  note inv = "2.prems"(2) and n = "2.prems"(3)
  show ?case
  proof (rule dfs_call [OF inv n "2.prems"(4-6)])
    fix nexts assume new: "here \<in> unseen st" and succs: "h here = Some nexts"
    note entered = dfs_enter [OF inv new "2.prems"(5,6)]
    show "dfs_post n h (here # path) (set nexts) (discover here st) (Dfs_loop fuel h here nexts (discover here st))"
      using "2.IH" [OF _ _ succs "2.prems"(1) entered(1) _ entered(2)] new n unseen_iff [OF inv n]
        order_length [OF inv] succs by (auto simp: edges_def)
  qed
next
  case (3 fuel h here st)
  then show ?case by simp
next
  case (4 fuel h here there nexts st)
  note wf = "4.prems"(1) and inv = "4.prems"(2) and fuel = "4.prems"(4)
  have edge: "(here, there) \<in> edges h" and rest: "set nexts \<subseteq> edges h `` {here}"
    using "4.prems"(3) by auto
  have n: "there < n" using wf edge by (auto simp: wf_history_def)
  note len = order_length [OF inv]
  show ?case
  proof (cases "there \<in> unseen st")
    case True
    then have new: "discoveredOrder st ! there = -1" using unseen_iff [OF inv n] by simp
    have par: "parent (set_parent there here st) ! there = int here"
      using inv n by (simp add: set_parent_def dfs_inv_def sizes_ok_def)
    show ?thesis
      using "4.IH"(1) [OF _ new wf inv_set_parent [OF inv True] n] "4.IH"(2) [OF _ new _ wf _ rest]
        True par edge n len fuel
      by (intro loop_tree_edge [OF inv n True]) simp_all
  next
    case seen: False
    then have old: "discoveredOrder st ! there \<noteq> -1" using unseen_iff [OF inv n] by simp
    show ?thesis
    proof (cases "there \<in> all_done st")
      case True
      have "dfs_post n h (here # path) (set nexts) st (Dfs_loop fuel h here nexts st)"
        using "4.IH"(3) [OF _ old _ wf inv rest fuel] "4.IH"(4) [OF _ old _ _ wf inv rest fuel]
          done_iff [OF inv n] True n len
        by (cases "discoveredOrder st ! here < discoveredOrder st ! there") simp_all
      then show ?thesis by (rule loop_done_edge [OF inv n True seen])
    next
      case False
      then show ?thesis by (rule loop_back_edge [OF inv wf edge _ seen])
    qed
  qed
qed

section \<open>The whole check\<close>

lemma dfs_init_inv: "dfs_inv n h [] (dfs_init n)" and dfs_init_unseen: "unseen (dfs_init n) = {..<n}"
proof -
  have sets: "unseen (dfs_init n) = {..<n}" "all_done (dfs_init n) = {}"
    by (auto simp: unseen_def all_done_def dfs_init_def)
  then show "dfs_inv n h [] (dfs_init n)"
    by (auto simp: dfs_inv_def sizes_ok_def path_ok_def closed_ok_def)
      (simp_all add: dfs_init_def)
  show "unseen (dfs_init n) = {..<n}" by (rule sets(1))
qed

lemma check_from_correct:
  "wf_history n h \<Longrightarrow> dfs_inv n h [] st \<Longrightarrow> set ids \<subseteq> {..<n} \<Longrightarrow> card (unseen st) < fuel \<Longrightarrow>
     dfs_post n h [] (set ids) st (check_from fuel h ids st)"
proof (induction ids arbitrary: st)
  case (Cons i ids)
  have post: "dfs_post n h [] {i} st (Dfs fuel h i st)"
    using Cons.prems by (intro Dfs_correct(1)) auto
  show ?case
  proof (cases "Dfs fuel h i st")
    case (Inr st')
    then have st': "dfs_inv n h [] st'" "grows st st'" "i \<in> all_done st'"
      using post by auto
    have "card (unseen st') \<le> card (unseen st)"
      using st'(2) by (auto simp: grows_def intro: card_mono)
    then have "dfs_post n h [] (set ids) st' (check_from fuel h ids st')"
      using Cons.prems st'(1) by (intro Cons.IH) auto
    then show ?thesis
      using Inr st' by (cases "check_from fuel h ids st'") (auto simp: grows_def)
  qed (use post in simp)
qed simp

lemma CheckCycle_cases:
  assumes wf: "wf_history n h"
  shows "CheckCycle n h = Inr () \<and> acyclic (edges h) \<or>
    (\<exists>ls. CheckCycle n h = Inl (Deadlock ls) \<and> cycle_report (edges h) ls)"
proof -
  have post: "dfs_post n h [] {0..<n} (dfs_init n) (check_from (n + 1) h [0..<n] (dfs_init n))"
  proof -
    have ids: "set [0..<n] \<subseteq> {..<n}" by auto
    have "card (unseen (dfs_init n)) < n + 1" by (simp add: dfs_init_unseen)
    from check_from_correct [OF wf dfs_init_inv ids this] show ?thesis by simp
  qed
  show ?thesis
  proof (cases "check_from (n + 1) h [0..<n] (dfs_init n)")
    case (Inl e)
    then show ?thesis using post by (auto simp: CheckCycle_def)
  next
    case (Inr st)
    then have cl: "closed_ok h (all_done st)" and all: "{0..<n} \<subseteq> all_done st"
      using post by (auto simp: dfs_inv_def)
    have "(x, x) \<notin> (edges h)\<^sup>+" for x
    proof
      assume cycle: "(x, x) \<in> (edges h)\<^sup>+"
      then have "x < n" using wf by (meson tranclD wf_history_def)
      then show False using cycle cl all by (auto simp: closed_ok_def)
    qed
    then show ?thesis using Inr by (simp add: CheckCycle_def acyclic_def)
  qed
qed

text \<open>
  C11. The cycle check returns exactly when the graph of lock orders has no cycle; otherwise it
  stops with DEADLOCK_DETECTED. It always ends, never follows an index out of range, and the
  lines it prints before crashing are a cycle of the graph.
\<close>

theorem check_cycle_decides:
  assumes "wf_history n h"
  shows "(CheckCycle n h = Inr () \<longleftrightarrow> acyclic (edges h)) \<and>
    (CheckCycle n h = Inr () \<or>
     (\<exists>ls. CheckCycle n h = Inl (Deadlock ls) \<and> cycle_report (edges h) ls))"
  using CheckCycle_cases [OF assms] cycle_report_cyclic by auto

theorem check_cycle_decides_witness:
  "CheckCycle 3 ((\<lambda>_. None)(0 \<mapsto> [1], 1 \<mapsto> [2], 2 \<mapsto> [0])) \<noteq> Inr () \<and>
   \<not> acyclic (edges ((\<lambda>_. None)(0 \<mapsto> [1], 1 \<mapsto> [2], 2 \<mapsto> [0])))"
proof -
  let ?h = "(\<lambda>_. None)(0 \<mapsto> [1], 1 \<mapsto> [2], 2 \<mapsto> [0]) :: history"
  have edges: "edges ?h = {(0, 1), (1, 2), (2, 0)}"
    by (auto simp: edges_def split: if_splits)
  then have "wf_history 3 ?h" by (auto simp: wf_history_def)
  moreover have "\<not> acyclic (edges ?h)"
  proof -
    have "(0, 0) \<in> (edges ?h)\<^sup>+"
      unfolding edges by (meson insertCI trancl.intros)
    then show ?thesis by (auto simp: acyclic_def)
  qed
  ultimately show ?thesis using check_cycle_decides by blast
qed

end
