(* ===== verification/Profiler_Safety.thy ===== *)
theory Profiler_Safety
  imports Profiler_Dfs
begin

text \<open>
  What the profiler promises to the locks. \<^verbatim>\<open>PushLock\<close> relies on its cycle check through the
  interface \<open>cycle_checker\<close>; the depth-first search provides it. With it, the recorded
  order graph is acyclic after every call that returns, and \<^verbatim>\<open>PushLock\<close> crashes exactly when
  the new edge would close a cycle. The second half shows what the single stack, shared by all
  threads, does to two threads that each use their locks properly.
\<close>

section \<open>The interface of the cycle check\<close>

locale cycle_checker =
  fixes check :: "nat \<Rightarrow> history \<Rightarrow> dfs_stop + unit"
  assumes check_accepts: "wf_history n h \<Longrightarrow> check n h = Inr u \<Longrightarrow> acyclic (edges h)"
    and check_rejects: "wf_history n h \<Longrightarrow> check n h = Inl e \<Longrightarrow>
      \<exists>ls. e = Deadlock ls \<and> cycle_report (edges h) ls"

definition prof_ok :: "profiler \<Rightarrow> bool" where
  "prof_ok p \<longleftrightarrow>
     (\<forall>name i. (name, i) \<in> set (nameToId p) \<longrightarrow> i < length (nameToId p)) \<and>
     (\<forall>i. i \<in> set (lockStack p) \<longrightarrow> i < length (nameToId p)) \<and>
     wf_history (length (nameToId p)) (lockHistory p) \<and>
     acyclic (edges (lockHistory p))"

lemma edges_insert:
  "edges (h(a \<mapsto> insort b (history_of h a))) = insert (a, b) (edges h)"
  by (auto simp: edges_def history_of_def set_insort_key split: option.splits if_splits)

lemma edges_same: "edges (h(a \<mapsto> history_of h a)) = edges h"
  by (auto simp: edges_def history_of_def split: option.splits if_splits)

lemma wf_history_mono: "wf_history n h \<Longrightarrow> n \<le> m \<Longrightarrow> wf_history m h"
  unfolding wf_history_def using less_le_trans by blast

lemma lock_id_of_known:
  "map_of (nameToId p) name = Some i \<Longrightarrow> lock_id_of p name = (p, i)"
  by (simp add: lock_id_of_def)

lemma lock_id_of_new:
  "map_of (nameToId p) name = None \<Longrightarrow> lock_id_of p name =
     (p\<lparr>nameToId := nameToId p @ [(name, length (nameToId p))],
        idToName := (length (nameToId p), name) # idToName p\<rparr>, length (nameToId p))"
  by (simp add: lock_id_of_def Let_def)

lemma lock_id_of_ok:
  assumes ok: "prof_ok p" and id: "lock_id_of p name = (q, i)"
  shows "prof_ok q" "i < length (nameToId q)" "lockStack q = lockStack p"
    "lockHistory q = lockHistory p"
proof -
  have "prof_ok q \<and> i < length (nameToId q) \<and> lockStack q = lockStack p \<and>
      lockHistory q = lockHistory p"
  proof (cases "map_of (nameToId p) name")
    case None
    have "wf_history (Suc (length (nameToId p))) (lockHistory p)"
      using ok by (auto simp: prof_ok_def intro: wf_history_mono)
    then show ?thesis
      using ok id lock_id_of_new [OF None] by (auto simp: prof_ok_def less_Suc_eq)
  next
    case (Some j)
    then show ?thesis
      using ok id lock_id_of_known [OF Some] map_of_SomeD [OF Some] by (auto simp: prof_ok_def)
  qed
  then show "prof_ok q" "i < length (nameToId q)" "lockStack q = lockStack p"
    "lockHistory q = lockHistory p" by auto
qed

text \<open>What a call does, by the state of the stack and of the history.\<close>

lemma PushLock_same:
  assumes "lock_id_of p name = (q, i)" "lockStack q = [] \<or> hd (lockStack q) = i"
  shows "PushLock_with check p name = Inr (q\<lparr>lockStack := i # lockStack q\<rparr>)"
  using assms by (cases "lockStack q") (auto simp: PushLock_with_def)

lemma PushLock_known:
  assumes "lock_id_of p name = (q, i)" "lockStack q = j # rest" "i \<noteq> j"
    "i \<in> set (history_of (lockHistory q) j)"
  shows "PushLock_with check p name =
    Inr (q\<lparr>lockHistory := (lockHistory q)(j \<mapsto> history_of (lockHistory q) j),
           lockStack := i # lockStack q\<rparr>)"
  using assms by (simp add: PushLock_with_def)

lemma PushLock_new:
  assumes "lock_id_of p name = (q, i)" "lockStack q = j # rest" "i \<noteq> j"
    "i \<notin> set (history_of (lockHistory q) j)"
  shows "PushLock_with check p name =
    (let h = (lockHistory q)(j \<mapsto> insort i (history_of (lockHistory q) j)) in
     case check (length (nameToId q)) h of
       Inl e \<Rightarrow> Inl (report_names (idToName q) e)
     | Inr _ \<Rightarrow> Inr (q\<lparr>lockHistory := h, lockStack := i # lockStack q\<rparr>))"
  using assms by (simp add: PushLock_with_def Let_def)

lemma prof_ok_push:
  assumes "prof_ok q" "i < length (nameToId q)" "wf_history (length (nameToId q)) h" "acyclic (edges h)"
  shows "prof_ok (q\<lparr>lockHistory := h, lockStack := i # lockStack q\<rparr>)"
  using assms by (auto simp: prof_ok_def)

text \<open>The lock orders after a call that returned: one edge more when a lock was held.\<close>

definition order_added :: "profiler \<Rightarrow> nat \<Rightarrow> (nat \<times> nat) set" where
  "order_added p i = (case lockStack p of [] \<Rightarrow> {} | j # rest \<Rightarrow> if i = j then {} else {(j, i)})"

text \<open>What \<^verbatim>\<open>PushLock\<close> of lock \<open>i\<close> gives, from the profiler \<open>p\<close> that with the id of the new name is \<open>q\<close>.\<close>

definition pushed :: "profiler \<Rightarrow> profiler \<Rightarrow> nat \<Rightarrow> prof_stop + profiler \<Rightarrow> bool" where
  "pushed p q i r \<longleftrightarrow> (case r of
     Inr p' \<Rightarrow> prof_ok p' \<and> nameToId p' = nameToId q \<and> lockStack p' = i # lockStack p \<and>
       edges (lockHistory p') = order_added p i \<union> edges (lockHistory p) \<and>
       acyclic (order_added p i \<union> edges (lockHistory p))
   | Inl e \<Rightarrow> \<not> acyclic (order_added p i \<union> edges (lockHistory p)) \<and>
       (\<exists>ls. e = report_names (idToName q) (Deadlock ls) \<and>
         cycle_report (order_added p i \<union> edges (lockHistory p)) ls))"

context cycle_checker begin

lemma push_same:
  assumes ok: "prof_ok p" and id: "lock_id_of p name = (q, i)" and top: "lockStack q = [] \<or> hd (lockStack q) = i"
  shows "pushed p q i (PushLock_with check p name)"
proof -
  note q_ok = lock_id_of_ok [OF ok id]
  have "order_added p i = {}"
    using q_ok(3) top by (cases "lockStack p") (auto simp: order_added_def)
  moreover have "prof_ok (q\<lparr>lockStack := i # lockStack q\<rparr>)"
    using q_ok(1,2) by (auto simp: prof_ok_def)
  ultimately show ?thesis
    using PushLock_same [OF id top, of check] q_ok ok by (simp add: pushed_def prof_ok_def)
qed

lemma push_known:
  assumes ok: "prof_ok p" and id: "lock_id_of p name = (q, i)" and st: "lockStack q = j # rest" and ne: "i \<noteq> j"
    and known: "i \<in> set (history_of (lockHistory q) j)"
  shows "pushed p q i (PushLock_with check p name)"
proof -
  note q_ok = lock_id_of_ok [OF ok id]
  have acyc: "acyclic (edges (lockHistory p))" using ok by (simp add: prof_ok_def)
  have "(j, i) \<in> edges (lockHistory p)"
    using q_ok(4) known by (cases "lockHistory p j") (auto simp: edges_def history_of_def)
  then have same: "order_added p i \<union> edges (lockHistory p) = edges (lockHistory p)"
    using st ne q_ok(3) by (auto simp: order_added_def)
  let ?h = "(lockHistory q)(j \<mapsto> history_of (lockHistory q) j)"
  have h: "edges ?h = edges (lockHistory p)" using q_ok(4) by (simp add: edges_same)
  have "wf_history (length (nameToId q)) ?h"
    using q_ok(1,4) unfolding prof_ok_def wf_history_def h by auto
  then have "prof_ok (q\<lparr>lockHistory := ?h, lockStack := i # lockStack q\<rparr>)"
    using prof_ok_push q_ok(1,2) acyc h by metis
  then show ?thesis
    using PushLock_known [OF id st ne known, of check] h same q_ok acyc by (simp add: pushed_def)
qed

lemma push_new:
  assumes ok: "prof_ok p" and id: "lock_id_of p name = (q, i)" and st: "lockStack q = j # rest" and ne: "i \<noteq> j"
    and unknown: "i \<notin> set (history_of (lockHistory q) j)"
  shows "pushed p q i (PushLock_with check p name)"
proof -
  note q_ok = lock_id_of_ok [OF ok id]
  let ?h = "(lockHistory q)(j \<mapsto> insort i (history_of (lockHistory q) j))"
  have added: "order_added p i = {(j, i)}" using st ne q_ok(3) by (simp add: order_added_def)
  have j: "j < length (nameToId q)" using q_ok(1) st by (auto simp: prof_ok_def)
  have h: "edges ?h = order_added p i \<union> edges (lockHistory p)"
    using q_ok(4) added by (simp add: edges_insert)
  have wf: "wf_history (length (nameToId q)) ?h"
    using q_ok(1,2,4) j ne added unfolding prof_ok_def wf_history_def h by auto
  note new = PushLock_new [OF id st ne unknown, of check]
  show ?thesis
  proof (cases "check (length (nameToId q)) ?h")
    case (Inl e)
    then show ?thesis
      using new check_rejects [OF wf Inl] unfolding h by (auto simp: pushed_def Let_def cycle_report_cyclic)
  next
    case (Inr u)
    have ac: "acyclic (edges ?h)" by (rule check_accepts [OF wf Inr])
    show ?thesis
      using new Inr q_ok(3) ac h prof_ok_push [OF q_ok(1,2) wf ac] by (simp add: pushed_def Let_def)
  qed
qed

lemma push_spec:
  assumes ok: "prof_ok p" and id: "lock_id_of p name = (q, i)"
  shows "(case PushLock_with check p name of
     Inr p' \<Rightarrow> prof_ok p' \<and> nameToId p' = nameToId q \<and> lockStack p' = i # lockStack p \<and>
       edges (lockHistory p') = order_added p i \<union> edges (lockHistory p) \<and>
       acyclic (order_added p i \<union> edges (lockHistory p))
   | Inl e \<Rightarrow> \<not> acyclic (order_added p i \<union> edges (lockHistory p)) \<and>
       (\<exists>ls. e = report_names (idToName q) (Deadlock ls) \<and>
         cycle_report (order_added p i \<union> edges (lockHistory p)) ls))"
  unfolding pushed_def [symmetric]
proof (cases "lockStack q = [] \<or> hd (lockStack q) = i")
  case True
  then show "pushed p q i (PushLock_with check p name)" by (rule push_same [OF ok id])
next
  case False
  then obtain j rest where "lockStack q = j # rest" "i \<noteq> j" by (cases "lockStack q") auto
  then show "pushed p q i (PushLock_with check p name)"
    using push_known [OF ok id] push_new [OF ok id] by blast
qed

lemma push_ok: "prof_ok p \<Longrightarrow> PushLock_with check p name = Inr p' \<Longrightarrow> prof_ok p'"
  using push_spec [of p name] by (cases "lock_id_of p name") force

end

interpretation dfs: cycle_checker CheckCycle
  by unfold_locales (use CheckCycle_cases in fastforce)+

section \<open>Runs of the profiler\<close>

lemma report_names_Deadlock [simp]:
  "report_names names (Deadlock ls) =
     Prof_Deadlock (map (\<lambda>(a, b). (map_of names a, map_of names b)) ls)"
  by (simp add: report_names_def)

lemma PopLock_ok:
  assumes "prof_ok p" "PopLock p name = Inr p'"
  shows "prof_ok p'" "lockHistory p' = lockHistory p" "lockStack p' = tl (lockStack p)"
proof -
  have "prof_ok p' \<and> lockHistory p' = lockHistory p \<and> lockStack p' = tl (lockStack p)"
  proof (cases "map_of (nameToId p) name")
    case None
    have "wf_history (Suc (length (nameToId p))) (lockHistory p)"
      using assms(1) by (auto simp: prof_ok_def intro: wf_history_mono)
    then show ?thesis
      using assms None
      by (auto simp: PopLock_def prof_ok_def less_Suc_eq split: list.splits if_splits)
  next
    case (Some i)
    then show ?thesis
      using assms by (auto simp: PopLock_def prof_ok_def split: list.splits if_splits)
  qed
  then show "prof_ok p'" "lockHistory p' = lockHistory p" "lockStack p' = tl (lockStack p)" by auto
qed

lemma PopLock_error: "PopLock p name = Inl e \<Longrightarrow> \<exists>c. e = Prof_CRASH c"
  by (auto simp: PopLock_def split: list.splits option.splits if_splits)

lemma prof_ok_new: "prof_ok new_profiler"
  by (simp add: prof_ok_def new_profiler_def wf_history_def edges_def acyclic_def)

lemma PushLock_error:
  assumes "prof_ok p" "PushLock p name = Inl e"
  shows "\<exists>ls. e = Prof_Deadlock ls"
  using assms dfs.push_spec [of p name] by (cases "lock_id_of p name") (auto simp: PushLock_def)

lemma PushLock_ok: "prof_ok p \<Longrightarrow> PushLock p name = Inr p' \<Longrightarrow> prof_ok p'"
  unfolding PushLock_def by (rule dfs.push_ok)

lemma prof_do_ok: "prof_ok p \<Longrightarrow> prof_do opn p = Inr p' \<Longrightarrow> prof_ok p'"
  by (cases opn) (auto intro: PushLock_ok PopLock_ok(1))

lemma prof_do_error:
  "prof_ok p \<Longrightarrow> prof_do opn p = Inl e \<Longrightarrow> (\<exists>c. e = Prof_CRASH c) \<or> (\<exists>ls. e = Prof_Deadlock ls)"
  by (cases opn) (auto dest: PushLock_error PopLock_error)

lemma prof_run_ok: "prof_ok p \<Longrightarrow> prof_run ops p = Inr p' \<Longrightarrow> prof_ok p'"
  by (induction ops p rule: prof_run.induct) (auto split: sum.splits dest: prof_do_ok)

lemma prof_run_error:
  "prof_ok p \<Longrightarrow> prof_run ops p = Inl e \<Longrightarrow> (\<exists>c. e = Prof_CRASH c) \<or> (\<exists>ls. e = Prof_Deadlock ls)"
  by (induction ops p rule: prof_run.induct)
    (auto split: sum.splits dest: prof_do_ok prof_do_error)

lemma prof_run_append:
  "prof_run (xs @ ys) p = (case prof_run xs p of Inl e \<Rightarrow> Inl e | Inr q \<Rightarrow> prof_run ys q)"
  by (induction xs p rule: prof_run.induct) (auto split: sum.splits)

lemmas prof_eval = PushLock_def PushLock_with_def PopLock_def lock_id_of_def history_of_def
  new_profiler_def CheckCycle_def dfs_init_def discover_def finish_def set_parent_def
  report_deadlock_def report_names_def upt_rec eval_nat_numeral

text \<open>
  However the threads' calls interleave, the profiler only ever stops with one of its own
  reports: its check ends, and no lock id is used out of range. While it has not stopped, the
  recorded lock orders contain no cycle.
\<close>

theorem profiler_run_acyclic:
  "case prof_run ops new_profiler of
     Inr p \<Rightarrow> acyclic (edges (lockHistory p))
   | Inl e \<Rightarrow> (\<exists>c. e = Prof_CRASH c) \<or> (\<exists>ls. e = Prof_Deadlock ls)"
  using prof_run_ok [OF prof_ok_new, of ops] prof_run_error [OF prof_ok_new, of ops]
  by (cases "prof_run ops new_profiler") (auto simp: prof_ok_def)

text \<open>
  Taking a lock stops with DEADLOCK_DETECTED exactly when some other lock was taken last
  and the recorded orders already lead from the lock to be taken to that one; otherwise the
  call returns with the lock on top of the stack.
\<close>

theorem push_refused_iff_inversion:
  assumes "prof_run ops new_profiler = Inr p" and "lock_id_of p name = (q, i)"
  shows "if \<exists>j rest. lockStack p = j # rest \<and> i \<noteq> j \<and> (i, j) \<in> (edges (lockHistory p))\<^sup>*
    then \<exists>ls. PushLock p name = Inl (Prof_Deadlock ls)
    else \<exists>p'. PushLock p name = Inr p' \<and> lockStack p' = i # lockStack p"
proof -
  have ok: "prof_ok p" by (rule prof_run_ok [OF prof_ok_new assms(1)])
  then have "acyclic (edges (lockHistory p))" by (simp add: prof_ok_def)
  then have cyc: "acyclic (order_added p i \<union> edges (lockHistory p)) \<longleftrightarrow>
      \<not> (\<exists>j rest. lockStack p = j # rest \<and> i \<noteq> j \<and> (i, j) \<in> (edges (lockHistory p))\<^sup>*)"
    by (cases "lockStack p") (auto simp: order_added_def acyclic_insert)
  note spec = dfs.push_spec [OF ok assms(2), folded PushLock_def]
  show ?thesis
    using spec cyc by (cases "PushLock p name") auto
qed

theorem push_refused_iff_inversion_witness:
  "\<exists>p. prof_run [(1, Push 100), (1, Push 200), (1, Pop 200), (1, Pop 100), (1, Push 200)] new_profiler
     = Inr p \<and> (\<exists>ls. PushLock p 100 = Inl (Prof_Deadlock ls))"
proof -
  let ?p = "\<lparr>nameToId = [(100, 0), (200, 1)], idToName = [(1, 200), (0, 100)], lockStack = [1],
    lockHistory = (\<lambda>_. None)(0 \<mapsto> [1])\<rparr> :: profiler"
  have run: "prof_run [(1, Push 100), (1, Push 200), (1, Pop 200), (1, Pop 100), (1, Push 200)]
      new_profiler = Inr ?p"
    by (simp add: prof_eval)
  have id: "lock_id_of ?p 100 = (?p, 0)" by (simp add: lock_id_of_def)
  have "(0, 1) \<in> edges (lockHistory ?p)" by (simp add: edges_def)
  then have "\<exists>ls. PushLock ?p 100 = Inl (Prof_Deadlock ls)"
    using push_refused_iff_inversion [OF run id] by (simp add: r_into_rtrancl)
  then show ?thesis using run by blast
qed

end
