(* ===== verification/Profiler_Spec.thy ===== *)
theory Profiler_Spec
  imports Profiler_Safety
begin

text \<open>
  What the profiler is for, over lock names instead of ids: a set of observed orders and the
  stack of the locks held. The detailed model refines it for calls that release only names taken
  before. Two consequences: scopes of one thread are accepted exactly when
  their nestings contain no cycle, and the one stack for all threads refuses programs in which
  every thread is properly nested.
\<close>

section \<open>The specification\<close>

datatype spec_stop = Inverted | Unlocked_twice | Unlocked_other

type_synonym spec = "(cstr \<times> cstr) set \<times> cstr list"

definition added :: "cstr list \<Rightarrow> cstr \<Rightarrow> (cstr \<times> cstr) set" where
  "added st n = (case st of [] \<Rightarrow> {} | m # _ \<Rightarrow> if m = n then {} else {(m, n)})"

fun spec_do :: "prof_op \<Rightarrow> spec \<Rightarrow> spec_stop + spec" where
  "spec_do (Push n) (E, st) =
     (if acyclic (added st n \<union> E) then Inr (added st n \<union> E, n # st) else Inl Inverted)"
| "spec_do (Pop n) (E, []) = Inl Unlocked_twice"
| "spec_do (Pop n) (E, m # st) = (if m = n then Inr (E, st) else Inl Unlocked_other)"

fun spec_run :: "(nat \<times> prof_op) list \<Rightarrow> spec \<Rightarrow> spec_stop + spec" where
  "spec_run [] s = Inr s"
| "spec_run ((thread, opn) # ops) s =
     (case spec_do opn s of Inl e \<Rightarrow> Inl e | Inr s' \<Rightarrow> spec_run ops s')"

text \<open>Only names taken before are released.\<close>

fun known_pops :: "cstr set \<Rightarrow> (nat \<times> prof_op) list \<Rightarrow> bool" where
  "known_pops N [] \<longleftrightarrow> True"
| "known_pops N ((thread, Push n) # ops) \<longleftrightarrow> known_pops (insert n N) ops"
| "known_pops N ((thread, Pop n) # ops) \<longleftrightarrow> n \<in> N \<and> known_pops N ops"

section \<open>Renaming a graph\<close>

lemma trancl_image: "(x, y) \<in> E\<^sup>+ \<Longrightarrow> (f x, f y) \<in> (map_prod f f ` E)\<^sup>+"
proof (induction rule: trancl_induct)
  case (base y)
  then show ?case by (intro r_into_trancl) force
next
  case (step y z)
  then have "(f y, f z) \<in> map_prod f f ` E" by force
  then show ?case by (rule trancl_into_trancl [OF step.IH])
qed

lemma trancl_image_back:
  "(u, v) \<in> (map_prod f f ` E)\<^sup>+ \<Longrightarrow> inj_on f N \<Longrightarrow> E \<subseteq> N \<times> N \<Longrightarrow>
     \<exists>x y. x \<in> N \<and> y \<in> N \<and> u = f x \<and> v = f y \<and> (x, y) \<in> E\<^sup>+"
proof (induction rule: trancl_induct)
  case (base v)
  then show ?case by fastforce
next
  case (step v w)
  then obtain x y where xy: "x \<in> N" "y \<in> N" "u = f x" "v = f y" "(x, y) \<in> E\<^sup>+" by blast
  obtain y' z where yz: "(y', z) \<in> E" "v = f y'" "w = f z" using step.hyps(2) by auto
  then have "y' \<in> N" "z \<in> N" using step.prems(2) by auto
  then have "y' = y" using xy yz step.prems(1) by (auto dest: inj_onD)
  then have "(x, z) \<in> E\<^sup>+" using xy yz by (auto intro: trancl_into_trancl)
  then show ?case using xy yz \<open>z \<in> N\<close> by blast
qed

lemma acyclic_image:
  assumes "inj_on f N" "E \<subseteq> N \<times> N"
  shows "acyclic (map_prod f f ` E) \<longleftrightarrow> acyclic E"
proof
  assume "acyclic (map_prod f f ` E)"
  then show "acyclic E" unfolding acyclic_def using trancl_image [of _ _ E f] by auto
next
  assume ac: "acyclic E"
  show "acyclic (map_prod f f ` E)"
    unfolding acyclic_def
  proof safe
    fix u assume "(u, u) \<in> (map_prod f f ` E)\<^sup>+"
    from trancl_image_back [OF this assms]
    obtain x y where xy: "x \<in> N" "y \<in> N" "u = f x" "u = f y" "(x, y) \<in> E\<^sup>+" by blast
    then have "x = y" using assms(1) by (auto dest: inj_onD)
    then show False using xy(5) ac by (simp add: acyclic_def)
  qed
qed

section \<open>The refinement relation\<close>

definition id_of :: "profiler \<Rightarrow> cstr \<Rightarrow> nat" where
  "id_of p n = (case map_of (nameToId p) n of None \<Rightarrow> 0 | Some i \<Rightarrow> i)"

definition names :: "profiler \<Rightarrow> cstr set" where
  "names p = fst ` set (nameToId p)"

definition refines :: "profiler \<Rightarrow> spec \<Rightarrow> bool" where
  "refines p s \<longleftrightarrow> prof_ok p \<and> map snd (nameToId p) = [0..<length (nameToId p)] \<and>
     distinct (map fst (nameToId p)) \<and> fst s \<subseteq> names p \<times> names p \<and> set (snd s) \<subseteq> names p \<and>
     lockStack p = map (id_of p) (snd s) \<and> edges (lockHistory p) = map_prod (id_of p) (id_of p) ` fst s"

lemma id_of_inj:
  assumes "map snd (nameToId p) = [0..<length (nameToId p)]" "distinct (map fst (nameToId p))"
  shows "inj_on (id_of p) (names p)"
proof (rule inj_onI)
  fix m n assume mn: "m \<in> names p" "n \<in> names p" "id_of p m = id_of p n"
  let ?l = "nameToId p"
  obtain i j where i: "i < length ?l" "fst (?l ! i) = m" and j: "j < length ?l" "fst (?l ! j) = n"
    using mn(1,2) by (auto simp: names_def in_set_conv_nth)
  have id: "id_of p (fst (?l ! k)) = k" if "k < length ?l" for k
  proof -
    have "snd (?l ! k) = map snd ?l ! k" using that by simp
    also have "\<dots> = k" unfolding assms(1) using that by simp
    finally have "(fst (?l ! k), k) \<in> set ?l" using that by (metis nth_mem prod.collapse)
    then show ?thesis using assms(2) by (simp add: id_of_def)
  qed
  show "m = n" using id [OF i(1)] id [OF j(1)] mn(3) i(2) j(2) by auto
qed

lemma lock_id_of_refines:
  assumes r: "refines p (E, st)" and id: "lock_id_of p name = (q, i)"
  shows "refines q (E, st)" "i = id_of q name" "names q = insert name (names p)" "name \<in> names q"
proof -
  have "refines q (E, st) \<and> i = id_of q name \<and> names q = insert name (names p)"
  proof (cases "map_of (nameToId p) name")
    case None
    have q: "q = p\<lparr>nameToId := nameToId p @ [(name, length (nameToId p))],
        idToName := (length (nameToId p), name) # idToName p\<rparr>" and i: "i = length (nameToId p)"
      using lock_id_of_new [OF None] id by auto
    have fresh: "name \<notin> names p" using None by (simp add: names_def map_of_eq_None_iff)
    have same: "id_of q n = id_of p n" if "n \<in> names p" for n
    proof -
      have "map_of (nameToId p) n \<noteq> None" using that by (simp add: names_def map_of_eq_None_iff)
      then show ?thesis using q by (auto simp: id_of_def map_add_def)
    qed
    have names: "names q = insert name (names p)" using q by (simp add: names_def)
    have "map_prod (id_of q) (id_of q) ` E = map_prod (id_of p) (id_of p) ` E"
      using r same by (intro image_cong) (auto simp: refines_def)
    moreover have "map (id_of q) st = map (id_of p) st"
      using r same by (auto simp: refines_def)
    moreover have "prof_ok q" by (rule lock_id_of_ok(1) [OF _ id]) (use r in \<open>simp add: refines_def\<close>)
    moreover have "distinct (map fst (nameToId q))" "map snd (nameToId q) = [0..<length (nameToId q)]"
      using r q fresh by (auto simp: refines_def names_def)
    moreover have "i = id_of q name" using q i None by (simp add: id_of_def map_add_def)
    ultimately show ?thesis using r q names by (auto simp: refines_def)
  next
    case (Some j)
    then have "name \<in> names p" by (force simp: names_def dest: map_of_SomeD)
    then show ?thesis
      using lock_id_of_known [OF Some] id r Some by (auto simp: id_of_def)
  qed
  then show "refines q (E, st)" "i = id_of q name" "names q = insert name (names p)" "name \<in> names q"
    by auto
qed

lemma added_image:
  assumes inj: "inj_on f N" and "set st \<subseteq> N" "n \<in> N"
  shows "map_prod f f ` added st n =
    (case map f st of [] \<Rightarrow> {} | j # _ \<Rightarrow> if f n = j then {} else {(j, f n)})"
proof (cases st)
  case (Cons m rest)
  then have "f n = f m \<longleftrightarrow> n = m" using assms by (auto simp: inj_on_eq_iff)
  then show ?thesis using Cons by (auto simp: added_def)
qed (simp add: added_def)

lemma added_names: "set st \<subseteq> N \<Longrightarrow> n \<in> N \<Longrightarrow> added st n \<subseteq> N \<times> N"
  by (auto simp: added_def split: list.splits if_splits)

section \<open>The simulation\<close>

lemma push_refines:
  assumes r: "refines p (E, st)"
  shows "(case PushLock p n of
     Inr p' \<Rightarrow> spec_do (Push n) (E, st) = Inr (added st n \<union> E, n # st) \<and>
       refines p' (added st n \<union> E, n # st) \<and> names p' = insert n (names p)
   | Inl e \<Rightarrow> spec_do (Push n) (E, st) = Inl Inverted \<and> (\<exists>ls. e = Prof_Deadlock ls))"
proof -
  obtain q i where id: "lock_id_of p n = (q, i)" by force
  note q = lock_id_of_refines [OF r id]
  have ok: "prof_ok p" using r by (simp add: refines_def)
  note frame = lock_id_of_ok [OF ok id]
  let ?f = "id_of q"
  have sub: "set st \<subseteq> names q" "E \<subseteq> names q \<times> names q" using q(1) by (auto simp: refines_def)
  have inj: "inj_on ?f (names q)" by (rule id_of_inj) (use q(1) in \<open>simp_all add: refines_def\<close>)
  have stack: "lockStack p = map ?f st" "edges (lockHistory p) = map_prod ?f ?f ` E"
    using q(1) frame(3,4) by (simp_all add: refines_def)
  have "order_added p i = map_prod ?f ?f ` added st n"
    using added_image [OF inj sub(1) q(4)] stack(1) q(2) by (simp add: order_added_def)
  then have image: "order_added p i \<union> edges (lockHistory p) = map_prod ?f ?f ` (added st n \<union> E)"
    using stack(2) by (simp add: image_Un)
  have dom: "added st n \<union> E \<subseteq> names q \<times> names q" using sub added_names q(4) by blast
  have ac: "acyclic (order_added p i \<union> edges (lockHistory p)) \<longleftrightarrow> acyclic (added st n \<union> E)"
    unfolding image by (rule acyclic_image [OF inj dom])
  note spec = dfs.push_spec [OF ok id, folded PushLock_def]
  show ?thesis
  proof (cases "PushLock p n")
    case (Inl e)
    then show ?thesis using spec ac by auto
  next
    case (Inr p')
    then have p': "prof_ok p'" "nameToId p' = nameToId q" "lockStack p' = i # lockStack p"
        "edges (lockHistory p') = map_prod ?f ?f ` (added st n \<union> E)" "acyclic (added st n \<union> E)"
      using spec ac image by auto
    have "id_of p' = id_of q" "names p' = names q" using p'(2) by (auto simp: id_of_def names_def)
    then have "refines p' (added st n \<union> E, n # st)"
      using q p' stack(1) dom by (simp add: refines_def)
    then show ?thesis
      using Inr p'(5) q(3) \<open>names p' = names q\<close> by simp
  qed
qed

fun matches :: "prof_stop \<Rightarrow> spec_stop \<Rightarrow> bool" where
  "matches (Prof_Deadlock _) Inverted \<longleftrightarrow> True"
| "matches (Prof_CRASH c) Unlocked_twice \<longleftrightarrow> c = ''MULTIPLE UNLOCK''"
| "matches (Prof_CRASH c) Unlocked_other \<longleftrightarrow> c = ''INVALID_UNLOCK''"
| "matches _ _ \<longleftrightarrow> False"

lemma pop_refines:
  assumes r: "refines p (E, st)" and n: "n \<in> names p"
  shows "(case PopLock p n of
     Inr p' \<Rightarrow> \<exists>s'. spec_do (Pop n) (E, st) = Inr s' \<and> refines p' s' \<and> names p' = names p
   | Inl e \<Rightarrow> \<exists>f. spec_do (Pop n) (E, st) = Inl f \<and> matches e f)"
proof (cases st)
  case Nil
  then show ?thesis using r by (simp add: PopLock_def refines_def)
next
  case (Cons m rest)
  have inj: "inj_on (id_of p) (names p)" by (rule id_of_inj) (use r in \<open>simp_all add: refines_def\<close>)
  have m: "m \<in> names p" and stack: "lockStack p = id_of p m # map (id_of p) rest"
    using r Cons by (auto simp: refines_def)
  obtain i where i: "map_of (nameToId p) n = Some i"
    using n by (cases "map_of (nameToId p) n") (auto simp: names_def map_of_eq_None_iff)
  then have idn: "id_of p n = i" by (simp add: id_of_def)
  show ?thesis
  proof (cases "m = n")
    case True
    then have pop: "PopLock p n = Inr (p\<lparr>lockStack := map (id_of p) rest\<rparr>)"
      using i idn stack by (simp add: PopLock_def)
    have "prof_ok (p\<lparr>lockStack := map (id_of p) rest\<rparr>)"
      by (rule PopLock_ok(1) [OF _ pop]) (use r in \<open>simp add: refines_def\<close>)
    moreover have "id_of (p\<lparr>lockStack := x\<rparr>) = id_of p" "names (p\<lparr>lockStack := x\<rparr>) = names p" for x
      by (auto simp: id_of_def names_def)
    ultimately show ?thesis
      using True pop r Cons by (auto simp: refines_def)
  next
    case False
    then have "id_of p m \<noteq> i" using inj m n idn by (auto dest: inj_onD)
    then show ?thesis using False Cons i stack by (auto simp: PopLock_def)
  qed
qed

lemma do_refines:
  assumes r: "refines p s" and known: "known_pops (names p) ((t, opn) # ops)"
  shows "(case prof_do opn p of
     Inr p' \<Rightarrow> \<exists>s'. spec_do opn s = Inr s' \<and> refines p' s' \<and> known_pops (names p') ops
   | Inl e \<Rightarrow> \<exists>f. spec_do opn s = Inl f \<and> matches e f)"
proof -
  obtain E st where s: "s = (E, st)" by force
  show ?thesis
  proof (cases opn)
    case (Push n)
    then show ?thesis
      using push_refines [OF r [unfolded s], of n] known s
      by (cases "PushLock p n") (auto simp del: spec_do.simps)
  next
    case (Pop n)
    then show ?thesis
      using pop_refines [OF r [unfolded s], of n] known s
      by (cases "PopLock p n") (auto simp del: spec_do.simps)
  qed
qed

lemma run_refines:
  "refines p s \<Longrightarrow> known_pops (names p) ops \<Longrightarrow>
     (case prof_run ops p of
        Inr p' \<Rightarrow> \<exists>s'. spec_run ops s = Inr s' \<and> refines p' s'
      | Inl e \<Rightarrow> \<exists>f. spec_run ops s = Inl f \<and> matches e f)"
proof (induction ops arbitrary: p s)
  case (Cons top ops)
  obtain t opn where top: "top = (t, opn)" by force
  note step = do_refines [OF Cons.prems [unfolded top]]
  show ?case
  proof (cases "prof_do opn p")
    case (Inl e)
    then show ?thesis using step top by auto
  next
    case (Inr p')
    then obtain s' where "spec_do opn s = Inr s'" "refines p' s'" "known_pops (names p') ops"
      using step by auto
    then show ?thesis using Cons.IH [of p' s'] Inr top by (cases "prof_run ops p'") auto
  qed
qed simp

lemma refines_new: "refines new_profiler ({}, [])"
  using prof_ok_new by (simp add: refines_def new_profiler_def names_def edges_def)

text \<open>
  C2. The profiler implements the specification over lock names: for calls that release only
  names taken before, it continues exactly when the specification does, with the observed orders
  and the held locks of the specification, and otherwise stops with the corresponding
  report (DEADLOCK_DETECTED, MULTIPLE UNLOCK or INVALID_UNLOCK).
\<close>

theorem profiler_refines_spec:
  assumes "known_pops {} ops"
  shows "case prof_run ops new_profiler of
     Inr p \<Rightarrow> \<exists>s. spec_run ops ({}, []) = Inr s \<and> refines p s
   | Inl e \<Rightarrow> \<exists>f. spec_run ops ({}, []) = Inl f \<and> matches e f"
  using run_refines [OF refines_new, of ops] assms by (simp add: names_def new_profiler_def)

theorem profiler_refines_spec_witness:
  "\<exists>f. spec_run [(1, Push 5), (1, Push 7), (1, Pop 5)] ({}, []) = Inl f \<and>
     matches (Prof_CRASH ''INVALID_UNLOCK'') f"
proof -
  have "prof_run [(1, Push 5), (1, Push 7), (1, Pop 5)] new_profiler = Inl (Prof_CRASH ''INVALID_UNLOCK'')"
    by (simp add: prof_eval)
  then show ?thesis
    using profiler_refines_spec [of "[(1, Push 5), (1, Push 7), (1, Pop 5)]"] by simp
qed

section \<open>Scopes of one thread\<close>

text \<open>Locks taken and released as guards: each name with the scopes inside it.\<close>

datatype scope = Scope cstr "scope list"

fun scope_ops :: "nat \<Rightarrow> scope \<Rightarrow> (nat \<times> prof_op) list"
  and scopes_ops :: "nat \<Rightarrow> scope list \<Rightarrow> (nat \<times> prof_op) list" where
  "scope_ops t (Scope name inner) = (t, Push name) # scopes_ops t inner @ [(t, Pop name)]"
| "scopes_ops t [] = []"
| "scopes_ops t (s # ss) = scope_ops t s @ scopes_ops t ss"

text \<open>The pairs of an outer and a directly inner lock, below the locks \<open>st\<close>.\<close>

fun nesting :: "cstr list \<Rightarrow> scope \<Rightarrow> (cstr \<times> cstr) set"
  and nestings :: "cstr list \<Rightarrow> scope list \<Rightarrow> (cstr \<times> cstr) set" where
  "nesting st (Scope name inner) = added st name \<union> nestings (name # st) inner"
| "nestings st [] = {}"
| "nestings st (s # ss) = nesting st s \<union> nestings st ss"

lemma spec_run_append:
  "spec_run (xs @ ys) s = (case spec_run xs s of Inl e \<Rightarrow> Inl e | Inr s' \<Rightarrow> spec_run ys s')"
  by (induction xs s rule: spec_run.induct) (auto split: sum.splits)

lemma known_pops_mono: "known_pops N ops \<Longrightarrow> N \<subseteq> M \<Longrightarrow> known_pops M ops"
proof (induction N ops arbitrary: M rule: known_pops.induct)
  case (2 N t n ops)
  have "insert n N \<subseteq> insert n M" using "2.prems"(2) by blast
  then show ?case using "2.IH" "2.prems"(1) by simp
qed auto

lemma known_pops_insert: "known_pops N ops \<Longrightarrow> known_pops (insert n N) ops"
  by (rule known_pops_mono) auto

lemma known_pops_append:
  "known_pops N xs \<Longrightarrow> known_pops N ys \<Longrightarrow> known_pops N (xs @ ys)"
  by (induction N xs rule: known_pops.induct) (auto intro: known_pops_insert)

lemma scopes_known: "known_pops N (scope_ops t s)" "known_pops N (scopes_ops t ss)"
  by (induction t s and t ss arbitrary: N and N rule: scope_ops_scopes_ops.induct)
    (auto intro: known_pops_append)

lemma spec_run_scopes:
  "acyclic E \<Longrightarrow> spec_run (scope_ops t s) (E, st) =
     (if acyclic (nesting st s \<union> E) then Inr (nesting st s \<union> E, st) else Inl Inverted)"
  "acyclic E \<Longrightarrow> spec_run (scopes_ops t ss) (E, st) =
     (if acyclic (nestings st ss \<union> E) then Inr (nestings st ss \<union> E, st) else Inl Inverted)"
proof (induction t s and t ss arbitrary: E st and E st rule: scope_ops_scopes_ops.induct)
  case (1 t name inner)
  show ?case
  proof (cases "acyclic (added st name \<union> E)")
    case True
    then show ?thesis using "1.IH" [OF True, of "name # st"] by (simp add: spec_run_append Un_ac)
  next
    case False
    then have "\<not> acyclic (added st name \<union> nestings (name # st) inner \<union> E)"
      by (meson acyclic_subset Un_mono sup.cobounded1 order_refl)
    then show ?thesis using False by (simp add: Un_ac)
  qed
next
  case (3 t s ss)
  show ?case
  proof (cases "acyclic (nesting st s \<union> E)")
    case True
    then show ?thesis using "3.IH" "3.prems" by (simp add: spec_run_append Un_ac)
  next
    case False
    then have "\<not> acyclic (nesting st s \<union> nestings st ss \<union> E)"
      by (meson acyclic_subset Un_mono sup.cobounded1 order_refl)
    then show ?thesis using False "3.IH"(1) "3.prems" by (simp add: spec_run_append)
  qed
qed simp

text \<open>
  Locks taken as nested scopes by one thread are accepted, with nothing left on the stack,
  exactly when the pairs of an outer and an inner lock contain no cycle; otherwise the profiler
  reports a deadlock, even if no run of the program has deadlocked.
\<close>

theorem scopes_accepted_iff_acyclic:
  "if acyclic (nestings [] ss)
   then \<exists>p. prof_run (scopes_ops t ss) new_profiler = Inr p \<and> lockStack p = []
   else \<exists>ls. prof_run (scopes_ops t ss) new_profiler = Inl (Prof_Deadlock ls)"
proof -
  have "acyclic ({} :: (cstr \<times> cstr) set)" by (simp add: acyclic_def)
  note spec = spec_run_scopes(2) [OF this, of t ss "[]"]
  have ref: "case prof_run (scopes_ops t ss) new_profiler of
     Inr p \<Rightarrow> \<exists>s. spec_run (scopes_ops t ss) ({}, []) = Inr s \<and> refines p s
   | Inl e \<Rightarrow> \<exists>f. spec_run (scopes_ops t ss) ({}, []) = Inl f \<and> matches e f"
    using run_refines [OF refines_new, of "scopes_ops t ss"] scopes_known by blast
  have dead: "matches e Inverted \<Longrightarrow> \<exists>ls. e = Prof_Deadlock ls" for e by (cases e) auto
  show ?thesis
  proof (cases "acyclic (nestings [] ss)")
    case True
    then show ?thesis using ref spec
      by (cases "prof_run (scopes_ops t ss) new_profiler") (auto simp: refines_def)
  next
    case False
    then show ?thesis using ref spec dead
      by (cases "prof_run (scopes_ops t ss) new_profiler") auto
  qed
qed

section \<open>One stack for all threads\<close>

text \<open>
  C23. Two threads that each take and release one lock of their own, never two at a time, are
  refused: with INVALID_UNLOCK when their holds overlap, and with a deadlock report once
  the overlaps have been seen in both orders. The calls of each thread alone are accepted.
\<close>

theorem shared_stack_refuses_correct_threads:
  assumes "m \<noteq> n" "t \<noteq> u"
    and "ops1 = [(t, Push m), (u, Push n), (t, Pop m), (u, Pop n)]"
    and "ops2 = [(t, Push m), (u, Push n), (u, Pop n), (t, Pop m), (u, Push n), (t, Push m)]"
  shows "prof_run ops1 new_profiler = Inl (Prof_CRASH ''INVALID_UNLOCK'') \<and>
    prof_run ops2 new_profiler = Inl (Prof_Deadlock [(Some n, Some m), (Some m, Some n)]) \<and>
    (\<forall>thread. (\<exists>p. prof_run (filter (\<lambda>c. fst c = thread) ops1) new_profiler = Inr p) \<and>
      (\<exists>p. prof_run (filter (\<lambda>c. fst c = thread) ops2) new_profiler = Inr p))"
  using assms by (auto simp: prof_eval)

theorem shared_stack_refuses_correct_threads_witness:
  "prof_run [(1, Push 100), (2, Push 200), (1, Pop 100), (2, Pop 200)] new_profiler =
     Inl (Prof_CRASH ''INVALID_UNLOCK'')"
  using shared_stack_refuses_correct_threads [of 100 200 1 2] by simp

end
