(* ===== verification/Lock_Free_Stack.thy ===== *)
theory Lock_Free_Stack
  imports Prelude
begin

text \<open>
  The lock-free stack of \<^verbatim>\<open>GameServer/LockFreeStack.h\<close> and
  \<^verbatim>\<open>GameServer/LockFreeStack.cpp\<close> (its third, uncommented attempt).

  The 128-bit header is its two 64-bit words, with the bit-fields of \<^verbatim>\<open>HeaderX64\<close> as
  functions on them. \<open>lfs_step\<close> is one access to shared memory of a thread inside
  \<^verbatim>\<open>PushEntrySList\<close> or \<^verbatim>\<open>PopEntrySList\<close>. The copy \<^verbatim>\<open>expected = *header\<close> is not atomic: it is
  two accesses, in an order the compiler chooses, between which other threads may run.
  \<open>PushEntrySList\<close> and \<open>PopEntrySList\<close> are the same functions without interference.
\<close>

section \<open>The header\<close>

type_synonym address = uint64  \<comment> \<open>0 is the null pointer\<close>
type_synonym links = "address \<Rightarrow> address"  \<comment> \<open>\<open>entry->next\<close>\<close>

record SListHeader =
  alignment :: uint64
  region :: uint64

definition hdr_depth :: "SListHeader \<Rightarrow> uint64" where
  "hdr_depth h = take_bit 16 (alignment h)"

definition hdr_sequence :: "SListHeader \<Rightarrow> uint64" where
  "hdr_sequence h = drop_bit 16 (alignment h)"

definition hdr_reserved :: "SListHeader \<Rightarrow> uint64" where
  "hdr_reserved h = take_bit 4 (region h)"

definition hdr_next :: "SListHeader \<Rightarrow> uint64" where
  "hdr_next h = drop_bit 4 (region h)"

definition set_depth :: "uint64 \<Rightarrow> SListHeader \<Rightarrow> SListHeader" where
  "set_depth v h = h\<lparr>alignment := push_bit 16 (drop_bit 16 (alignment h)) OR take_bit 16 v\<rparr>"

definition set_sequence :: "uint64 \<Rightarrow> SListHeader \<Rightarrow> SListHeader" where
  "set_sequence v h = h\<lparr>alignment := push_bit 16 v OR take_bit 16 (alignment h)\<rparr>"

definition set_next :: "uint64 \<Rightarrow> SListHeader \<Rightarrow> SListHeader" where
  "set_next v h = h\<lparr>region := push_bit 4 v OR take_bit 4 (region h)\<rparr>"

text \<open>\<^verbatim>\<open>SListHeader()\<close> and \<^verbatim>\<open>InitializeHead\<close>.\<close>

definition InitializeHead :: SListHeader where
  "InitializeHead = \<lparr>alignment = 0, region = 0\<rparr>"

definition entry_of :: "SListHeader \<Rightarrow> address" where
  "entry_of h = push_bit 4 (hdr_next h)"

definition push_desired :: "address \<Rightarrow> SListHeader \<Rightarrow> SListHeader" where
  "push_desired e expected = set_sequence (hdr_sequence expected + 1)
     (set_depth (hdr_depth expected + 1) (set_next (drop_bit 4 e) InitializeHead))"

definition pop_desired :: "address \<Rightarrow> SListHeader \<Rightarrow> SListHeader" where
  "pop_desired nxt expected = set_sequence (hdr_sequence expected + 1)
     (set_depth (hdr_depth expected - 1) (set_next (drop_bit 4 nxt) InitializeHead))"

section \<open>The bit-fields\<close>

named_theorems hdr_simps "reading a bit-field after setting one"

lemma bit_at_64: "bit (w :: uint64) (m + n) \<Longrightarrow> n < 64 - m"
  using bit_imp_le_length [of w "m + n"] by simp

lemma sequence_after [hdr_simps]:
  "hdr_sequence (set_sequence v h) = take_bit 48 v"
  "hdr_sequence (set_depth v h) = hdr_sequence h"
  "hdr_sequence (set_next v h) = hdr_sequence h"
  by (auto simp: hdr_sequence_def set_sequence_def set_depth_def set_next_def bit_simps
      intro!: bit_word_eqI dest!: bit_at_64)

lemma depth_after [hdr_simps]:
  "hdr_depth (set_sequence v h) = hdr_depth h"
  "hdr_depth (set_depth v h) = take_bit 16 v"
  "hdr_depth (set_next v h) = hdr_depth h"
  by (auto simp: hdr_depth_def set_sequence_def set_depth_def set_next_def bit_simps
      intro!: bit_word_eqI)

lemma next_after [hdr_simps]:
  "hdr_next (set_sequence v h) = hdr_next h"
  "hdr_next (set_depth v h) = hdr_next h"
  "hdr_next (set_next v h) = take_bit 60 v"
  by (auto simp: hdr_next_def set_sequence_def set_depth_def set_next_def bit_simps
      intro!: bit_word_eqI)

lemma init_fields [hdr_simps]:
  "hdr_sequence InitializeHead = 0" "hdr_depth InitializeHead = 0" "hdr_next InitializeHead = 0"
  by (simp_all add: hdr_sequence_def hdr_depth_def hdr_next_def InitializeHead_def)

text \<open>An entry is not null and lies on a 16-byte boundary.\<close>

definition entry_ok :: "address \<Rightarrow> bool" where
  "entry_ok e \<longleftrightarrow> e \<noteq> 0 \<and> e AND 0xF = 0"

lemma low_bits_zero: "e AND 0xF = 0 \<Longrightarrow> push_bit 4 (take_bit 60 (drop_bit 4 e)) = (e :: uint64)"
proof -
  assume "e AND 0xF = 0"
  then have "take_bit 4 e = 0" by (simp add: take_bit_eq_mask mask_numeral)
  then have low: "\<not> bit e n" if "n < 4" for n
    using that by (metis bit_0_eq bit_take_bit_iff bot_apply bot_bool_def)
  show "push_bit 4 (take_bit 60 (drop_bit 4 e)) = e"
  proof (rule bit_word_eqI)
    fix n assume n: "n < LENGTH(64)"
    show "bit (push_bit 4 (take_bit 60 (drop_bit 4 e))) n \<longleftrightarrow> bit e n"
    proof (cases "n < 4")
      case False
      then have "4 + (n - 4) = n" "n - 4 < 60" using n by auto
      then show ?thesis using False n by (simp add: bit_simps)
    qed (simp add: low bit_simps)
  qed
qed

lemma entry_of_desired:
  "e AND 0xF = 0 \<Longrightarrow> entry_of (push_desired e h) = e"
  "e AND 0xF = 0 \<Longrightarrow> entry_of (pop_desired e h) = e"
  by (simp_all add: entry_of_def push_desired_def pop_desired_def hdr_simps low_bits_zero)

lemma next_zero_iff: "hdr_next h = 0 \<longleftrightarrow> entry_of h = 0"
proof
  assume "entry_of h = 0"
  then have "drop_bit 4 (push_bit 4 (drop_bit 4 (region h))) = 0"
    by (simp add: entry_of_def hdr_next_def)
  moreover have "drop_bit 4 (push_bit 4 (drop_bit 4 (region h))) = drop_bit 4 (region h)"
    by (auto simp: bit_simps intro!: bit_word_eqI dest!: bit_at_64)
  ultimately show "hdr_next h = 0" by (simp add: hdr_next_def)
qed (simp add: entry_of_def)

lemma sequence_succ:
  assumes "unat (hdr_sequence h) + 1 < 2 ^ 48"
  shows "unat (hdr_sequence (push_desired e h)) = unat (hdr_sequence h) + 1"
    "unat (hdr_sequence (pop_desired e h)) = unat (hdr_sequence h) + 1"
proof -
  have "unat (hdr_sequence h + 1) = unat (hdr_sequence h) + 1"
    by (rule unat_Suc_lt) (use assms in simp)
  then have "unat (take_bit 48 (hdr_sequence h + 1)) = unat (hdr_sequence h) + 1"
    using assms by (simp add: unsigned_take_bit_eq take_bit_nat_eq_self)
  then show "unat (hdr_sequence (push_desired e h)) = unat (hdr_sequence h) + 1"
    "unat (hdr_sequence (pop_desired e h)) = unat (hdr_sequence h) + 1"
    by (simp_all add: push_desired_def pop_desired_def hdr_simps)
qed

section \<open>One thread, one access\<close>

datatype lfs_pc =
    At_rest
  | Push_read address                \<comment> \<open>before the copy of the header\<close>
  | Push_half1 address uint64        \<comment> \<open>\<open>alignment\<close> copied\<close>
  | Push_half2 address uint64        \<comment> \<open>\<open>region\<close> copied\<close>
  | Push_link address SListHeader    \<comment> \<open>before \<open>entry->next = \<dots>\<close>\<close>
  | Push_cas address SListHeader
  | Push_done
  | Pop_read
  | Pop_half1 uint64
  | Pop_half2 uint64
  | Pop_next SListHeader             \<comment> \<open>before \<open>entry->next\<close> is read\<close>
  | Pop_cas SListHeader address
  | Pop_done address

definition popped_copy :: "SListHeader \<Rightarrow> lfs_pc" where
  "popped_copy expected = (if entry_of expected = 0 then Pop_done 0 else Pop_next expected)"

fun lfs_step :: "bool \<Rightarrow> SListHeader \<Rightarrow> links \<Rightarrow> lfs_pc \<Rightarrow> SListHeader \<times> links \<times> lfs_pc" where
  "lfs_step first h l (Push_read e) =
     (h, l, if first then Push_half1 e (alignment h) else Push_half2 e (region h))"
| "lfs_step first h l (Push_half1 e a) = (h, l, Push_link e \<lparr>alignment = a, region = region h\<rparr>)"
| "lfs_step first h l (Push_half2 e r) = (h, l, Push_link e \<lparr>alignment = alignment h, region = r\<rparr>)"
| "lfs_step first h l (Push_link e expected) = (h, l(e := entry_of expected), Push_cas e expected)"
| "lfs_step first h l (Push_cas e expected) =
     (case compare_exchange_strong h expected (push_desired e expected) of
        (ok, h') \<Rightarrow> (h', l, if ok then Push_done else Push_read e))"
| "lfs_step first h l Pop_read =
     (h, l, if first then Pop_half1 (alignment h) else Pop_half2 (region h))"
| "lfs_step first h l (Pop_half1 a) = (h, l, popped_copy \<lparr>alignment = a, region = region h\<rparr>)"
| "lfs_step first h l (Pop_half2 r) = (h, l, popped_copy \<lparr>alignment = alignment h, region = r\<rparr>)"
| "lfs_step first h l (Pop_next expected) = (h, l, Pop_cas expected (l (entry_of expected)))"
| "lfs_step first h l (Pop_cas expected nxt) =
     (case compare_exchange_strong h expected (pop_desired nxt expected) of
        (ok, h') \<Rightarrow> (h', l, if ok then Pop_done (entry_of expected) else Pop_read))"
| "lfs_step first h l pc = (h, l, pc)"

section \<open>Without interference\<close>

definition PushEntrySList :: "address \<Rightarrow> SListHeader \<times> links \<Rightarrow> SListHeader \<times> links" where
  "PushEntrySList e s = (case s of (h, l) \<Rightarrow> (push_desired e h, l(e := entry_of h)))"

definition PopEntrySList :: "SListHeader \<times> links \<Rightarrow> address \<times> (SListHeader \<times> links)" where
  "PopEntrySList s = (case s of (h, l) \<Rightarrow>
     (if entry_of h = 0 then (0, (h, l))
      else (entry_of h, (pop_desired (l (entry_of h)) h, l))))"

fun lfs_alone :: "nat \<Rightarrow> bool \<Rightarrow> SListHeader \<times> links \<times> lfs_pc \<Rightarrow> SListHeader \<times> links \<times> lfs_pc" where
  "lfs_alone 0 first s = s"
| "lfs_alone (Suc n) first (h, l, pc) = lfs_alone n first (lfs_step first h l pc)"

lemma push_alone:
  "lfs_alone 4 first (h, l, Push_read e) =
     (case PushEntrySList e (h, l) of (h', l') \<Rightarrow> (h', l', Push_done))"
  by (cases first; cases h) (simp_all add: eval_nat_numeral PushEntrySList_def compare_exchange_strong_def)

lemma pop_alone:
  "lfs_alone 4 first (h, l, Pop_read) =
     (case PopEntrySList (h, l) of (r, h', l') \<Rightarrow> (h', l', Pop_done r))"
  by (cases first; cases h)
    (simp_all add: eval_nat_numeral PopEntrySList_def popped_copy_def compare_exchange_strong_def)

section \<open>The list of entries\<close>

text \<open>The entries from \<open>p\<close> along \<open>next\<close> are \<open>es\<close>.\<close>

fun chain :: "links \<Rightarrow> address \<Rightarrow> address list \<Rightarrow> bool" where
  "chain l p [] \<longleftrightarrow> p = 0"
| "chain l p (e # es) \<longleftrightarrow> p = e \<and> entry_ok e \<and> chain l (l e) es"

lemma chain_unique: "chain l p es \<Longrightarrow> chain l p es' \<Longrightarrow> es = es'"
proof (induction es arbitrary: p es')
  case Nil
  then show ?case by (cases es') (auto simp: entry_ok_def)
next
  case (Cons e es)
  then show ?case by (cases es') (auto simp: entry_ok_def)
qed

lemma chain_frame: "chain l p es \<Longrightarrow> e \<notin> set es \<Longrightarrow> chain (l(e := v)) p es"
  by (induction es arbitrary: p) auto

lemma chain_entries: "chain l p es \<Longrightarrow> e \<in> set es \<Longrightarrow> entry_ok e"
  by (induction es arbitrary: p) auto

lemma chain_zero: "chain l 0 es \<longleftrightarrow> es = []"
  by (cases es) (auto simp: entry_ok_def)

lemma chain_nonzero: "p \<noteq> 0 \<Longrightarrow> chain l p es \<Longrightarrow> \<exists>es'. es = p # es' \<and> chain l (l p) es'"
  by (cases es) auto

lemma chain_low_bits: "chain l p es \<Longrightarrow> p AND 0xF = 0"
  by (cases es) (auto simp: entry_ok_def)

lemma chain_push:
  assumes "chain l (entry_of h) es" "entry_ok e" "e \<notin> set es"
  shows "chain (l(e := entry_of h)) (entry_of (push_desired e h)) (e # es)"
  using assms by (simp add: entry_of_desired entry_ok_def chain_frame)

lemma chain_pop:
  assumes "chain l (entry_of h) (e # es)"
  shows "chain l (entry_of (pop_desired (l e) h)) es"
proof -
  have rest: "chain l (l e) es" using assms by simp
  then have "l e AND 0xF = 0" by (rule chain_low_bits)
  then show ?thesis using rest by (simp add: entry_of_desired)
qed

end
