(* ===== verification/Lock_Free_Safety.thy ===== *)
theory Lock_Free_Safety
  imports Lock_Free_Stack
begin

text \<open>
  Any number of threads on one lock-free stack. A thread at rest may allocate an entry, write
  to one it owns, push one it owns or pop one; the accesses of the operations interleave freely.
  Every operation takes effect at one access between its call and its return (the events
  \<open>Lin_push\<close> and \<open>Lin_pop\<close>), in an order that a sequential stack explains, as
  long as the 48-bit \<^verbatim>\<open>sequence\<close> has not wrapped. The access to \<^verbatim>\<open>entry->next\<close> that the source
  marks \<open>Use-After-Free\<close> is safe when popped entries are never freed, and is not otherwise.
\<close>

section \<open>The system\<close>

record lfs =
  hdr :: SListHeader
  link :: links
  live :: "address set"            \<comment> \<open>allocated memory\<close>
  pcs :: "nat \<Rightarrow> lfs_pc"
  owned :: "nat \<Rightarrow> address set"

datatype lfs_event =
    Call_push nat address
  | Call_pop nat
  | Lin_push nat address
  | Lin_pop nat address
  | Ret_push nat
  | Ret_pop nat address
  | Tau

text \<open>The access of \<open>lfs_step\<close> at which the operation takes effect.\<close>

fun lfs_effect :: "nat \<Rightarrow> bool \<Rightarrow> SListHeader \<Rightarrow> lfs_pc \<Rightarrow> lfs_event" where
  "lfs_effect t first h (Push_cas e x) = (if h = x then Lin_push t e else Tau)"
| "lfs_effect t first h (Pop_cas x n) = (if h = x then Lin_pop t (entry_of x) else Tau)"
| "lfs_effect t first h (Pop_half1 a) = (if entry_of h = 0 then Lin_pop t 0 else Tau)"
| "lfs_effect t first h Pop_read = (if \<not> first \<and> entry_of h = 0 then Lin_pop t 0 else Tau)"
| "lfs_effect t first h pc = Tau"

fun lfs_waiting :: "lfs_pc \<Rightarrow> bool" where
  "lfs_waiting At_rest \<longleftrightarrow> True"
| "lfs_waiting Push_done \<longleftrightarrow> True"
| "lfs_waiting (Pop_done e) \<longleftrightarrow> True"
| "lfs_waiting pc \<longleftrightarrow> False"

inductive lfs_next :: "bool \<Rightarrow> lfs \<Rightarrow> lfs_event \<Rightarrow> lfs \<Rightarrow> bool" for may_free where
  call_push: "pcs s t = At_rest \<Longrightarrow> e \<in> owned s t \<Longrightarrow>
    lfs_next may_free s (Call_push t e)
      (s\<lparr>pcs := (pcs s)(t := Push_read e), owned := (owned s)(t := owned s t - {e})\<rparr>)"
| call_pop: "pcs s t = At_rest \<Longrightarrow>
    lfs_next may_free s (Call_pop t) (s\<lparr>pcs := (pcs s)(t := Pop_read)\<rparr>)"
| access: "\<not> lfs_waiting (pcs s t) \<Longrightarrow> lfs_step first (hdr s) (link s) (pcs s t) = (h', l', pc') \<Longrightarrow>
    lfs_next may_free s (lfs_effect t first (hdr s) (pcs s t))
      (s\<lparr>hdr := h', link := l', pcs := (pcs s)(t := pc')\<rparr>)"
| ret_push: "pcs s t = Push_done \<Longrightarrow>
    lfs_next may_free s (Ret_push t) (s\<lparr>pcs := (pcs s)(t := At_rest)\<rparr>)"
| ret_pop: "pcs s t = Pop_done e \<Longrightarrow>
    lfs_next may_free s (Ret_pop t e)
      (s\<lparr>pcs := (pcs s)(t := At_rest), owned := (owned s)(t := owned s t \<union> ({e} - {0}))\<rparr>)"
| alloc: "entry_ok e \<Longrightarrow> e \<notin> live s \<Longrightarrow>
    lfs_next may_free s Tau
      (s\<lparr>live := insert e (live s), owned := (owned s)(t := insert e (owned s t))\<rparr>)"
| scribble: "pcs s t = At_rest \<Longrightarrow> e \<in> owned s t \<Longrightarrow>
    lfs_next may_free s Tau (s\<lparr>link := (link s)(e := v)\<rparr>)"
| free: "may_free \<Longrightarrow> pcs s t = At_rest \<Longrightarrow> e \<in> owned s t \<Longrightarrow>
    lfs_next may_free s Tau
      (s\<lparr>live := live s - {e}, owned := (owned s)(t := owned s t - {e})\<rparr>)"

definition lfs_init :: "links \<Rightarrow> lfs" where
  "lfs_init l = \<lparr>hdr = InitializeHead, link = l, live = {}, pcs = (\<lambda>_. At_rest), owned = (\<lambda>_. {})\<rparr>"

text \<open>The states a run reaches, with its events, the last one first.\<close>

inductive lfs_run :: "bool \<Rightarrow> lfs_event list \<Rightarrow> lfs \<Rightarrow> bool" for may_free where
  start: "lfs_run may_free [] (lfs_init l)"
| more: "lfs_run may_free evs s \<Longrightarrow> lfs_next may_free s ev s' \<Longrightarrow> lfs_run may_free (ev # evs) s'"

section \<open>What the events must satisfy\<close>

text \<open>The stack that the effects leave, if a sequential stack has them.\<close>

fun stack_after :: "lfs_event \<Rightarrow> address list \<Rightarrow> address list option" where
  "stack_after (Lin_push t e) es = Some (e # es)"
| "stack_after (Lin_pop t r) [] = (if r = 0 then Some [] else None)"
| "stack_after (Lin_pop t r) (e # es) = (if r = e then Some es else None)"
| "stack_after ev es = Some es"

fun replay :: "lfs_event list \<Rightarrow> address list option" where
  "replay [] = Some []"
| "replay (ev # evs) = Option.bind (replay evs) (stack_after ev)"

text \<open>Where a thread is between a call, the effect and the return, if they alternate.\<close>

datatype lfs_phase = Rest | Pushing address | Pushed | Popping | Popped address

definition advance :: "lfs_phase \<Rightarrow> lfs_phase \<Rightarrow> lfs_phase option \<Rightarrow> lfs_phase option" where
  "advance p q now = (if now = Some p then Some q else None)"

fun phase_after :: "nat \<Rightarrow> lfs_event list \<Rightarrow> lfs_phase option" where
  "phase_after t [] = Some Rest"
| "phase_after t (Call_push u e # evs) =
     (if u = t then advance Rest (Pushing e) (phase_after t evs) else phase_after t evs)"
| "phase_after t (Call_pop u # evs) =
     (if u = t then advance Rest Popping (phase_after t evs) else phase_after t evs)"
| "phase_after t (Lin_push u e # evs) =
     (if u = t then advance (Pushing e) Pushed (phase_after t evs) else phase_after t evs)"
| "phase_after t (Lin_pop u e # evs) =
     (if u = t then advance Popping (Popped e) (phase_after t evs) else phase_after t evs)"
| "phase_after t (Ret_push u # evs) =
     (if u = t then advance Pushed Rest (phase_after t evs) else phase_after t evs)"
| "phase_after t (Ret_pop u e # evs) =
     (if u = t then advance (Popped e) Rest (phase_after t evs) else phase_after t evs)"
| "phase_after t (Tau # evs) = phase_after t evs"

fun phase_of :: "lfs_pc \<Rightarrow> lfs_phase" where
  "phase_of At_rest = Rest"
| "phase_of (Push_read e) = Pushing e"
| "phase_of (Push_half1 e a) = Pushing e"
| "phase_of (Push_half2 e r) = Pushing e"
| "phase_of (Push_link e x) = Pushing e"
| "phase_of (Push_cas e x) = Pushing e"
| "phase_of Push_done = Pushed"
| "phase_of Pop_read = Popping"
| "phase_of (Pop_half1 a) = Popping"
| "phase_of (Pop_half2 r) = (if push_bit 4 (drop_bit 4 r) = 0 then Popped 0 else Popping)"
| "phase_of (Pop_next x) = Popping"
| "phase_of (Pop_cas x n) = Popping"
| "phase_of (Pop_done e) = Popped e"

section \<open>The invariant\<close>

text \<open>The entry that an operation holds: about to be pushed, or popped and not yet returned.\<close>

fun in_flight :: "lfs_pc \<Rightarrow> address set" where
  "in_flight (Push_read e) = {e}"
| "in_flight (Push_half1 e a) = {e}"
| "in_flight (Push_half2 e r) = {e}"
| "in_flight (Push_link e x) = {e}"
| "in_flight (Push_cas e x) = {e}"
| "in_flight (Pop_done e) = {e} - {0}"
| "in_flight pc = {}"

definition seqno :: "SListHeader \<Rightarrow> nat" where
  "seqno h = unat (hdr_sequence h)"

text \<open>A copy of \<open>alignment\<close>: old, or current.\<close>

definition copy_ok :: "SListHeader \<Rightarrow> uint64 \<Rightarrow> bool" where
  "copy_ok h a \<longleftrightarrow> (let n = unat (drop_bit 16 a) in
     n \<le> seqno h \<and> (n = seqno h \<longrightarrow> a = alignment h))"

fun pc_ok :: "SListHeader \<Rightarrow> links \<Rightarrow> lfs_pc \<Rightarrow> bool" where
  "pc_ok h l (Push_half1 e a) \<longleftrightarrow> copy_ok h a"
| "pc_ok h l (Push_link e x) \<longleftrightarrow> copy_ok h (alignment x)"
| "pc_ok h l (Push_cas e x) \<longleftrightarrow> copy_ok h (alignment x) \<and> l e = entry_of x"
| "pc_ok h l (Pop_half1 a) \<longleftrightarrow> copy_ok h a"
| "pc_ok h l (Pop_next x) \<longleftrightarrow> copy_ok h (alignment x) \<and> entry_of x \<noteq> 0"
| "pc_ok h l (Pop_cas x n) \<longleftrightarrow> copy_ok h (alignment x) \<and> entry_of x \<noteq> 0 \<and>
     (x = h \<longrightarrow> n = l (entry_of x))"
| "pc_ok h l pc \<longleftrightarrow> True"

definition holding :: "lfs \<Rightarrow> nat \<Rightarrow> address set" where
  "holding s t = owned s t \<union> in_flight (pcs s t)"

definition own_ok :: "address list \<Rightarrow> address set \<Rightarrow> (nat \<Rightarrow> address set) \<Rightarrow> bool" where
  "own_ok es L H \<longleftrightarrow> (\<forall>t. H t \<inter> set es = {}) \<and> (\<forall>t u. t \<noteq> u \<longrightarrow> H t \<inter> H u = {}) \<and>
     (\<forall>t e. e \<in> H t \<longrightarrow> entry_ok e \<and> e \<in> L) \<and> (\<forall>e. e \<in> set es \<longrightarrow> entry_ok e \<and> e \<in> L)"

definition stack_ok :: "address list \<Rightarrow> SListHeader \<Rightarrow> links \<Rightarrow> bool" where
  "stack_ok es h l \<longleftrightarrow> chain l (entry_of h) es \<and> distinct es \<and>
     hdr_depth h = take_bit 16 (of_nat (length es))"

definition lfs_inv :: "address list \<Rightarrow> lfs \<Rightarrow> bool" where
  "lfs_inv es s \<longleftrightarrow> stack_ok es (hdr s) (link s) \<and> own_ok es (live s) (holding s) \<and>
     (\<forall>t. pc_ok (hdr s) (link s) (pcs s t)) \<and> (\<forall>t. owned s t \<inter> in_flight (pcs s t) = {})"

lemma copy_ok_now: "copy_ok h (alignment h)"
  by (simp add: copy_ok_def Let_def seqno_def hdr_sequence_def)

lemma copy_ok_later: "copy_ok h a \<Longrightarrow> seqno h' = seqno h + 1 \<Longrightarrow> copy_ok h' a"
  by (auto simp: copy_ok_def Let_def)

lemma pc_ok_write:
  assumes "pc_ok h l pc" "e \<notin> in_flight pc" "e \<noteq> entry_of h"
  shows "pc_ok h (l(e := v)) pc"
  using assms by (cases pc) auto

lemma pc_ok_later:
  assumes "pc_ok h l pc" "seqno h' = seqno h + 1"
  shows "pc_ok h' l pc"
  using assms copy_ok_later [OF _ assms(2)]
  by (cases pc) (auto simp: copy_ok_def Let_def seqno_def hdr_sequence_def)

section \<open>Ownership\<close>

lemma own_move:
  assumes "own_ok es L H" "set es' \<union> A \<subseteq> set es \<union> H t" "set es' \<inter> A = {}"
  shows "own_ok es' L (H(t := A))"
proof -
  have "x \<notin> set es' \<and> x \<notin> A" if "x \<in> H u" "u \<noteq> t" for x u
    using assms that unfolding own_ok_def by blast
  then show ?thesis
    using assms unfolding own_ok_def by (auto 0 3)
qed

lemma own_alloc:
  assumes "own_ok es L H" "e \<notin> L" "entry_ok e"
  shows "own_ok es (insert e L) (H(t := insert e (H t)))"
  using assms unfolding own_ok_def by auto

lemma own_free:
  assumes "own_ok es L H" "e \<in> H t"
  shows "own_ok es (L - {e}) (H(t := H t - {e}))"
proof -
  have "e \<notin> H u" if "u \<noteq> t" for u using assms that unfolding own_ok_def by blast
  moreover have "e \<notin> set es" using assms unfolding own_ok_def by blast
  ultimately show ?thesis using assms(1) unfolding own_ok_def by (auto 0 3)
qed

lemma holding_update:
  assumes "owned s' = (owned s)(t := O')" "pcs s' = (pcs s)(t := pc')"
  shows "holding s' = (holding s)(t := O' \<union> in_flight pc')"
  using assms by (intro ext) (auto simp: holding_def)

text \<open>A change of one thread's counter and holdings, with the shared words as they were.\<close>

lemma lfs_inv_thread:
  assumes inv: "lfs_inv es s"
    and same: "hdr s' = hdr s" "link s' = link s" "live s' = live s"
    and upd: "pcs s' = (pcs s)(t := pc')" "owned s' = (owned s)(t := O')"
    and ok: "pc_ok (hdr s) (link s) pc'" and holds: "O' \<union> in_flight pc' \<subseteq> holding s t"
    and sep: "O' \<inter> in_flight pc' = {}"
  shows "lfs_inv es s'"
proof -
  have own: "own_ok es (live s) (holding s)" using inv by (simp add: lfs_inv_def)
  then have "holding s t \<inter> set es = {}" by (simp add: own_ok_def)
  then have "own_ok es (live s) (holding s')"
    unfolding holding_update [OF upd(2,1)] by (intro own_move [OF own]) (use holds in auto)
  then show ?thesis
    using inv same upd ok sep by (simp add: lfs_inv_def)
qed

lemma inv_link:
  assumes inv: "lfs_inv es s" and e: "e \<in> holding s t"
    and same: "hdr s' = hdr s" "link s' = (link s)(e := v)" "live s' = live s" "owned s' = owned s"
    and upd: "pcs s' = (pcs s)(t := pc')" "in_flight pc' = in_flight (pcs s t)"
    and ok: "pc_ok (hdr s) ((link s)(e := v)) pc'"
  shows "lfs_inv es s'"
proof -
  have own: "own_ok es (live s) (holding s)" and st: "stack_ok es (hdr s) (link s)"
    using inv by (auto simp: lfs_inv_def)
  have notin: "e \<notin> set es" using own e unfolding own_ok_def by blast
  have ne: "e \<noteq> entry_of (hdr s)"
  proof
    assume e': "e = entry_of (hdr s)"
    have "e \<noteq> 0" using own e by (auto simp: own_ok_def entry_ok_def)
    then have "e \<in> set es"
      using st e' chain_nonzero [of "entry_of (hdr s)" "link s" es] by (auto simp: stack_ok_def)
    then show False using notin by simp
  qed
  have others: "pc_ok (hdr s) ((link s)(e := v)) (pcs s u)" if "u \<noteq> t" for u
  proof (rule pc_ok_write [OF _ _ ne])
    show "pc_ok (hdr s) (link s) (pcs s u)" using inv by (simp add: lfs_inv_def)
    have "holding s t \<inter> holding s u = {}" using own that by (auto simp: own_ok_def)
    then show "e \<notin> in_flight (pcs s u)" using e by (auto simp: holding_def)
  qed
  have "holding s' = holding s" using same(4) upd by (intro ext) (auto simp: holding_def)
  then show ?thesis
    using inv same upd ok others notin st
    by (simp add: lfs_inv_def stack_ok_def chain_frame)
qed

text \<open>A successful exchange of the header.\<close>

lemma inv_exchange:
  assumes inv: "lfs_inv es s"
    and same: "link s' = link s" "live s' = live s" "owned s' = owned s"
    and upd: "pcs s' = (pcs s)(t := pc')" and seq: "seqno (hdr s') = seqno (hdr s) + 1"
    and st: "stack_ok es' (hdr s') (link s)" and ok: "pc_ok (hdr s') (link s) pc'"
    and moved: "set es' \<union> in_flight pc' \<subseteq> set es \<union> in_flight (pcs s t)"
      "set es' \<inter> in_flight pc' = {}"
  shows "lfs_inv es' s'"
proof -
  have own: "own_ok es (live s) (holding s)" and sep: "owned s t \<inter> in_flight (pcs s t) = {}"
    using inv by (auto simp: lfs_inv_def)
  have free: "owned s t \<inter> set es = {}" using own by (auto simp: own_ok_def holding_def)
  have "own_ok es' (live s) ((holding s)(t := owned s t \<union> in_flight pc'))"
    by (rule own_move [OF own]) (use moved sep free in \<open>auto simp: holding_def\<close>)
  moreover have "holding s' = (holding s)(t := owned s t \<union> in_flight pc')"
    by (rule holding_update) (use same upd in auto)
  moreover have "owned s t \<inter> in_flight pc' = {}" using moved sep free by blast
  moreover have "pc_ok (hdr s') (link s) (pcs s u)" for u
    by (rule pc_ok_later [OF _ seq]) (use inv in \<open>simp add: lfs_inv_def\<close>)
  ultimately show ?thesis
    using inv same upd st ok by (simp add: lfs_inv_def)
qed

section \<open>Every step\<close>

lemma uint_low: "uint (take_bit 16 (w :: uint64)) = uint w mod 2 ^ 16"
  by (simp only: unsigned_take_bit_eq) (simp add: take_bit_eq_mod)

lemma low_add: "take_bit 16 (take_bit 16 a + 1) = take_bit 16 (a + 1 :: uint64)"
  by (rule word_uint_eqI) (simp add: uint_low uint_word_ariths mod_mod_cancel mod_simps)

lemma low_sub: "take_bit 16 (take_bit 16 a - 1) = take_bit 16 (a - 1 :: uint64)"
  by (rule word_uint_eqI) (simp add: uint_low uint_word_ariths mod_mod_cancel mod_simps)

lemma depth_succ:
  "hdr_depth h = take_bit 16 (of_nat n) \<Longrightarrow>
     hdr_depth (push_desired e h) = take_bit 16 (of_nat (Suc n))"
  by (simp add: push_desired_def hdr_simps low_add add.commute [of 1])

lemma depth_pred:
  "hdr_depth h = take_bit 16 (of_nat (Suc n)) \<Longrightarrow>
     hdr_depth (pop_desired e h) = take_bit 16 (of_nat n)"
  by (simp add: pop_desired_def hdr_simps low_sub)

lemma push_exchange:
  assumes inv: "lfs_inv es s" and pc: "pcs s t = Push_cas e (hdr s)"
    and room: "seqno (hdr s) + 1 < 2 ^ 48"
  shows "lfs_inv (e # es) (s\<lparr>hdr := push_desired e (hdr s), pcs := (pcs s)(t := Push_done)\<rparr>)"
proof -
  have st: "stack_ok es (hdr s) (link s)" and own: "own_ok es (live s) (holding s)"
    using inv by (auto simp: lfs_inv_def)
  have e: "e \<in> holding s t" using pc by (simp add: holding_def)
  then have e: "entry_ok e" "e \<notin> set es" using own unfolding own_ok_def by blast+
  have "pc_ok (hdr s) (link s) (Push_cas e (hdr s))" using inv pc by (metis lfs_inv_def)
  then have "(link s)(e := entry_of (hdr s)) = link s" by auto
  then have "stack_ok (e # es) (push_desired e (hdr s)) (link s)"
    using st chain_push [of "link s" "hdr s" es e] depth_succ [of "hdr s" "length es"] e
    by (simp add: stack_ok_def)
  moreover have "seqno (push_desired e (hdr s)) = seqno (hdr s) + 1"
    using room sequence_succ(1) by (simp add: seqno_def)
  ultimately show ?thesis
    by (intro inv_exchange [OF inv, where t = t]) (use pc e in auto)
qed

lemma pop_exchange:
  assumes inv: "lfs_inv es s" and pc: "pcs s t = Pop_cas (hdr s) n"
    and room: "seqno (hdr s) + 1 < 2 ^ 48"
  shows "\<exists>es'. es = entry_of (hdr s) # es' \<and> lfs_inv es'
    (s\<lparr>hdr := pop_desired n (hdr s), pcs := (pcs s)(t := Pop_done (entry_of (hdr s)))\<rparr>)"
proof -
  have st: "stack_ok es (hdr s) (link s)" using inv by (simp add: lfs_inv_def)
  have "pc_ok (hdr s) (link s) (Pop_cas (hdr s) n)" using inv pc by (metis lfs_inv_def)
  then have top: "entry_of (hdr s) \<noteq> 0" "n = link s (entry_of (hdr s))" by auto
  then obtain es' where es: "es = entry_of (hdr s) # es'"
    using st chain_nonzero [of "entry_of (hdr s)" "link s" es] by (auto simp: stack_ok_def)
  then have chain: "chain (link s) (entry_of (hdr s)) (entry_of (hdr s) # es')"
    using st by (simp add: stack_ok_def)
  have "stack_ok es' (pop_desired n (hdr s)) (link s)"
    using st es top(2) chain_pop [OF chain] depth_pred [of "hdr s" "length es'"]
    by (simp add: stack_ok_def)
  moreover have "seqno (pop_desired n (hdr s)) = seqno (hdr s) + 1"
    using room sequence_succ(2) by (simp add: seqno_def)
  moreover have "entry_of (hdr s) \<notin> set es'" using st es by (simp add: stack_ok_def)
  ultimately have "lfs_inv es'
      (s\<lparr>hdr := pop_desired n (hdr s), pcs := (pcs s)(t := Pop_done (entry_of (hdr s)))\<rparr>)"
    by (intro inv_exchange [OF inv, where t = t]) (use pc es in auto)
  then show ?thesis using es by blast
qed

text \<open>Accesses that only read, or fail.\<close>

lemma inv_local:
  assumes "lfs_inv es s" "pc_ok (hdr s) (link s) pc'" "in_flight pc' = in_flight (pcs s t)"
  shows "lfs_inv es (s\<lparr>pcs := (pcs s)(t := pc')\<rparr>)"
proof (rule lfs_inv_thread [OF assms(1), where t = t and pc' = pc' and O' = "owned s t"])
  show "owned s t \<inter> in_flight pc' = {}" using assms by (simp add: lfs_inv_def)
qed (use assms in \<open>auto simp: holding_def\<close>)

lemma popped_copy_ok:
  assumes "copy_ok h (alignment x)"
  shows "pc_ok h l (popped_copy x)" "in_flight (popped_copy x) = {}"
  using assms by (simp_all add: popped_copy_def)

lemma same_region: "entry_of \<lparr>alignment = a, region = region h\<rparr> = entry_of h"
  by (simp add: entry_of_def hdr_next_def)

lemma chain_empty: "lfs_inv es s \<Longrightarrow> entry_of (hdr s) = 0 \<Longrightarrow> es = []"
  using chain_zero by (auto simp: lfs_inv_def stack_ok_def)

lemma access_ok:
  assumes inv: "lfs_inv es s" and busy: "\<not> lfs_waiting (pcs s t)"
    and acc: "lfs_step first (hdr s) (link s) (pcs s t) = (h', l', pc')"
    and room: "seqno (hdr s) + 1 < 2 ^ 48"
  shows "\<exists>es'. stack_after (lfs_effect t first (hdr s) (pcs s t)) es = Some es' \<and>
    lfs_inv es' (s\<lparr>hdr := h', link := l', pcs := (pcs s)(t := pc')\<rparr>) \<and>
    seqno h' \<le> seqno (hdr s) + 1"
proof -
  have pcok: "pc_ok (hdr s) (link s) (pcs s t)" using inv by (simp add: lfs_inv_def)
  note loc = inv_local [OF inv, of _ t]
  show ?thesis
  proof (cases "pcs s t")
    case (Push_read e)
    then show ?thesis using acc loc copy_ok_now by (cases first) auto
  next
    case (Push_half1 e a)
    then show ?thesis using acc loc pcok by auto
  next
    case (Push_half2 e r)
    then show ?thesis using acc loc copy_ok_now by auto
  next
    case (Push_link e x)
    then have "lfs_inv es (s\<lparr>hdr := h', link := l', pcs := (pcs s)(t := pc')\<rparr>)"
      by (intro inv_link [OF inv, of e t]) (use acc pcok Push_link in \<open>auto simp: holding_def\<close>)
    then show ?thesis using Push_link acc by auto
  next
    case (Push_cas e x)
    then show ?thesis
      using acc loc push_exchange [OF inv, of t e] room sequence_succ(1) [of "hdr s" e]
      by (cases "hdr s = x") (auto simp: compare_exchange_strong_def seqno_def)
  next
    case Pop_read
    then show ?thesis using acc loc copy_ok_now chain_empty [OF inv] by (cases first) auto
  next
    case (Pop_half1 a)
    then show ?thesis
      using acc loc [of pc'] pcok popped_copy_ok chain_empty [OF inv] by (auto simp: same_region)
  next
    case (Pop_half2 r)
    have "copy_ok (hdr s) (alignment \<lparr>alignment = alignment (hdr s), region = r\<rparr>)"
      using copy_ok_now by simp
    note popped_copy_ok [OF this]
    then show ?thesis using Pop_half2 acc loc [of pc'] by auto
  next
    case (Pop_next x)
    then show ?thesis using acc loc [of pc'] pcok by auto
  next
    case (Pop_cas x n)
    then show ?thesis
      using acc loc [of Pop_read] pop_exchange [OF inv, of t n] room sequence_succ(2) [of "hdr s" n]
      by (cases "hdr s = x") (auto simp: compare_exchange_strong_def seqno_def)
  qed (use busy in simp_all)
qed

lemma owned_free:
  "lfs_inv es s \<Longrightarrow> pcs s t = At_rest \<Longrightarrow> holding s t = owned s t"
  by (simp add: holding_def)

lemma step_ok:
  assumes step: "lfs_next may_free s ev s'" and inv: "lfs_inv es s"
    and room: "seqno (hdr s) + 1 < 2 ^ 48"
  shows "\<exists>es'. stack_after ev es = Some es' \<and> lfs_inv es' s' \<and> seqno (hdr s') \<le> seqno (hdr s) + 1"
  using step
proof cases
  case (call_push t e)
  have "lfs_inv es s'"
    unfolding call_push
    by (rule lfs_inv_thread [OF inv, where t = t and pc' = "Push_read e" and O' = "owned s t - {e}"])
      (use call_push in \<open>auto simp: holding_def\<close>)
  then show ?thesis using call_push by auto
next
  case (call_pop t)
  have "lfs_inv es s'"
    unfolding call_pop by (rule inv_local [OF inv]) (use call_pop in auto)
  then show ?thesis using call_pop by auto
next
  case (access t first h' l' pc')
  then show ?thesis using access_ok [OF inv access(3,4) room] by auto
next
  case (ret_push t)
  have "lfs_inv es s'"
    unfolding ret_push by (rule inv_local [OF inv]) (use ret_push in auto)
  then show ?thesis using ret_push by auto
next
  case (ret_pop t e)
  have "lfs_inv es s'"
    unfolding ret_pop
    by (rule lfs_inv_thread [OF inv, where t = t and pc' = At_rest and O' = "owned s t \<union> ({e} - {0})"])
      (use ret_pop in \<open>auto simp: holding_def\<close>)
  then show ?thesis using ret_pop by auto
next
  case (alloc e t)
  have own: "own_ok es (live s) (holding s)" using inv by (simp add: lfs_inv_def)
  have out: "e \<notin> holding s u" for u using own alloc unfolding own_ok_def by blast
  have "holding s' = (holding s)(t := insert e (holding s t))"
    using alloc by (intro ext) (auto simp: holding_def)
  moreover have "own_ok es (insert e (live s)) ((holding s)(t := insert e (holding s t)))"
    by (rule own_alloc [OF own]) (use alloc in auto)
  moreover have "owned s' u \<inter> in_flight (pcs s' u) = {}" for u
    using inv out [of u] alloc by (auto simp: lfs_inv_def holding_def)
  ultimately have "lfs_inv es s'" using inv alloc by (simp add: lfs_inv_def)
  then show ?thesis using alloc by auto
next
  case (scribble t e v)
  have "lfs_inv es s'"
    unfolding scribble
    by (rule inv_link [OF inv, where e = e and t = t and v = v and pc' = At_rest])
      (use scribble in \<open>auto simp: holding_def\<close>)
  then show ?thesis using scribble by auto
next
  case (free t e)
  have own: "own_ok es (live s) (holding s)" using inv by (simp add: lfs_inv_def)
  have "holding s' = (holding s)(t := holding s t - {e})"
    using free by (intro ext) (auto simp: holding_def)
  moreover have "own_ok es (live s - {e}) ((holding s)(t := holding s t - {e}))"
    by (rule own_free [OF own]) (use free in \<open>simp add: holding_def\<close>)
  moreover have "owned s' u \<inter> in_flight (pcs s' u) = {}" for u
    using inv free by (auto simp: lfs_inv_def)
  ultimately have "lfs_inv es s'" using inv free by (simp add: lfs_inv_def)
  then show ?thesis using free by auto
qed

lemma init_ok: "lfs_inv [] (lfs_init l)"
  by (simp add: lfs_inv_def lfs_init_def stack_ok_def own_ok_def holding_def entry_of_def hdr_simps)

lemma run_ok:
  "lfs_run may_free evs s \<Longrightarrow> length evs < 2 ^ 48 \<Longrightarrow>
     \<exists>es. replay evs = Some es \<and> lfs_inv es s \<and> seqno (hdr s) \<le> length evs"
proof (induction rule: lfs_run.induct)
  case (start l)
  then show ?case using init_ok by (auto simp: lfs_init_def seqno_def hdr_simps)
next
  case (more evs s ev s')
  then obtain es where es: "replay evs = Some es" "lfs_inv es s" "seqno (hdr s) \<le> length evs" by auto
  have "seqno (hdr s) + 1 < 2 ^ 48" using es(3) more.prems by simp
  from step_ok [OF more.hyps(2) es(2) this] es show ?case by fastforce
qed

section \<open>Calls, effects and returns alternate\<close>

lemma phase_step:
  assumes step: "lfs_next may_free s ev s'" and ph: "phase_after t evs = Some (phase_of (pcs s t))"
  shows "phase_after t (ev # evs) = Some (phase_of (pcs s' t))"
  using step
proof cases
  case (access u first h' l' pc')
  show ?thesis
  proof (cases "u = t")
    case True
    have eq: "entry_of \<lparr>alignment = a, region = r\<rparr> = push_bit 4 (drop_bit 4 r)" for a r
      by (simp add: entry_of_def hdr_next_def)
    then show ?thesis
      using access True ph
      by (cases "pcs s t"; cases first)
        (auto simp: advance_def popped_copy_def compare_exchange_strong_def
          entry_of_def hdr_next_def split: if_splits)
  next
    case False
    then have "phase_after t (lfs_effect u first (hdr s) (pcs s u) # evs) = phase_after t evs"
      by (cases "pcs s u") auto
    then show ?thesis using access False ph by simp
  qed
qed (use ph in \<open>auto simp: advance_def\<close>)

lemma run_phases: "lfs_run may_free evs s \<Longrightarrow> phase_after t evs = Some (phase_of (pcs s t))"
  by (induction rule: lfs_run.induct) (auto simp: lfs_init_def intro: phase_step)

section \<open>Operations that run alone\<close>

lemma copy_whole: "\<lparr>alignment = alignment h, region = region h\<rparr> = h"
  by simp

lemma access_run:
  assumes "lfs_run may_free evs s" "\<not> lfs_waiting (pcs s t)"
    "lfs_step first (hdr s) (link s) (pcs s t) = (h', l', pc')"
  shows "lfs_run may_free (lfs_effect t first (hdr s) (pcs s t) # evs)
    (s\<lparr>hdr := h', link := l', pcs := (pcs s)(t := pc')\<rparr>)"
  by (rule lfs_run.more [OF assms(1)]) (rule lfs_next.access [OF assms(2,3)])

lemma access_by:
  assumes run: "lfs_run may_free evs s" and "\<not> lfs_waiting (pcs s t)"
    and "lfs_step True (hdr s) (link s) (pcs s t) = (h', l', pc')"
    and "ev = lfs_effect t True (hdr s) (pcs s t)"
    and "s' = s\<lparr>hdr := h', link := l', pcs := (pcs s)(t := pc')\<rparr>"
  shows "lfs_run may_free (ev # evs) s'"
  using access_run [OF assms(1,2,3)] assms(4,5) by simp

lemma push_run:
  assumes run: "lfs_run may_free evs s" and rest: "pcs s t = At_rest" and e: "e \<in> owned s t"
  shows "lfs_run may_free
    ([Ret_push t, Lin_push t e, Tau, Tau, Tau, Call_push t e] @ evs)
    (s\<lparr>owned := (owned s)(t := owned s t - {e}), hdr := push_desired e (hdr s),
       link := (link s)(e := entry_of (hdr s))\<rparr>)"
proof -
  let ?s = "\<lambda>pc. s\<lparr>pcs := (pcs s)(t := pc), owned := (owned s)(t := owned s t - {e})\<rparr>"
  have 1: "lfs_run may_free (Call_push t e # evs) (?s (Push_read e))"
    by (rule lfs_run.more [OF run lfs_next.call_push [OF rest e]])
  have 2: "lfs_run may_free (Tau # Call_push t e # evs) (?s (Push_half1 e (alignment (hdr s))))"
    by (rule access_by [OF 1, of t]) auto
  have 3: "lfs_run may_free (Tau # Tau # Call_push t e # evs) (?s (Push_link e (hdr s)))"
    by (rule access_by [OF 2, of t]) (auto simp: copy_whole)
  have 4: "lfs_run may_free (Tau # Tau # Tau # Call_push t e # evs)
      ((?s (Push_cas e (hdr s)))\<lparr>link := (link s)(e := entry_of (hdr s))\<rparr>)"
    by (rule access_by [OF 3, of t]) auto
  have 5: "lfs_run may_free (Lin_push t e # Tau # Tau # Tau # Call_push t e # evs)
      ((?s Push_done)\<lparr>hdr := push_desired e (hdr s), link := (link s)(e := entry_of (hdr s))\<rparr>)"
    by (rule access_by [OF 4, of t]) (auto simp: compare_exchange_strong_def)
  have "(pcs s)(t := At_rest) = pcs s" using rest by (simp add: fun_upd_idem)
  then show ?thesis
    using lfs_run.more [OF 5 lfs_next.ret_push [of _ t]] by simp
qed

lemma pop_run:
  assumes run: "lfs_run may_free evs s" and rest: "pcs s t = At_rest"
    and e: "entry_of (hdr s) = e" "e \<noteq> 0"
  shows "lfs_run may_free
    ([Ret_pop t e, Lin_pop t e, Tau, Tau, Tau, Call_pop t] @ evs)
    (s\<lparr>hdr := pop_desired (link s e) (hdr s), owned := (owned s)(t := insert e (owned s t))\<rparr>)"
proof -
  let ?s = "\<lambda>pc. s\<lparr>pcs := (pcs s)(t := pc)\<rparr>"
  have 1: "lfs_run may_free (Call_pop t # evs) (?s Pop_read)"
    by (rule lfs_run.more [OF run lfs_next.call_pop [OF rest]])
  have 2: "lfs_run may_free (Tau # Call_pop t # evs) (?s (Pop_half1 (alignment (hdr s))))"
    by (rule access_by [OF 1, of t]) auto
  have 3: "lfs_run may_free (Tau # Tau # Call_pop t # evs) (?s (Pop_next (hdr s)))"
    by (rule access_by [OF 2, of t]) (use e in \<open>auto simp: popped_copy_def copy_whole\<close>)
  have 4: "lfs_run may_free (Tau # Tau # Tau # Call_pop t # evs) (?s (Pop_cas (hdr s) (link s e)))"
    by (rule access_by [OF 3, of t]) (use e in auto)
  have 5: "lfs_run may_free (Lin_pop t e # Tau # Tau # Tau # Call_pop t # evs)
      ((?s (Pop_done e))\<lparr>hdr := pop_desired (link s e) (hdr s)\<rparr>)"
    by (rule access_by [OF 4, of t]) (use e in \<open>auto simp: compare_exchange_strong_def\<close>)
  have "(pcs s)(t := At_rest) = pcs s" using rest by (simp add: fun_upd_idem)
  then show ?thesis
    using lfs_run.more [OF 5 lfs_next.ret_pop [of _ t e]] e by simp
qed

lemma alloc_run:
  assumes "lfs_run may_free evs s" "entry_ok e" "e \<notin> live s"
  shows "lfs_run may_free (Tau # evs)
    (s\<lparr>live := insert e (live s), owned := (owned s)(t := insert e (owned s t))\<rparr>)"
  by (rule lfs_run.more [OF assms(1) lfs_next.alloc [OF assms(2,3)]])

text \<open>From any point of an operation, a thread that is not disturbed ends within nine accesses.\<close>

lemma solo_completes:
  "\<not> lfs_waiting pc \<Longrightarrow> (case lfs_alone 9 first (h, l, pc) of (h', l', pc') \<Rightarrow>
     pc' = Push_done \<or> (\<exists>r. pc' = Pop_done r))"
  by (cases pc; cases first)
    (auto simp: eval_nat_numeral compare_exchange_strong_def popped_copy_def split: if_splits)

section \<open>The header never points to freed memory that an operation reads\<close>

text \<open>The access \<^verbatim>\<open>entry->next\<close> of \<^verbatim>\<open>PopEntrySList\<close> touches freed memory.\<close>

definition uses_freed :: "lfs \<Rightarrow> nat \<Rightarrow> bool" where
  "uses_freed s t \<longleftrightarrow> (\<exists>x. pcs s t = Pop_next x \<and> entry_of x \<notin> live s)"

fun copies_live :: "address set \<Rightarrow> lfs_pc \<Rightarrow> bool" where
  "copies_live L (Pop_half2 r) \<longleftrightarrow> push_bit 4 (drop_bit 4 r) \<in> insert 0 L"
| "copies_live L (Pop_next x) \<longleftrightarrow> entry_of x \<in> L"
| "copies_live L pc \<longleftrightarrow> True"

lemma copies_live_mono: "copies_live L pc \<Longrightarrow> L \<subseteq> M \<Longrightarrow> copies_live M pc"
  by (cases pc) auto

lemma header_live:
  assumes "lfs_inv es s"
  shows "entry_of (hdr s) \<in> insert 0 (live s)"
proof (cases "entry_of (hdr s) = 0")
  case False
  have "chain (link s) (entry_of (hdr s)) es" and own: "own_ok es (live s) (holding s)"
    using assms by (auto simp: lfs_inv_def stack_ok_def)
  then have "entry_of (hdr s) \<in> set es" using chain_nonzero [OF False] by fastforce
  then show ?thesis using own by (simp add: own_ok_def)
qed simp

lemma copies_step:
  assumes step: "lfs_next False s ev s'" and inv: "lfs_inv es s"
    and ok: "\<And>t. copies_live (live s) (pcs s t)"
  shows "copies_live (live s') (pcs s' t)"
  using step
proof cases
  case (access u first h' l' pc')
  have region: "push_bit 4 (drop_bit 4 (region (hdr s))) \<in> insert 0 (live s)"
    using header_live [OF inv] by (simp add: entry_of_def hdr_next_def)
  show ?thesis
  proof (cases "u = t")
    case True
    then show ?thesis
      using access ok [of t] region
      by (cases "pcs s t"; cases first)
        (auto simp: popped_copy_def compare_exchange_strong_def entry_of_def hdr_next_def
          split: if_splits)
  qed (use access ok in auto)
next
  case (alloc e u)
  then show ?thesis using ok [of t] by (auto intro: copies_live_mono)
qed (use ok in auto)

lemma run_copies:
  "lfs_run False evs s \<Longrightarrow> length evs < 2 ^ 48 \<Longrightarrow> copies_live (live s) (pcs s t)"
proof (induction arbitrary: t rule: lfs_run.induct)
  case (more evs s ev s')
  obtain es where "lfs_inv es s" using run_ok [OF more.hyps(1)] more.prems by auto
  then show ?case using copies_step [OF more.hyps(2)] more by simp
qed (simp add: lfs_init_def)

section \<open>Properties\<close>

text \<open>
  C3. The lock-free stack is linearizable: for every interleaving of fewer than 2^48 events,
  header copies torn in either order included, the effects, in the order in which they occur, are
  those of a sequential stack whose entries are the chain now in memory; and for every thread
  each effect lies between its call and its return, which returns the value of the effect.
\<close>

theorem lfs_linearizable:
  assumes "lfs_run may_free evs s" "length evs < 2 ^ 48"
  shows "\<exists>es. replay evs = Some es \<and> chain (link s) (entry_of (hdr s)) es \<and>
    (\<forall>t. phase_after t evs = Some (phase_of (pcs s t)))"
  using run_ok [OF assms] run_phases [OF assms(1)] by (auto simp: lfs_inv_def stack_ok_def)

text \<open>A run of one push and one pop, for the examples.\<close>

lemma entry_ok_16: "entry_ok 16" and entry_ok_32: "entry_ok 32"
  by (simp_all add: entry_ok_def)

lemma push_16_run:
  obtains s where "lfs_run may_free [Ret_push 1, Lin_push 1 16, Tau, Tau, Tau, Call_push 1 16, Tau] s"
    "entry_of (hdr s) = 16" "pcs s = (\<lambda>_. At_rest)" "owned s = (\<lambda>_. {})" "live s = {16}"
proof -
  note alloc = alloc_run [OF lfs_run.start [of may_free "\<lambda>_. 0"] entry_ok_16, of 1]
  have "lfs_run may_free [Tau]
      ((lfs_init (\<lambda>_. 0))\<lparr>live := {16}, owned := (\<lambda>_. {})(1 := {16})\<rparr>)"
    using alloc by (simp add: lfs_init_def)
  from push_run [OF this, of 1 16] that show ?thesis
    by (auto simp: lfs_init_def entry_of_desired fun_upd_idem)
qed

theorem lfs_linearizable_witness:
  "\<exists>s. lfs_run False [Ret_push 1, Lin_push 1 16, Tau, Tau, Tau, Call_push 1 16, Tau] s \<and>
     chain (link s) (entry_of (hdr s)) [16]"
proof -
  obtain s where s: "lfs_run False [Ret_push 1, Lin_push 1 16, Tau, Tau, Tau, Call_push 1 16, Tau] s"
    by (rule push_16_run)
  then show ?thesis using lfs_linearizable [OF s] by auto
qed

text \<open>
  No entry is lost to two places: in every state of such a run the entries on the
  stack are distinct, 16-byte aligned and allocated, nobody else holds them, no two threads hold the
  same entry, and \<^verbatim>\<open>depth\<close> is the number of entries modulo 2^16.
\<close>

theorem lfs_entries_exclusive:
  assumes "lfs_run may_free evs s" "length evs < 2 ^ 48"
  shows "\<exists>es. chain (link s) (entry_of (hdr s)) es \<and> distinct es \<and>
    (\<forall>e \<in> set es. entry_ok e \<and> e \<in> live s \<and> (\<forall>t. e \<notin> holding s t)) \<and>
    (\<forall>t u e. t \<noteq> u \<longrightarrow> e \<in> holding s t \<longrightarrow> e \<notin> holding s u) \<and>
    unat (hdr_depth (hdr s)) = length es mod 2 ^ 16"
proof -
  obtain es where inv: "lfs_inv es s" using run_ok [OF assms] by auto
  have "unat (take_bit 16 (of_nat n :: uint64)) = n mod 2 ^ 16" for n
    by (simp only: unsigned_take_bit_eq) (simp add: take_bit_eq_mod unat_of_nat mod_mod_cancel)
  moreover have "own_ok es (live s) (holding s)" "stack_ok es (hdr s) (link s)"
    using inv by (auto simp: lfs_inv_def)
  moreover from calculation(2) have "e \<notin> holding s u" if "t \<noteq> u" "e \<in> holding s t" for t u e
    using that unfolding own_ok_def by blast
  ultimately show ?thesis
    unfolding own_ok_def stack_ok_def by (intro exI [of _ es]) auto
qed

theorem lfs_entries_exclusive_witness:
  "\<exists>s. lfs_run False [Ret_push 1, Lin_push 1 16, Tau, Tau, Tau, Call_push 1 16, Tau] s \<and>
     unat (hdr_depth (hdr s)) = 1"
proof -
  obtain s where s: "lfs_run False [Ret_push 1, Lin_push 1 16, Tau, Tau, Tau, Call_push 1 16, Tau] s"
    by (rule push_16_run)
  obtain es where es: "chain (link s) (entry_of (hdr s)) es" "unat (hdr_depth (hdr s)) = length es mod 2 ^ 16"
    using lfs_entries_exclusive [OF s] by auto
  have "chain (link s) (entry_of (hdr s)) [16]"
    using run_ok [OF s] by (auto simp: lfs_inv_def stack_ok_def)
  then have "es = [16]" using es(1) by (metis chain_unique)
  then show ?thesis using s es(2) by auto
qed

text \<open>
  The read of \<^verbatim>\<open>entry->next\<close> in \<^verbatim>\<open>PopEntrySList\<close> always reads allocated memory
  as long as popped entries are never freed.
\<close>

theorem lfs_no_use_after_free:
  assumes "lfs_run False evs s" "length evs < 2 ^ 48"
  shows "\<not> uses_freed s t"
  using run_copies [OF assms, of t] by (auto simp: uses_freed_def)

theorem lfs_no_use_after_free_witness:
  "\<exists>s. lfs_run False [Ret_push 1, Lin_push 1 16, Tau, Tau, Tau, Call_push 1 16, Tau] s \<and>
     \<not> uses_freed s 1"
proof -
  obtain s where s: "lfs_run False [Ret_push 1, Lin_push 1 16, Tau, Tau, Tau, Call_push 1 16, Tau] s"
    by (rule push_16_run)
  then show ?thesis using lfs_no_use_after_free [OF s, of 1] by auto
qed

text \<open>
  Once owners may free what they popped, the stack is not safe: another thread that has
  copied the header reads \<^verbatim>\<open>next\<close> of the freed entry.
\<close>

theorem lfs_use_after_free_reachable:
  "\<exists>evs s t. lfs_run True evs s \<and> uses_freed s t"
proof -
  obtain evs s where run: "lfs_run True evs s" and s: "entry_of (hdr s) = 16"
      "pcs s = (\<lambda>_. At_rest)" "owned s = (\<lambda>_. {})" "live s = {16}"
    using push_16_run by metis
  have 1: "lfs_run True (Call_pop 2 # evs) (s\<lparr>pcs := (pcs s)(2 := Pop_read)\<rparr>)"
    by (rule lfs_run.more [OF run lfs_next.call_pop]) (simp add: s)
  have 2: "lfs_run True (Tau # Call_pop 2 # evs)
      (s\<lparr>pcs := (pcs s)(2 := Pop_half1 (alignment (hdr s)))\<rparr>)"
    by (rule access_by [OF 1, of 2]) auto
  have 3: "lfs_run True (Tau # Tau # Call_pop 2 # evs) (s\<lparr>pcs := (pcs s)(2 := Pop_next (hdr s))\<rparr>)"
    by (rule access_by [OF 2, of 2]) (auto simp: s popped_copy_def copy_whole)
  from pop_run [OF this, of 1 16]
  obtain evs4 s4 where run4: "lfs_run True evs4 s4" and s4: "pcs s4 1 = At_rest"
      "pcs s4 2 = Pop_next (hdr s)" "16 \<in> owned s4 1"
    using s by auto
  let ?s = "s4\<lparr>live := live s4 - {16}, owned := (owned s4)(1 := owned s4 1 - {16})\<rparr>"
  have "lfs_run True (Tau # evs4) ?s"
    by (rule lfs_run.more [OF run4 lfs_next.free]) (use s4 in auto)
  moreover have "uses_freed ?s 2" using s4 s(1) by (simp add: uses_freed_def)
  ultimately show ?thesis by blast
qed

text \<open>
  From any point of a push or pop, stale copies included, a thread that runs without
  interference completes within nine accesses.
\<close>

theorem lfs_obstruction_free:
  assumes "\<not> lfs_waiting pc"
  shows "case lfs_alone 9 first (h, l, pc) of (h', l', pc') \<Rightarrow>
    pc' = Push_done \<or> (\<exists>r. pc' = Pop_done r)"
  using solo_completes [OF assms] .

theorem lfs_obstruction_free_witness:
  "case lfs_alone 9 True (InitializeHead, (\<lambda>_. 0), Push_read 16) of (h', l', pc') \<Rightarrow>
    pc' = Push_done \<or> (\<exists>r. pc' = Pop_done r)"
  by (rule lfs_obstruction_free) simp

end
