(* ===== verification/Slist_Interface.thy ===== *)
theory Slist_Interface
  imports Lock_Free_Stack
begin

text \<open>
  The interlocked singly linked lists that \<^verbatim>\<open>ServerCore/MemoryPool.cpp\<close> uses through the
  Windows API (\<^verbatim>\<open>InitializeSListHead\<close>, \<^verbatim>\<open>InterlockedPushEntrySList\<close>,
  \<^verbatim>\<open>InterlockedPopEntrySList\<close>). The API is not part of the repository: its three functions
  are the record \<open>slist_ops\<close>, an argument of the pools, and its documented behaviour, a stack of
  entries, is the locale \<open>slist\<close>. \<^verbatim>\<open>GameServer/LockFreeStack.cpp\<close> is the repository's
  own implementation of the same three functions; it satisfies the locale.
\<close>

record 's slist_ops =
  new_list :: 's
  push_entry :: "address \<Rightarrow> 's \<Rightarrow> 's"
  pop_entry :: "'s \<Rightarrow> address \<times> 's"  \<comment> \<open>the null pointer when the list is empty\<close>

locale slist =
  fixes ops :: "'s slist_ops" and entries :: "'s \<Rightarrow> address list" and ok :: "'s \<Rightarrow> bool"
  assumes new_ok: "ok (new_list ops)" "entries (new_list ops) = []"
    and push_ok: "ok s \<Longrightarrow> entry_ok e \<Longrightarrow> e \<notin> set (entries s) \<Longrightarrow>
      ok (push_entry ops e s) \<and> entries (push_entry ops e s) = e # entries s"
    and pop_nothing: "ok s \<Longrightarrow> entries s = [] \<Longrightarrow> fst (pop_entry ops s) = 0 \<and>
      ok (snd (pop_entry ops s)) \<and> entries (snd (pop_entry ops s)) = []"
    and pop_top: "ok s \<Longrightarrow> entries s = e # es \<Longrightarrow> fst (pop_entry ops s) = e \<and>
      ok (snd (pop_entry ops s)) \<and> entries (snd (pop_entry ops s)) = es"
    and entries_ok: "ok s \<Longrightarrow> e \<in> set (entries s) \<Longrightarrow> entry_ok e"
    and entries_distinct: "ok s \<Longrightarrow> distinct (entries s)"

context slist begin

lemma pop_zero_iff:
  assumes "ok s"
  shows "fst (pop_entry ops s) = 0 \<longleftrightarrow> entries s = []"
proof (cases "entries s")
  case (Cons e es)
  then have "entry_ok e" using entries_ok [OF assms, of e] by simp
  then show ?thesis using pop_top [OF assms Cons] Cons by (simp add: entry_ok_def)
qed (use pop_nothing [OF assms] in simp)

lemma pop_entries:
  assumes "ok s"
  shows "ok (snd (pop_entry ops s))" "entries (snd (pop_entry ops s)) = tl (entries s)"
  using pop_nothing [OF assms] pop_top [OF assms] by (cases "entries s"; simp)+

lemma pop_push: "ok s \<Longrightarrow> entry_ok e \<Longrightarrow> e \<notin> set (entries s) \<Longrightarrow>
    fst (pop_entry ops (push_entry ops e s)) = e \<and>
    entries (snd (pop_entry ops (push_entry ops e s))) = entries s"
  using push_ok pop_top by blast

end

section \<open>The repository's own list\<close>

definition lock_free_ops :: "(SListHeader \<times> links) slist_ops" where
  "lock_free_ops = \<lparr>new_list = (InitializeHead, \<lambda>_. 0), push_entry = PushEntrySList,
     pop_entry = PopEntrySList\<rparr>"

definition lock_free_ok :: "SListHeader \<times> links \<Rightarrow> bool" where
  "lock_free_ok s \<longleftrightarrow> (\<exists>es. chain (snd s) (entry_of (fst s)) es \<and> distinct es)"

definition lock_free_entries :: "SListHeader \<times> links \<Rightarrow> address list" where
  "lock_free_entries s = (THE es. chain (snd s) (entry_of (fst s)) es)"

lemma lock_free_entries_eq: "chain l (entry_of h) es \<Longrightarrow> lock_free_entries (h, l) = es"
  unfolding lock_free_entries_def by (rule the_equality) (auto dest: chain_unique)

lemma lock_free_okI:
  "chain l (entry_of h) es \<Longrightarrow> distinct es \<Longrightarrow> lock_free_ok (h, l) \<and> lock_free_entries (h, l) = es"
  using lock_free_entries_eq by (auto simp: lock_free_ok_def)

lemma lock_free_okE:
  assumes "lock_free_ok s"
  obtains h l where "s = (h, l)" "chain l (entry_of h) (lock_free_entries s)"
    "distinct (lock_free_entries s)"
proof -
  obtain es where es: "chain (snd s) (entry_of (fst s)) es" "distinct es"
    using assms by (auto simp: lock_free_ok_def)
  then have "lock_free_entries s = es" using lock_free_entries_eq [of "snd s" "fst s"] by simp
  then show thesis using es that [of "fst s" "snd s"] by simp
qed

lemma lock_free_push:
  assumes "lock_free_ok s" "entry_ok e" "e \<notin> set (lock_free_entries s)"
  shows "lock_free_ok (PushEntrySList e s) \<and>
    lock_free_entries (PushEntrySList e s) = e # lock_free_entries s"
proof -
  obtain h l where s: "s = (h, l)" "chain l (entry_of h) (lock_free_entries s)"
    "distinct (lock_free_entries s)" by (rule lock_free_okE [OF assms(1)])
  show ?thesis
    using lock_free_okI [OF chain_push [OF s(2) assms(2,3)]] s assms(3)
    by (simp add: PushEntrySList_def)
qed

lemma lock_free_pop:
  assumes "lock_free_ok s"
  shows "lock_free_entries s = [] \<Longrightarrow> PopEntrySList s = (0, s)"
    and "lock_free_entries s = e # es \<Longrightarrow> fst (PopEntrySList s) = e \<and>
      lock_free_ok (snd (PopEntrySList s)) \<and> lock_free_entries (snd (PopEntrySList s)) = es"
proof -
  obtain h l where s: "s = (h, l)" "chain l (entry_of h) (lock_free_entries s)"
    "distinct (lock_free_entries s)" by (rule lock_free_okE [OF assms])
  show "lock_free_entries s = [] \<Longrightarrow> PopEntrySList s = (0, s)"
    using s by (simp add: PopEntrySList_def)
  assume es: "lock_free_entries s = e # es"
  then have top: "entry_of h = e" "entry_ok e" using s(2) by auto
  have "chain l (entry_of h) (e # es)" using s(2) es by simp
  from lock_free_okI [OF chain_pop [OF this]] s(3) es top
  show "fst (PopEntrySList s) = e \<and>
      lock_free_ok (snd (PopEntrySList s)) \<and> lock_free_entries (snd (PopEntrySList s)) = es"
    using s(1) by (simp add: PopEntrySList_def entry_ok_def)
qed

lemma lock_free_members:
  assumes "lock_free_ok s"
  shows "e \<in> set (lock_free_entries s) \<Longrightarrow> entry_ok e" "distinct (lock_free_entries s)"
  using assms by (auto elim!: lock_free_okE dest: chain_entries)

interpretation lock_free: slist lock_free_ops lock_free_entries lock_free_ok
proof unfold_locales
  have new: "lock_free_ok (InitializeHead, \<lambda>_. 0) \<and> lock_free_entries (InitializeHead, \<lambda>_. 0) = []"
    by (rule lock_free_okI) (simp_all add: entry_of_def hdr_simps)
  show "lock_free_ok (new_list lock_free_ops)" "lock_free_entries (new_list lock_free_ops) = []"
    using new by (simp_all add: lock_free_ops_def)
qed (auto simp: lock_free_ops_def lock_free_push lock_free_pop lock_free_members
    dest: lock_free_members)

section \<open>A stack\<close>

fun push_all :: "address list \<Rightarrow> SListHeader \<times> links \<Rightarrow> SListHeader \<times> links" where
  "push_all [] s = s"
| "push_all (e # es) s = push_all es (PushEntrySList e s)"

fun pop_times :: "nat \<Rightarrow> SListHeader \<times> links \<Rightarrow> address list" where
  "pop_times 0 s = []"
| "pop_times (Suc n) s = (case PopEntrySList s of (e, s') \<Rightarrow> e # pop_times n s')"

lemma push_all_entries:
  "lock_free_ok s \<Longrightarrow> distinct es \<Longrightarrow> \<forall>e \<in> set es. entry_ok e \<and> e \<notin> set (lock_free_entries s) \<Longrightarrow>
     lock_free_ok (push_all es s) \<and> lock_free_entries (push_all es s) = rev es @ lock_free_entries s"
proof (induction es arbitrary: s)
  case (Cons e es)
  then have "lock_free_ok (PushEntrySList e s)"
    "lock_free_entries (PushEntrySList e s) = e # lock_free_entries s"
    using lock_free_push [of s e] by auto
  then show ?case using Cons.IH [of "PushEntrySList e s"] Cons.prems by auto
qed simp

lemma pop_times_entries:
  "lock_free_ok s \<Longrightarrow> pop_times (length (lock_free_entries s) + 1) s = lock_free_entries s @ [0]"
proof (induction "lock_free_entries s" arbitrary: s)
  case Nil
  then show ?case using lock_free_pop(1) [of s] by simp
next
  case (Cons e es)
  obtain s' where s': "PopEntrySList s = (e, s')" "lock_free_ok s'" "lock_free_entries s' = es"
    using lock_free_pop(2) [OF Cons.prems, of e es] Cons.hyps(2)
    by (cases "PopEntrySList s") simp
  then show ?case using Cons.hyps(1) [of s'] Cons.hyps(2) by (simp flip: Cons.hyps(2))
qed

text \<open>
  Run without interference, the list of \<^verbatim>\<open>LockFreeStack.cpp\<close> is a stack: entries pushed one
  after another are popped in the opposite order, and then \<^verbatim>\<open>PopEntrySList\<close> returns null.
\<close>

theorem lock_free_stack_is_lifo:
  assumes "distinct es" "\<forall>e \<in> set es. entry_ok e"
  shows "pop_times (length es + 1) (push_all es (InitializeHead, l)) = rev es @ [0]"
proof -
  have "lock_free_ok (InitializeHead, l) \<and> lock_free_entries (InitializeHead, l) = []"
    by (rule lock_free_okI) (simp_all add: entry_of_def hdr_simps)
  then show ?thesis
    using push_all_entries [of "(InitializeHead, l)" es] assms
      pop_times_entries [of "push_all es (InitializeHead, l)"] by simp
qed

theorem lock_free_stack_is_lifo_witness:
  "pop_times (length [16, 48, 32 :: address] + 1) (push_all [16, 48, 32] (InitializeHead, \<lambda>_. 0)) = [32, 48, 16, 0]"
  using lock_free_stack_is_lifo [of "[16, 48, 32]" "\<lambda>_. 0"]
  by (simp add: entry_ok_def del: pop_times.simps push_all.simps)

end
