(* ===== verification/Memory_Pool.thy ===== *)
theory Memory_Pool
  imports Slist_Interface
begin

text \<open>
  The pooled allocator: \<^verbatim>\<open>ServerCore/MemoryPool.h\<close>, \<^verbatim>\<open>ServerCore/MemoryPool.cpp\<close>,
  \<^verbatim>\<open>ServerCore/Memory.h\<close> and \<^verbatim>\<open>ServerCore/Memory.cpp\<close> (with \<^verbatim>\<open>_STOMP\<close> off,
  as in \<^verbatim>\<open>Types.h\<close>).

  \<^verbatim>\<open>_aligned_malloc\<close> is the parameter \<open>am\<close>: the address it returns for a size, by the blocks now
  allocated, 0 when it fails; \<open>malloc_ok\<close> is what its documentation says. The lists of the
  pools are the parameter \<open>ops\<close>. Of the memory of a block only \<^verbatim>\<open>MemoryHeader::allocSize\<close> is
  kept; the address of a header is \<^verbatim>\<open>sizeof(MemoryHeader)\<close> = 32 below the data. An access to
  memory that is not allocated is \<open>UB\<close>.
\<close>

section \<open>Memory\<close>

definition SLIST_ALIGNMENT :: int where "SLIST_ALIGNMENT = 16"
definition sizeof_MemoryHeader :: int where "sizeof_MemoryHeader = 32"
definition MAX_ALLOC_SIZE :: int where "MAX_ALLOC_SIZE = 4096"
definition POOL_COUNT :: int where
  "POOL_COUNT = 1024 div 32 + 2048 div 128 + 4096 div 256"

record heap =
  blocks :: "address \<Rightarrow> int option"  \<comment> \<open>the blocks of \<open>_aligned_malloc\<close> and their sizes\<close>
  allocSize :: "address \<Rightarrow> int"      \<comment> \<open>\<open>MemoryHeader::allocSize\<close> at a header\<close>

type_synonym malloc = "(address \<Rightarrow> int option) \<Rightarrow> int \<Rightarrow> address"

definition apart :: "nat \<Rightarrow> int \<Rightarrow> nat \<Rightarrow> int \<Rightarrow> bool" where
  "apart a m b n \<longleftrightarrow> int a + m \<le> int b \<or> int b + n \<le> int a"

definition malloc_ok :: "malloc \<Rightarrow> bool" where
  "malloc_ok am \<longleftrightarrow> (\<forall>bs n. 0 < n \<longrightarrow> am bs n \<noteq> 0 \<longrightarrow>
     am bs n AND 0xF = 0 \<and> bs (am bs n) = None \<and> int (unat (am bs n)) + n < 2 ^ 64 \<and>
     (\<forall>b m. bs b = Some m \<longrightarrow> apart (unat (am bs n)) n (unat b) m))"

definition AttachHeader :: "address \<Rightarrow> int \<Rightarrow> heap \<Rightarrow> (address \<times> heap) outcome" where
  "AttachHeader header sz h =
     (if blocks h header = None then Inl (UB ''AttachHeader'')
      else Inr (header + 32, h\<lparr>allocSize := (allocSize h)(header := sz)\<rparr>))"

definition DetechHeader :: "address \<Rightarrow> address" where
  "DetechHeader ptr = ptr - 32"

section \<open>MemoryPool\<close>

record 's pool =
  pool_list :: 's
  pool_allocSize :: int
  useCount :: int
  reserveCount :: int

definition MemoryPool_ctor :: "'s slist_ops \<Rightarrow> int \<Rightarrow> 's pool" where
  "MemoryPool_ctor ops sz =
     \<lparr>pool_list = new_list ops, pool_allocSize = sz, useCount = 0, reserveCount = 0\<rparr>"

definition Pool_Push :: "'s slist_ops \<Rightarrow> address \<Rightarrow> 's pool \<Rightarrow> heap \<Rightarrow> ('s pool \<times> heap) outcome" where
  "Pool_Push ops ptr p h =
     (if blocks h ptr = None then Inl (UB ''Push'')
      else Inr (p\<lparr>pool_list := push_entry ops ptr (pool_list p),
          useCount := to_int32 (useCount p - 1), reserveCount := to_int32 (reserveCount p + 1)\<rparr>,
        h\<lparr>allocSize := (allocSize h)(ptr := 0)\<rparr>))"

definition Pool_Pop ::
  "'s slist_ops \<Rightarrow> malloc \<Rightarrow> 's pool \<Rightarrow> heap \<Rightarrow> (address \<times> 's pool \<times> heap) outcome" where
  "Pool_Pop ops am p h = (case pop_entry ops (pool_list p) of (memory, l) \<Rightarrow>
     if memory = 0 then
       (let a = am (blocks h) (pool_allocSize p) in
        Inr (a, p\<lparr>pool_list := l, useCount := to_int32 (useCount p + 1)\<rparr>,
          if a = 0 then h else h\<lparr>blocks := (blocks h)(a \<mapsto> pool_allocSize p)\<rparr>))
     else if blocks h memory = None then Inl (UB ''Pop'')
     else and_then (ASSERT_CRASH (allocSize h memory = 0)) (\<lambda>_.
       Inr (memory, p\<lparr>pool_list := l, reserveCount := to_int32 (reserveCount p - 1),
         useCount := to_int32 (useCount p + 1)\<rparr>, h)))"

text \<open>\<^verbatim>\<open>~MemoryPool\<close>: the loop runs until the list is empty; \<open>fuel\<close> bounds it.\<close>

fun MemoryPool_dtor :: "nat \<Rightarrow> 's slist_ops \<Rightarrow> 's \<Rightarrow> heap \<Rightarrow> heap option" where
  "MemoryPool_dtor 0 ops l h = None"
| "MemoryPool_dtor (Suc fuel) ops l h = (case pop_entry ops l of (memory, l') \<Rightarrow>
     if memory = 0 then Some h
     else MemoryPool_dtor fuel ops l' (h\<lparr>blocks := (blocks h)(memory := None)\<rparr>))"

section \<open>Memory\<close>

record 's memory =
  pools :: "'s pool list"
  poolTable :: "nat \<Rightarrow> nat option"  \<comment> \<open>the index in \<open>_pools\<close>\<close>

record 's build = "'s memory" +
  tableIndex :: nat

function fill_table :: "nat \<Rightarrow> nat \<Rightarrow> nat \<Rightarrow> (nat \<Rightarrow> nat option) \<Rightarrow> nat \<times> (nat \<Rightarrow> nat option)" where
  "fill_table sz pool idx tab =
     (if idx \<le> sz then fill_table sz pool (idx + 1) (tab(idx \<mapsto> pool)) else (idx, tab))"
  by pat_completeness auto
termination by (relation "measure (\<lambda>(sz, pool, idx, tab). sz + 1 - idx)") auto

declare fill_table.simps [simp del]

definition add_pool :: "'s slist_ops \<Rightarrow> nat \<Rightarrow> 's build \<Rightarrow> 's build" where
  "add_pool ops sz b =
     (case fill_table sz (length (pools b)) (tableIndex b) (poolTable b) of (idx, tab) \<Rightarrow>
        b\<lparr>pools := pools b @ [MemoryPool_ctor ops (int sz)], poolTable := tab, tableIndex := idx\<rparr>)"

text \<open>\<^verbatim>\<open>for (size = first; size <= limit; size += step)\<close>.\<close>

function add_pools :: "'s slist_ops \<Rightarrow> nat \<Rightarrow> nat \<Rightarrow> nat \<Rightarrow> 's build \<Rightarrow> 's build" where
  "add_pools ops step limit sz b =
     (if 0 < step \<and> sz \<le> limit then add_pools ops step limit (sz + step) (add_pool ops sz b)
      else b)"
  by pat_completeness auto
termination by (relation "measure (\<lambda>(ops, step, limit, sz, b). limit + 1 - sz)") auto

declare add_pools.simps [simp del]

definition Memory_ctor :: "'s slist_ops \<Rightarrow> 's memory" where
  "Memory_ctor ops = memory.truncate
     (add_pools ops 256 4096 2048 (add_pools ops 128 2048 1024 (add_pools ops 32 1024 32
        \<lparr>pools = [], poolTable = (\<lambda>_. None), tableIndex = 0\<rparr>)))"

text \<open>
  \<^verbatim>\<open>_poolTable[allocSize]\<close>: the sum \<^verbatim>\<open>size + sizeof(MemoryHeader)\<close> is cut to 32 bits, so it can be
  negative, and an index outside of the table is undefined.
\<close>

definition pool_for :: "'s memory \<Rightarrow> int \<Rightarrow> nat option" where
  "pool_for m sz = (if sz < 0 then None else poolTable m (nat sz))"

definition Allocate ::
  "'s slist_ops \<Rightarrow> malloc \<Rightarrow> int \<Rightarrow> 's memory \<Rightarrow> heap \<Rightarrow> (address \<times> 's memory \<times> heap) outcome" where
  "Allocate ops am sz m h =
     (let asize = to_int32 (sz + sizeof_MemoryHeader) in
      if MAX_ALLOC_SIZE < asize then
        (let a = am (blocks h) asize;
             h' = (if a = 0 then h else h\<lparr>blocks := (blocks h)(a \<mapsto> asize)\<rparr>)
         in and_then (AttachHeader a asize h') (\<lambda>(ptr, h''). Inr (ptr, m, h'')))
      else (case pool_for m asize of
          None \<Rightarrow> Inl (UB ''_poolTable'')
        | Some i \<Rightarrow> and_then (Pool_Pop ops am (pools m ! i) h) (\<lambda>(header, p, h').
            and_then (AttachHeader header asize h') (\<lambda>(ptr, h'').
              Inr (ptr, m\<lparr>pools := (pools m)[i := p]\<rparr>, h'')))))"

definition Release ::
  "'s slist_ops \<Rightarrow> address \<Rightarrow> 's memory \<Rightarrow> heap \<Rightarrow> ('s memory \<times> heap) outcome" where
  "Release ops ptr m h =
     (let header = DetechHeader ptr; asize = allocSize h header in
      if blocks h header = None then Inl (UB ''Release'')
      else and_then (ASSERT_CRASH (asize > 0)) (\<lambda>_.
        if MAX_ALLOC_SIZE < asize then Inr (m, h\<lparr>blocks := (blocks h)(header := None)\<rparr>)
        else (case pool_for m asize of
            None \<Rightarrow> Inl (UB ''_poolTable'')
          | Some i \<Rightarrow> and_then (Pool_Push ops header (pools m ! i) h) (\<lambda>(p, h').
              Inr (m\<lparr>pools := (pools m)[i := p]\<rparr>, h')))))"

text \<open>\<^verbatim>\<open>~Memory\<close> deletes the pools in order.\<close>

fun Memory_dtor :: "nat \<Rightarrow> 's slist_ops \<Rightarrow> 's pool list \<Rightarrow> heap \<Rightarrow> heap option" where
  "Memory_dtor fuel ops [] h = Some h"
| "Memory_dtor fuel ops (p # ps) h =
     Option.bind (MemoryPool_dtor fuel ops (pool_list p) h) (Memory_dtor fuel ops ps)"

end
