(* ===== verification/Pool_Table.thy ===== *)
theory Pool_Table
  imports Memory_Pool
begin

text \<open>
  The table that the constructor of \<^verbatim>\<open>Memory\<close> builds: every size up to 4096 gets the first pool
  that is large enough, which is a smallest one. The second pool of size 1024 and the second one
  of size 2048 are in no entry of the table.
\<close>

section \<open>First fit\<close>

fun first_fit :: "nat list \<Rightarrow> nat \<Rightarrow> nat option" where
  "first_fit [] n = None"
| "first_fit (s # ss) n = (if n \<le> s then Some 0 else map_option Suc (first_fit ss n))"

lemma first_fit_append:
  "first_fit (ss @ ts) n = (case first_fit ss n of Some i \<Rightarrow> Some i
     | None \<Rightarrow> map_option ((+) (length ss)) (first_fit ts n))"
proof (induction ss)
  case Nil
  then show ?case by (cases "first_fit ts n") auto
next
  case (Cons s ss)
  then show ?case by (cases "first_fit ss n"; cases "first_fit ts n") auto
qed

lemma first_fit_Some:
  "first_fit ss n = Some i \<longleftrightarrow> i < length ss \<and> n \<le> ss ! i \<and> (\<forall>j < i. ss ! j < n)"
proof (induction ss arbitrary: i)
  case (Cons s ss)
  then show ?case by (cases i) (auto simp: less_Suc_eq_0_disj)
qed simp

lemma first_fit_None: "first_fit ss n = None \<longleftrightarrow> (\<forall>s \<in> set ss. s < n)"
  by (induction ss) auto

lemma first_fit_least:
  assumes "sorted ss" "first_fit ss n = Some i" "j < length ss" "n \<le> ss ! j"
  shows "ss ! i \<le> ss ! j"
  using assms by (metis first_fit_Some not_le sorted_nth_mono)

section \<open>Building the table\<close>

lemma fill_table_eq:
  "fill_table sz pool idx tab =
     (max idx (sz + 1), \<lambda>n. if idx \<le> n \<and> n \<le> sz then Some pool else tab n)"
proof (induction sz pool idx tab rule: fill_table.induct)
  case (1 sz pool idx tab)
  show ?case
  proof (cases "idx \<le> sz")
    case True
    have eq: "fill_table sz pool idx tab = fill_table sz pool (idx + 1) (tab(idx \<mapsto> pool))"
      using True by (subst fill_table.simps) simp
    show ?thesis unfolding eq "1.IH" [OF True] using True by (auto simp: max_def)
  next
    case False
    then show ?thesis by (subst fill_table.simps) (auto simp: max_def fun_eq_iff)
  qed
qed

definition build_ok :: "'s slist_ops \<Rightarrow> 's build \<Rightarrow> nat list \<Rightarrow> bool" where
  "build_ok ops b ss \<longleftrightarrow> pools b = map (\<lambda>s. MemoryPool_ctor ops (int s)) ss \<and>
     poolTable b = first_fit ss \<and> (\<forall>n. first_fit ss n = None \<longleftrightarrow> tableIndex b \<le> n)"

lemma add_pool_ok:
  assumes "build_ok ops b ss"
  shows "build_ok ops (add_pool ops sz b) (ss @ [sz])"
proof -
  have tab: "first_fit ss n = None \<longleftrightarrow> tableIndex b \<le> n" for n
    using assms by (simp add: build_ok_def)
  have len: "length (pools b) = length ss" using assms by (simp add: build_ok_def)
  have "first_fit (ss @ [sz]) n =
      (if tableIndex b \<le> n \<and> n \<le> sz then Some (length ss) else first_fit ss n)" for n
    using tab [of n] by (cases "first_fit ss n") (auto simp: first_fit_append)
  moreover have "first_fit (ss @ [sz]) n = None \<longleftrightarrow> max (tableIndex b) (sz + 1) \<le> n" for n
    using tab [of n] by (cases "first_fit ss n") (auto simp: first_fit_append)
  ultimately show ?thesis
    using assms len by (auto simp: build_ok_def add_pool_def fill_table_eq fun_eq_iff)
qed

fun sizes_by :: "nat \<Rightarrow> nat \<Rightarrow> nat \<Rightarrow> nat list" where
  "sizes_by step 0 sz = []"
| "sizes_by step (Suc k) sz = sz # sizes_by step k (sz + step)"

lemma add_pools_ok:
  "build_ok ops b ss \<Longrightarrow> 0 < step \<Longrightarrow> limit = sz + k * step \<Longrightarrow>
     build_ok ops (add_pools ops step limit sz b) (ss @ sizes_by step (Suc k) sz)"
proof (induction k arbitrary: b ss sz)
  case 0
  have "add_pools ops step limit sz b = add_pool ops sz b"
    using 0 by (subst add_pools.simps, simp) (subst add_pools.simps, simp)
  then show ?case using add_pool_ok [OF 0(1)] by simp
next
  case (Suc k)
  have "add_pools ops step limit sz b = add_pools ops step limit (sz + step) (add_pool ops sz b)"
    using Suc.prems by (subst add_pools.simps) simp
  then show ?case
    using Suc.IH [OF add_pool_ok [OF Suc.prems(1)], of "sz + step"] Suc.prems by simp
qed

definition pool_sizes :: "nat list" where
  "pool_sizes = sizes_by 32 32 32 @ sizes_by 128 9 1024 @ sizes_by 256 9 2048"

lemma Memory_ctor_eq:
  "Memory_ctor ops = \<lparr>pools = map (\<lambda>s. MemoryPool_ctor ops (int s)) pool_sizes,
     poolTable = first_fit pool_sizes\<rparr>"
proof -
  let ?b0 = "\<lparr>pools = [], poolTable = (\<lambda>_. None), tableIndex = 0\<rparr> :: 'a build"
  have "build_ok ops ?b0 []" by (simp add: build_ok_def fun_eq_iff)
  from add_pools_ok [OF this, of 32 1024 32 31]
  have "build_ok ops (add_pools ops 32 1024 32 ?b0) (sizes_by 32 32 32)" by (simp add: eval_nat_numeral)
  from add_pools_ok [OF this, of 128 2048 1024 8]
  have "build_ok ops (add_pools ops 128 2048 1024 (add_pools ops 32 1024 32 ?b0))
    (sizes_by 32 32 32 @ sizes_by 128 9 1024)" by (simp add: eval_nat_numeral)
  from add_pools_ok [OF this, of 256 4096 2048 8]
  have "build_ok ops (add_pools ops 256 4096 2048 (add_pools ops 128 2048 1024
      (add_pools ops 32 1024 32 ?b0))) pool_sizes"
    by (simp add: pool_sizes_def eval_nat_numeral)
  then show ?thesis
    by (simp add: Memory_ctor_def build_ok_def memory.truncate_def)
qed

section \<open>The sizes\<close>

lemma sizes_by_length [simp]: "length (sizes_by step k sz) = k"
  by (induction k arbitrary: sz) auto

lemma sizes_by_nth: "i < k \<Longrightarrow> sizes_by step k sz ! i = sz + i * step"
  by (induction k arbitrary: sz i) (auto simp: nth_Cons split: nat.splits)

lemma sizes_by_set: "s \<in> set (sizes_by step k sz) \<longleftrightarrow> (\<exists>i < k. s = sz + i * step)"
  by (auto simp: in_set_conv_nth sizes_by_nth)

lemma sizes_by_sorted: "sorted (sizes_by step k sz)"
  by (induction k arbitrary: sz) (auto simp: sizes_by_set)

lemma pool_sizes_length: "length pool_sizes = 50"
  by (simp add: pool_sizes_def)

lemma pool_sizes_sorted: "sorted pool_sizes"
  by (auto simp: pool_sizes_def sorted_append sizes_by_sorted sizes_by_set)

lemma pool_sizes_range: "s \<in> set pool_sizes \<Longrightarrow> 32 \<le> s \<and> s \<le> 4096"
  by (auto simp: pool_sizes_def sizes_by_set)

lemma pool_sizes_member:
  "s \<in> set pool_sizes \<longleftrightarrow> (\<exists>i < 32. s = 32 + i * 32) \<or> (\<exists>i < 9. s = 1024 + i * 128) \<or>
     (\<exists>i < 9. s = 2048 + i * 256)"
  by (auto simp: pool_sizes_def sizes_by_set)

text \<open>A pool size close above every size.\<close>

lemma multiple_above:
  fixes n d :: nat
  assumes "0 < d"
  shows "n \<le> ((n + d - 1) div d) * d" "((n + d - 1) div d) * d < n + d"
proof -
  have "(n + d - 1) div d * d + (n + d - 1) mod d = n + d - 1" by simp
  moreover have "(n + d - 1) mod d < d" using assms by simp
  ultimately show "n \<le> ((n + d - 1) div d) * d" "((n + d - 1) div d) * d < n + d"
    using assms by linarith+
qed

lemma size_above:
  assumes "0 < n" "n \<le> 4096"
  shows "\<exists>s \<in> set pool_sizes. n \<le> s \<and>
    s < n + (if n \<le> 1024 then 32 else if n \<le> 2048 then 128 else 256)"
proof -
  define d :: nat where "d = (if n \<le> 1024 then 32 else if n \<le> 2048 then 128 else 256)"
  define q where "q = (n + d - 1) div d"
  have d: "0 < d" by (simp add: d_def)
  have bounds: "n \<le> q * d" "q * d < n + d" using multiple_above [OF d, of n] by (simp_all add: q_def)
  have "q * d \<in> set pool_sizes"
  proof -
    consider "n \<le> 1024" "d = 32" | "1024 < n" "n \<le> 2048" "d = 128" | "2048 < n" "d = 256"
      using assms by (cases "n \<le> 1024"; cases "n \<le> 2048") (auto simp: d_def)
    then show ?thesis
    proof cases
      case 1
      have "1 \<le> q \<and> q - 1 < 32" using bounds assms 1 by auto
      then have "q - 1 < 32 \<and> q * d = 32 + (q - 1) * 32" using 1 by auto
      then show ?thesis unfolding pool_sizes_member by blast
    next
      case 2
      have "8 \<le> q \<and> q - 8 < 9" using bounds 2 by auto
      then have "q - 8 < 9 \<and> q * d = 1024 + (q - 8) * 128" using 2 by auto
      then show ?thesis unfolding pool_sizes_member by blast
    next
      case 3
      have "8 \<le> q \<and> q - 8 < 9" using bounds assms 3 by auto
      then have "q - 8 < 9 \<and> q * d = 2048 + (q - 8) * 256" using 3 by auto
      then show ?thesis unfolding pool_sizes_member by blast
    qed
  qed
  then show ?thesis using bounds unfolding d_def by blast
qed

lemma fits: "n \<le> 4096 \<Longrightarrow> \<exists>i. first_fit pool_sizes n = Some i"
proof -
  assume "n \<le> 4096"
  moreover have "4096 \<in> set pool_sizes" unfolding pool_sizes_member by (auto intro: exI [of _ 8])
  ultimately have "first_fit pool_sizes n \<noteq> None" unfolding first_fit_None by force
  then show ?thesis by blast
qed

lemma fits_only: "first_fit pool_sizes n = Some i \<Longrightarrow> n \<le> 4096 \<and> i < 50 \<and> n \<le> pool_sizes ! i"
proof -
  assume fit: "first_fit pool_sizes n = Some i"
  then have i: "i < length pool_sizes" "n \<le> pool_sizes ! i" by (auto simp: first_fit_Some)
  then have "pool_sizes ! i \<in> set pool_sizes" by simp
  then show "n \<le> 4096 \<and> i < 50 \<and> n \<le> pool_sizes ! i"
    using i pool_sizes_range [of "pool_sizes ! i"] pool_sizes_length by simp
qed

text \<open>
  C24. The table has an entry for exactly the sizes up to 4096. The entry is a pool whose
  blocks are large enough and no larger than those of any other pool large enough, so that less than
  32, 128 or 256 bytes of a block are unused, by the range of the size.
\<close>

theorem pool_table_smallest_fit:
  assumes "pool_for (Memory_ctor ops) (int n) = Some i \<or> n \<le> 4096"
  shows "\<exists>i. pool_for (Memory_ctor ops) (int n) = Some i \<and> n \<le> 4096 \<and>
    i < length (pools (Memory_ctor ops)) \<and>
    int n \<le> pool_allocSize (pools (Memory_ctor ops) ! i) \<and>
    (\<forall>p \<in> set (pools (Memory_ctor ops)). int n \<le> pool_allocSize p \<longrightarrow>
       pool_allocSize (pools (Memory_ctor ops) ! i) \<le> pool_allocSize p) \<and>
    (0 < n \<longrightarrow> pool_allocSize (pools (Memory_ctor ops) ! i) <
       int n + (if n \<le> 1024 then 32 else if n \<le> 2048 then 128 else 256))"
proof -
  have tab: "pool_for (Memory_ctor ops) (int n) = first_fit pool_sizes n"
    by (simp add: pool_for_def Memory_ctor_eq)
  then have n: "n \<le> 4096" using assms fits_only by auto
  then obtain i where i: "first_fit pool_sizes n = Some i" using fits by blast
  have bounds: "i < 50" "n \<le> pool_sizes ! i" using fits_only [OF i] by auto
  have least: "pool_sizes ! i \<le> s" if "s \<in> set pool_sizes" "n \<le> s" for s
    using that first_fit_least [OF pool_sizes_sorted i] by (metis in_set_conv_nth)
  have close: "pool_sizes ! i < n + (if n \<le> 1024 then 32 else if n \<le> 2048 then 128 else 256)"
    if "0 < n"
    using size_above [OF that n] least by (meson le_less_trans)
  show ?thesis
    using tab i n bounds least close
    by (intro exI [of _ i]) (auto simp: Memory_ctor_eq MemoryPool_ctor_def pool_sizes_length)
qed

theorem pool_table_smallest_fit_witness:
  "\<exists>i. pool_for (Memory_ctor lock_free_ops) (int 1025) = Some i \<and>
     int 1025 \<le> pool_allocSize (pools (Memory_ctor lock_free_ops) ! i)"
  using pool_table_smallest_fit [of lock_free_ops 1025] by auto

lemma pool_sizes_nth:
  "i < 50 \<Longrightarrow> pool_sizes ! i = (if i < 32 then 32 + i * 32 else if i < 41 then 1024 + (i - 32) * 128
     else 2048 + (i - 41) * 256)"
  by (auto simp: pool_sizes_def nth_append sizes_by_nth)

lemma own_size_served:
  assumes "i < 50" "i \<noteq> 32" "i \<noteq> 41"
  shows "first_fit pool_sizes (pool_sizes ! i) = Some i"
proof -
  have "pool_sizes ! j < pool_sizes ! i" if "j < i" for j
  proof -
    have j: "j < 50" using that assms by simp
    show ?thesis
      unfolding pool_sizes_nth [OF assms(1)] pool_sizes_nth [OF j]
      using that assms by (auto split: if_splits nat_diff_split)
  qed
  then show ?thesis using assms by (simp add: first_fit_Some pool_sizes_length)
qed

lemma duplicate_never_served:
  "first_fit pool_sizes n \<noteq> Some 32" "first_fit pool_sizes n \<noteq> Some 41"
proof -
  show "first_fit pool_sizes n \<noteq> Some 32"
  proof
    assume "first_fit pool_sizes n = Some 32"
    then have "n \<le> pool_sizes ! 32" "pool_sizes ! 31 < n" unfolding first_fit_Some by auto
    then show False by (simp add: pool_sizes_nth)
  qed
  show "first_fit pool_sizes n \<noteq> Some 41"
  proof
    assume "first_fit pool_sizes n = Some 41"
    then have "n \<le> pool_sizes ! 41" "pool_sizes ! 40 < n" unfolding first_fit_Some by auto
    then show False by (simp add: pool_sizes_nth)
  qed
qed

text \<open>
  The constructor makes 50 pools, not the \<^verbatim>\<open>POOL_COUNT\<close> = 64 of the header, and exactly two
  of them (the second ones of size 1024 and 2048) serve no size.
\<close>

theorem pools_never_used:
  "int (length (pools (Memory_ctor ops))) = 50 \<and> POOL_COUNT = 64 \<and>
   (\<forall>i. i < 50 \<and> (\<forall>sz. pool_for (Memory_ctor ops) sz \<noteq> Some i) \<longleftrightarrow> i = 32 \<or> i = 41)"
proof -
  have "(i < 50 \<and> (\<forall>sz. pool_for (Memory_ctor ops) sz \<noteq> Some i)) = (i = 32 \<or> i = 41)" for i
  proof
    assume i: "i < 50 \<and> (\<forall>sz. pool_for (Memory_ctor ops) sz \<noteq> Some i)"
    then have "first_fit pool_sizes (pool_sizes ! i) \<noteq> Some i"
      using i [THEN conjunct2, THEN spec, of "int (pool_sizes ! i)"]
      by (simp add: pool_for_def Memory_ctor_eq)
    then show "i = 32 \<or> i = 41" using own_size_served i by blast
  next
    assume "i = 32 \<or> i = 41"
    then show "i < 50 \<and> (\<forall>sz. pool_for (Memory_ctor ops) sz \<noteq> Some i)"
      using duplicate_never_served by (auto simp: pool_for_def Memory_ctor_eq)
  qed
  then show ?thesis by (simp add: Memory_ctor_eq pool_sizes_length POOL_COUNT_def)
qed

end
