(* ===== verification/Memory_Safety.thy ===== *)
theory Memory_Safety
  imports Pool_Table
begin

text \<open>
  What \<^verbatim>\<open>Memory::Allocate\<close> and \<^verbatim>\<open>Memory::Release\<close> promise to a client that releases what
  it got, once. The invariant \<open>mem_core\<close> speaks of the idle lists of the pools, the allocated
  blocks, the header fields and the client's live pointers only; \<open>mem_inv\<close> ties it to the pools
  through the interface \<open>slist\<close>.
\<close>

section \<open>Blocks, idle lists and live pointers\<close>

text \<open>The size of the block that serves a header size.\<close>

definition block_size :: "int \<Rightarrow> int" where
  "block_size n = (if n \<le> 4096 then int (pool_sizes ! the (first_fit pool_sizes (nat n))) else n)"

type_synonym live_map = "address \<Rightarrow> int option"

definition mem_core ::
  "(nat \<Rightarrow> address list) \<Rightarrow> (address \<Rightarrow> int option) \<Rightarrow> (address \<Rightarrow> int) \<Rightarrow> live_map \<Rightarrow> bool" where
  "mem_core I bs szs L \<longleftrightarrow>
     (\<forall>a n. bs a = Some n \<longrightarrow> 0 < n \<and> entry_ok a \<and> int (unat a) + n < 2 ^ 64 \<and>
        (\<forall>b m. bs b = Some m \<longrightarrow> b \<noteq> a \<longrightarrow> apart (unat a) n (unat b) m)) \<and>
     (\<forall>i a. a \<in> set (I i) \<longrightarrow> i < 50 \<and> bs a = Some (int (pool_sizes ! i)) \<and> szs a = 0) \<and>
     (\<forall>i. distinct (I i)) \<and> (\<forall>i j. i \<noteq> j \<longrightarrow> set (I i) \<inter> set (I j) = {}) \<and>
     (\<forall>p n. L p = Some n \<longrightarrow> 0 \<le> n \<and> n + 32 < 2 ^ 31 \<and> szs (p - 32) = n + 32 \<and>
        bs (p - 32) = Some (block_size (n + 32))) \<and>
     (\<forall>a. bs a \<noteq> None \<longrightarrow> L (a + 32) \<noteq> None \<or> (\<exists>i. a \<in> set (I i)))"

lemma mem_coreD:
  assumes "mem_core I bs szs L"
  shows "bs a = Some n \<Longrightarrow> 0 < n \<and> entry_ok a \<and> int (unat a) + n < 2 ^ 64"
    and "bs a = Some n \<Longrightarrow> bs b = Some m \<Longrightarrow> b \<noteq> a \<Longrightarrow> apart (unat a) n (unat b) m"
    and "a \<in> set (I i) \<Longrightarrow> i < 50 \<and> bs a = Some (int (pool_sizes ! i)) \<and> szs a = 0"
    and "distinct (I i)" and "i \<noteq> j \<Longrightarrow> a \<in> set (I i) \<Longrightarrow> a \<notin> set (I j)"
    and "L p = Some n \<Longrightarrow> 0 \<le> n \<and> n + 32 < 2 ^ 31 \<and> szs (p - 32) = n + 32 \<and>
        bs (p - 32) = Some (block_size (n + 32))"
    and "bs a \<noteq> None \<Longrightarrow> L (a + 32) \<noteq> None \<or> (\<exists>i. a \<in> set (I i))"
  using assms unfolding mem_core_def by blast+

lemma idle_not_live:
  assumes "mem_core I bs szs L" "a \<in> set (I i)"
  shows "L (a + 32) = None"
proof (rule ccontr)
  assume "L (a + 32) \<noteq> None"
  then obtain n where "L (a + 32) = Some n" by blast
  then have "0 \<le> n" "szs a = n + 32" using mem_coreD(6) [OF assms(1), of "a + 32" n] by auto
  then show False using mem_coreD(3) [OF assms] by simp
qed

lemma not_allocated_not_live:
  assumes "mem_core I bs szs L" "bs a = None"
  shows "L (a + 32) = None" "a \<notin> set (I i)"
proof -
  show "L (a + 32) = None"
    using mem_coreD(6) [OF assms(1), of "a + 32"] assms(2) by (cases "L (a + 32)") auto
  show "a \<notin> set (I i)" using mem_coreD(3) [OF assms(1), of a i] assms(2) by auto
qed

text \<open>A block leaves an idle list.\<close>

lemma core_take:
  assumes core: "mem_core I bs szs L" and top: "I i = e # es"
    and n: "0 \<le> n" "n + 32 \<le> 4096" "first_fit pool_sizes (nat (n + 32)) = Some i"
  shows "mem_core (I(i := es)) bs (szs(e := n + 32)) (L(e + 32 \<mapsto> n))"
proof -
  note D = mem_coreD [OF core]
  have e: "e \<in> set (I i)" using top by simp
  have dist: "distinct (e # es)" using D(4) [of i] top by simp
  have blk: "bs e = Some (block_size (n + 32))" using D(3) [OF e] n by (simp add: block_size_def)
  have fresh: "L (e + 32) = None" by (rule idle_not_live [OF core e])
  have idle: "j < 50 \<and> bs a = Some (int (pool_sizes ! j)) \<and> (szs(e := n + 32)) a = 0"
    if "a \<in> set ((I(i := es)) j)" for j a
  proof -
    have "a \<in> set (I j)" "a \<noteq> e"
      using that top dist D(5) [of i j e] e by (auto split: if_splits)
    then show ?thesis using D(3) [of a j] by simp
  qed
  have sep: "set ((I(i := es)) j) \<inter> set ((I(i := es)) k) = {}" if "j \<noteq> k" for j k
    using that D(5) top by (auto split: if_splits) (metis list.set_intros(2))+
  have live: "0 \<le> m \<and> m + 32 < 2 ^ 31 \<and> (szs(e := n + 32)) (p - 32) = m + 32 \<and>
      bs (p - 32) = Some (block_size (m + 32))" if "(L(e + 32 \<mapsto> n)) p = Some m" for p m
  proof (cases "p = e + 32")
    case True
    then show ?thesis using that n blk by simp
  next
    case False
    then have "p - 32 \<noteq> e" by (metis diff_add_cancel)
    then show ?thesis using that False D(6) [of p m] by simp
  qed
  have all: "(L(e + 32 \<mapsto> n)) (a + 32) \<noteq> None \<or> (\<exists>j. a \<in> set ((I(i := es)) j))" if "bs a \<noteq> None" for a
    using D(7) [OF that] top by (cases "a = e") (auto split: if_splits, metis set_ConsD)
  show ?thesis
    unfolding mem_core_def
    using D(1,2) idle dist D(4) sep live all by (intro conjI allI impI) (auto split: if_splits)
qed

lemma apart_sym: "apart a m b n \<longleftrightarrow> apart b n a m"
  by (auto simp: apart_def)

text \<open>A block comes from \<^verbatim>\<open>_aligned_malloc\<close>.\<close>

lemma core_fresh:
  assumes core: "mem_core I bs szs L" and new: "bs a = None" "entry_ok a"
    and range: "int (unat a) + block_size (n + 32) < 2 ^ 64" "0 < block_size (n + 32)"
    and away: "\<And>b m. bs b = Some m \<Longrightarrow> apart (unat a) (block_size (n + 32)) (unat b) m"
    and n: "0 \<le> n" "n + 32 < 2 ^ 31"
  shows "mem_core I (bs(a \<mapsto> block_size (n + 32))) (szs(a := n + 32)) (L(a + 32 \<mapsto> n))"
proof -
  note D = mem_coreD [OF core]
  note fresh = not_allocated_not_live [OF core new(1)]
  let ?bs = "bs(a \<mapsto> block_size (n + 32))"
  have heap: "0 < m \<and> entry_ok b \<and> int (unat b) + m < 2 ^ 64 \<and>
      (\<forall>c k. ?bs c = Some k \<longrightarrow> c \<noteq> b \<longrightarrow> apart (unat b) m (unat c) k)" if "?bs b = Some m" for b m
  proof (cases "b = a")
    case True
    then show ?thesis using that new(2) range away by auto
  next
    case False
    then have b: "bs b = Some m" using that by simp
    have "apart (unat b) m (unat a) (block_size (n + 32))" using away [OF b] apart_sym by blast
    then show ?thesis using b D(1) [OF b] D(2) [OF b] by auto
  qed
  have idle: "i < 50 \<and> ?bs b = Some (int (pool_sizes ! i)) \<and> (szs(a := n + 32)) b = 0"
    if "b \<in> set (I i)" for i b
    using D(3) [OF that] fresh(2) [of i] that by auto
  have live: "0 \<le> m \<and> m + 32 < 2 ^ 31 \<and> (szs(a := n + 32)) (p - 32) = m + 32 \<and>
      ?bs (p - 32) = Some (block_size (m + 32))" if "(L(a + 32 \<mapsto> n)) p = Some m" for p m
  proof (cases "p = a + 32")
    case True
    then show ?thesis using that n by simp
  next
    case False
    then have "p - 32 \<noteq> a" by (metis diff_add_cancel)
    then show ?thesis using that False D(6) [of p m] by simp
  qed
  show ?thesis
    unfolding mem_core_def
    using heap idle D(4,5,7) live by (intro conjI allI impI) (auto split: if_splits)
qed

text \<open>A live block goes back to an idle list, or to the system.\<close>

lemma core_give:
  assumes core: "mem_core I bs szs L" and p: "L p = Some n" "n + 32 \<le> 4096"
    and i: "first_fit pool_sizes (nat (n + 32)) = Some i"
  shows "mem_core (I(i := (p - 32) # I i)) bs (szs(p - 32 := 0)) (L(p := None))"
proof -
  note D = mem_coreD [OF core]
  have n: "0 \<le> n" "szs (p - 32) = n + 32" "bs (p - 32) = Some (block_size (n + 32))"
    using D(6) [OF p(1)] by auto
  have busy: "p - 32 \<notin> set (I j)" for j
    using idle_not_live [OF core, of "p - 32" j] p(1) by auto
  have blk: "bs (p - 32) = Some (int (pool_sizes ! i))"
    using n(3) p(2) i by (simp add: block_size_def)
  have i50: "i < 50" using fits_only [OF i] by simp
  have idle: "j < 50 \<and> bs a = Some (int (pool_sizes ! j)) \<and> (szs(p - 32 := 0)) a = 0"
    if "a \<in> set ((I(i := (p - 32) # I i)) j)" for j a
    using that D(3) [of a j] blk i50 by (auto split: if_splits)
  have sep: "set ((I(i := (p - 32) # I i)) j) \<inter> set ((I(i := (p - 32) # I i)) k) = {}"
    if "j \<noteq> k" for j k
    using that D(5) busy by (auto split: if_splits)
  have live: "0 \<le> m \<and> m + 32 < 2 ^ 31 \<and> (szs(p - 32 := 0)) (q - 32) = m + 32 \<and>
      bs (q - 32) = Some (block_size (m + 32))" if "(L(p := None)) q = Some m" for q m
  proof -
    have "q \<noteq> p" "L q = Some m" using that by (auto split: if_splits)
    then show ?thesis using D(6) [of q m] by simp
  qed
  have all: "(L(p := None)) (a + 32) \<noteq> None \<or> (\<exists>j. a \<in> set ((I(i := (p - 32) # I i)) j))"
    if "bs a \<noteq> None" for a
  proof (cases "a + 32 = p")
    case True
    then have "a = p - 32" by (metis add_diff_cancel_right')
    then show ?thesis by auto
  next
    case False
    then show ?thesis using D(7) [OF that] by (auto split: if_splits)
  qed
  show ?thesis
    unfolding mem_core_def
    using D(1,2) idle D(4) busy sep live all by (intro conjI allI impI) (auto split: if_splits)
qed

lemma core_drop:
  assumes core: "mem_core I bs szs L" and p: "L p = Some n"
  shows "mem_core I (bs(p - 32 := None)) szs (L(p := None))"
proof -
  note D = mem_coreD [OF core]
  have busy: "p - 32 \<notin> set (I j)" for j
    using idle_not_live [OF core, of "p - 32" j] p(1) by auto
  have live: "0 \<le> m \<and> m + 32 < 2 ^ 31 \<and> szs (q - 32) = m + 32 \<and>
      (bs(p - 32 := None)) (q - 32) = Some (block_size (m + 32))" if "(L(p := None)) q = Some m" for q m
  proof -
    have "q \<noteq> p" "L q = Some m" using that by (auto split: if_splits)
    then show ?thesis using D(6) [of q m] by simp
  qed
  have all: "(L(p := None)) (a + 32) \<noteq> None \<or> (\<exists>j. a \<in> set (I j))"
    if "(bs(p - 32 := None)) a \<noteq> None" for a
  proof -
    have "a \<noteq> p - 32" "bs a \<noteq> None" using that by (auto split: if_splits)
    moreover from this(1) have "a + 32 \<noteq> p" by (metis add_diff_cancel_right')
    ultimately show ?thesis using D(7) by auto
  qed
  have idle: "i < 50 \<and> (bs(p - 32 := None)) a = Some (int (pool_sizes ! i)) \<and> szs a = 0"
    if "a \<in> set (I i)" for i a
    using D(3) [OF that] that busy [of i] by auto
  show ?thesis
    unfolding mem_core_def
    using D(1,2) idle D(4,5) live all by (intro conjI allI impI) (auto split: if_splits)
qed

section \<open>The counters\<close>

text \<open>The live pointers whose blocks belong to pool \<open>i\<close>.\<close>

definition users :: "live_map \<Rightarrow> nat \<Rightarrow> address set" where
  "users L i = {p. \<exists>n. L p = Some n \<and> first_fit pool_sizes (nat (n + 32)) = Some i}"

lemma users_add:
  assumes "L p = None" "first_fit pool_sizes (nat (n + 32)) = Some i"
  shows "users (L(p \<mapsto> n)) i = insert p (users L i)" "p \<notin> users L i"
    "j \<noteq> i \<Longrightarrow> users (L(p \<mapsto> n)) j = users L j"
  using assms by (auto simp: users_def split: if_splits)

lemma users_add_large:
  assumes "L p = None" "first_fit pool_sizes (nat (n + 32)) = None"
  shows "users (L(p \<mapsto> n)) j = users L j"
  using assms by (auto simp: users_def split: if_splits)

lemma users_remove:
  assumes "L p = Some n" "first_fit pool_sizes (nat (n + 32)) = Some i"
  shows "users (L(p := None)) i = users L i - {p}" "p \<in> users L i"
    "j \<noteq> i \<Longrightarrow> users (L(p := None)) j = users L j"
  using assms by (auto simp: users_def split: if_splits)

lemma users_remove_large:
  assumes "L p = Some n" "first_fit pool_sizes (nat (n + 32)) = None"
  shows "users (L(p := None)) j = users L j"
  using assms by (auto simp: users_def split: if_splits)

lemma users_finite: "finite (dom L) \<Longrightarrow> finite (users L i)"
  by (rule finite_subset [of _ "dom L"]) (auto simp: users_def)

lemma to_int32_add: "to_int32 (to_int32 x + y) = to_int32 (x + y)"
proof -
  have "signed_take_bit 31 (signed_take_bit 31 x + signed_take_bit 31 y) =
      signed_take_bit 31 (x + y)"
    by (rule signed_take_bit_add)
  moreover have "signed_take_bit 31 (signed_take_bit 31 x + signed_take_bit 31 (signed_take_bit 31 y))
      = signed_take_bit 31 (signed_take_bit 31 x + y)"
    using signed_take_bit_add [of 31 "signed_take_bit 31 x" y] by simp
  ultimately show ?thesis by (simp add: to_int32_def)
qed

lemma to_int32_sub: "to_int32 (to_int32 x - y) = to_int32 (x - y)"
  using to_int32_add [of x "- y"] by simp

section \<open>The invariant of the class\<close>

definition idle :: "('s \<Rightarrow> address list) \<Rightarrow> 's memory \<Rightarrow> nat \<Rightarrow> address list" where
  "idle entries m i = (if i < length (pools m) then entries (pool_list (pools m ! i)) else [])"

definition mem_inv ::
  "('s \<Rightarrow> address list) \<Rightarrow> ('s \<Rightarrow> bool) \<Rightarrow> 's memory \<Rightarrow> heap \<Rightarrow> live_map \<Rightarrow> bool" where
  "mem_inv entries ok m h L \<longleftrightarrow> map pool_allocSize (pools m) = map int pool_sizes \<and>
     poolTable m = first_fit pool_sizes \<and> (\<forall>i < 50. ok (pool_list (pools m ! i))) \<and>
     mem_core (idle entries m) (blocks h) (allocSize h) L \<and> finite (dom L) \<and>
     (\<forall>i < 50. reserveCount (pools m ! i) = to_int32 (int (length (idle entries m i))) \<and>
        useCount (pools m ! i) = to_int32 (int (card (users L i))))"

lemma inv_length: "mem_inv entries ok m h L \<Longrightarrow> length (pools m) = 50"
  unfolding mem_inv_def using pool_sizes_length by (metis length_map)

lemma inv_sizes: "mem_inv entries ok m h L \<Longrightarrow> i < 50 \<Longrightarrow> pool_allocSize (pools m ! i) = int (pool_sizes ! i)"
proof -
  assume inv: "mem_inv entries ok m h L" and i: "i < 50"
  have "map pool_allocSize (pools m) ! i = map int pool_sizes ! i" using inv by (simp add: mem_inv_def)
  then show ?thesis using i inv_length [OF inv] pool_sizes_length by simp
qed

lemma idle_update:
  "i < length (pools m) \<Longrightarrow>
     idle entries (m\<lparr>pools := (pools m)[i := p]\<rparr>) = (idle entries m)(i := entries (pool_list p))"
  by (auto simp: idle_def fun_eq_iff nth_list_update)

text \<open>One pool is replaced, with the blocks and the live pointers changed accordingly.\<close>

lemma inv_replace:
  assumes inv: "mem_inv entries ok m h L" and i: "i < 50"
    and p: "pool_allocSize p = pool_allocSize (pools m ! i)" "ok (pool_list p)"
    and core: "mem_core ((idle entries m)(i := entries (pool_list p))) (blocks h') (allocSize h') L'"
    and counts: "reserveCount p = to_int32 (int (length (entries (pool_list p))))"
      "useCount p = to_int32 (int (card (users L' i)))"
      "\<And>j. j \<noteq> i \<Longrightarrow> users L' j = users L j"
    and fin: "finite (dom L')"
  shows "mem_inv entries ok (m\<lparr>pools := (pools m)[i := p]\<rparr>) h' L'"
proof -
  have len: "length (pools m) = 50" by (rule inv_length [OF inv])
  have "map pool_allocSize ((pools m)[i := p]) = map pool_allocSize (pools m)"
    using p(1) i len by (simp add: map_update list_update_same_conv)
  moreover have "idle entries (m\<lparr>pools := (pools m)[i := p]\<rparr>) =
      (idle entries m)(i := entries (pool_list p))"
    by (rule idle_update) (use i len in simp)
  ultimately show ?thesis
    using inv i len p(2) core counts fin
    by (auto simp: mem_inv_def nth_list_update)
qed

lemma inv_other_blocks:
  assumes "mem_inv entries ok m h L" "mem_core (idle entries m) (blocks h') (allocSize h') L'"
    "\<And>j. users L' j = users L j" "finite (dom L')"
  shows "mem_inv entries ok m h' L'"
  using assms by (simp add: mem_inv_def)

lemma block_size_pooled:
  "first_fit pool_sizes (nat n) = Some i \<Longrightarrow> n \<le> 4096 \<Longrightarrow> block_size n = int (pool_sizes ! i)"
  by (simp add: block_size_def)

lemma block_size_ge:
  assumes n: "0 \<le> n"
  shows "n \<le> block_size n"
proof (cases "n \<le> 4096")
  case True
  then have "nat n \<le> 4096" using n by simp
  then obtain i where i: "first_fit pool_sizes (nat n) = Some i" using fits by blast
  then show ?thesis using fits_only [OF i] n True by (simp add: block_size_pooled nat_le_iff)
qed (simp add: block_size_def)

lemma malloc_fresh:
  assumes am: "malloc_ok am" "am (blocks h) (block_size (n + 32)) \<noteq> 0" and n: "0 \<le> n" "n + 32 < 2 ^ 31"
    and core: "mem_core I (blocks h) szs L"
  shows "mem_core I ((blocks h)(am (blocks h) (block_size (n + 32)) \<mapsto> block_size (n + 32)))
      (szs(am (blocks h) (block_size (n + 32)) := n + 32))
      (L(am (blocks h) (block_size (n + 32)) + 32 \<mapsto> n))"
    and "L (am (blocks h) (block_size (n + 32)) + 32) = None"
proof -
  let ?a = "am (blocks h) (block_size (n + 32))"
  have pos: "0 < block_size (n + 32)" using block_size_ge [of "n + 32"] n by simp
  have a: "?a AND 0xF = 0" "blocks h ?a = None" "int (unat ?a) + block_size (n + 32) < 2 ^ 64"
      "\<And>b m. blocks h b = Some m \<Longrightarrow> apart (unat ?a) (block_size (n + 32)) (unat b) m"
    using am pos unfolding malloc_ok_def by blast+
  have "entry_ok ?a" using a(1) am(2) by (simp add: entry_ok_def)
  then show "mem_core I ((blocks h)(?a \<mapsto> block_size (n + 32))) (szs(?a := n + 32)) (L(?a + 32 \<mapsto> n))"
    using a pos n core by (intro core_fresh) auto
  show "L (?a + 32) = None" by (rule not_allocated_not_live(1) [OF core a(2)])
qed

section \<open>Allocate and Release\<close>

context slist begin

lemma Pool_Pop_reuse:
  assumes "ok (pool_list p)" "entries (pool_list p) = e # es" "blocks h e \<noteq> None" "allocSize h e = 0"
  shows "Pool_Pop ops am p h = Inr (e, p\<lparr>pool_list := snd (pop_entry ops (pool_list p)),
    reserveCount := to_int32 (reserveCount p - 1), useCount := to_int32 (useCount p + 1)\<rparr>, h)"
proof -
  have "fst (pop_entry ops (pool_list p)) = e" "e \<noteq> 0"
    using pop_top [OF assms(1,2)] entries_ok [OF assms(1), of e] assms(2)
    by (auto simp: entry_ok_def)
  then show ?thesis
    using assms(3,4) by (auto simp: Pool_Pop_def split: prod.splits)
qed

lemma Pool_Pop_new:
  assumes "ok (pool_list p)" "entries (pool_list p) = []"
  shows "Pool_Pop ops am p h = (let a = am (blocks h) (pool_allocSize p) in
    Inr (a, p\<lparr>pool_list := snd (pop_entry ops (pool_list p)), useCount := to_int32 (useCount p + 1)\<rparr>,
      if a = 0 then h else h\<lparr>blocks := (blocks h)(a \<mapsto> pool_allocSize p)\<rparr>))"
  using pop_nothing [OF assms] by (auto simp: Pool_Pop_def split: prod.splits)

lemma alloc_reuse:
  assumes inv: "mem_inv entries ok m h L" and n: "0 \<le> n" "n + 32 \<le> 4096"
    and i: "first_fit pool_sizes (nat (n + 32)) = Some i" and top: "idle entries m i = e # es"
  shows "\<exists>m' h'. Allocate ops am n m h = Inr (e + 32, m', h') \<and> L (e + 32) = None \<and>
    mem_inv entries ok m' h' (L(e + 32 \<mapsto> n))"
proof -
  let ?p = "pools m ! i"
  have i50: "i < 50" using fits_only [OF i] by simp
  have len: "length (pools m) = 50" by (rule inv_length [OF inv])
  have core: "mem_core (idle entries m) (blocks h) (allocSize h) L" using inv by (simp add: mem_inv_def)
  have ok: "ok (pool_list ?p)" using inv i50 by (simp add: mem_inv_def)
  have es: "entries (pool_list ?p) = e # es" using top len i50 by (simp add: idle_def)
  have e: "e \<in> set (idle entries m i)" using top by simp
  note idle_e = mem_coreD(3) [OF core e]
  have fresh: "L (e + 32) = None" by (rule idle_not_live [OF core e])
  let ?p' = "?p\<lparr>pool_list := snd (pop_entry ops (pool_list ?p)),
    reserveCount := to_int32 (reserveCount ?p - 1), useCount := to_int32 (useCount ?p + 1)\<rparr>"
  let ?h' = "h\<lparr>allocSize := (allocSize h)(e := n + 32)\<rparr>"
  have pop: "Pool_Pop ops am ?p h = Inr (e, ?p', h)"
    by (rule Pool_Pop_reuse [OF ok es]) (use idle_e in auto)
  have serves: "pool_for m (n + 32) = Some i" using inv i n by (simp add: pool_for_def mem_inv_def)
  have "to_int32 (n + 32) = n + 32" using n by (intro to_int32_id) auto
  then have alloc: "Allocate ops am n m h = Inr (e + 32, m\<lparr>pools := (pools m)[i := ?p']\<rparr>, ?h')"
    using n serves pop idle_e
    by (simp add: Allocate_def sizeof_MemoryHeader_def MAX_ALLOC_SIZE_def AttachHeader_def Let_def)
  have list': "entries (pool_list ?p') = es" "ok (pool_list ?p')"
    using pop_top [OF ok es] by auto
  note u = users_add [where L = L and p = "e + 32" and n = n, OF fresh i]
  have fin: "finite (dom L)" using inv by (simp add: mem_inv_def)
  have "mem_inv entries ok (m\<lparr>pools := (pools m)[i := ?p']\<rparr>) ?h' (L(e + 32 \<mapsto> n))"
  proof (rule inv_replace [OF inv i50])
    show "mem_core ((idle entries m)(i := entries (pool_list ?p'))) (blocks ?h') (allocSize ?h')
        (L(e + 32 \<mapsto> n))"
      using core_take [OF core top n i] list' by simp
    show "reserveCount ?p' = to_int32 (int (length (entries (pool_list ?p'))))"
      using inv i50 top list' by (simp add: mem_inv_def to_int32_sub)
    have "useCount ?p = to_int32 (int (card (users L i)))" using inv i50 by (simp add: mem_inv_def)
    then show "useCount ?p' = to_int32 (int (card (users (L(e + 32 \<mapsto> n)) i)))"
      unfolding u(1) using u(2) users_finite [OF fin] by (simp add: to_int32_add add.commute [of 1])
  qed (use list' u(3) fin in auto)
  then show ?thesis using alloc fresh by blast
qed

lemma alloc_new:
  assumes inv: "mem_inv entries ok m h L" and am: "malloc_ok am" and n: "0 \<le> n" "n + 32 \<le> 4096"
    and i: "first_fit pool_sizes (nat (n + 32)) = Some i" and none: "idle entries m i = []"
    and a: "am (blocks h) (block_size (n + 32)) = a"
  shows "if a = 0 then Allocate ops am n m h = Inl (UB ''AttachHeader'')
    else \<exists>m' h'. Allocate ops am n m h = Inr (a + 32, m', h') \<and> L (a + 32) = None \<and>
      mem_inv entries ok m' h' (L(a + 32 \<mapsto> n))"
proof -
  let ?p = "pools m ! i"
  have i50: "i < 50" using fits_only [OF i] by simp
  have len: "length (pools m) = 50" by (rule inv_length [OF inv])
  have core: "mem_core (idle entries m) (blocks h) (allocSize h) L" using inv by (simp add: mem_inv_def)
  have ok: "ok (pool_list ?p)" using inv i50 by (simp add: mem_inv_def)
  have es: "entries (pool_list ?p) = []" using none len i50 by (simp add: idle_def)
  have sz: "pool_allocSize ?p = block_size (n + 32)"
    using inv_sizes [OF inv i50] block_size_pooled [OF i] n by simp
  have serves: "pool_for m (n + 32) = Some i" using inv i n by (simp add: pool_for_def mem_inv_def)
  have id: "to_int32 (n + 32) = n + 32" using n by (intro to_int32_id) auto
  let ?p' = "?p\<lparr>pool_list := snd (pop_entry ops (pool_list ?p)), useCount := to_int32 (useCount ?p + 1)\<rparr>"
  let ?h = "h\<lparr>blocks := (blocks h)(a \<mapsto> block_size (n + 32))\<rparr>"
  have pop: "Pool_Pop ops am ?p h = Inr (a, ?p', if a = 0 then h else ?h)"
    using Pool_Pop_new [OF ok es, of am h] a sz by simp
  show ?thesis
  proof (cases "a = 0")
    case True
    have "blocks h 0 = None"
      using mem_coreD(1) [OF core, of 0] by (cases "blocks h 0") (auto simp: entry_ok_def)
    then show ?thesis
      using True pop n serves id
      by (simp add: Allocate_def sizeof_MemoryHeader_def MAX_ALLOC_SIZE_def AttachHeader_def Let_def)
  next
    case False
    let ?h' = "?h\<lparr>allocSize := (allocSize h)(a := n + 32)\<rparr>"
    have alloc: "Allocate ops am n m h = Inr (a + 32, m\<lparr>pools := (pools m)[i := ?p']\<rparr>, ?h')"
      using False pop n serves id
      by (simp add: Allocate_def sizeof_MemoryHeader_def MAX_ALLOC_SIZE_def AttachHeader_def Let_def)
    have "n + 32 < 2 ^ 31" using n by simp
    note fresh = malloc_fresh [OF am _ n(1) this core, unfolded a, OF False]
    have list': "entries (pool_list ?p') = []" "ok (pool_list ?p')"
      using pop_nothing [OF ok es] by auto
    note u = users_add [where L = L and p = "a + 32" and n = n, OF fresh(2) i]
    have fin: "finite (dom L)" using inv by (simp add: mem_inv_def)
    have "mem_inv entries ok (m\<lparr>pools := (pools m)[i := ?p']\<rparr>) ?h' (L(a + 32 \<mapsto> n))"
    proof (rule inv_replace [OF inv i50])
      have "(idle entries m)(i := entries (pool_list ?p')) = idle entries m"
        using none list' by auto
      then show "mem_core ((idle entries m)(i := entries (pool_list ?p'))) (blocks ?h') (allocSize ?h')
          (L(a + 32 \<mapsto> n))"
        using fresh(1) by simp
      show "reserveCount ?p' = to_int32 (int (length (entries (pool_list ?p'))))"
        using inv i50 none list' by (simp add: mem_inv_def)
      have "useCount ?p = to_int32 (int (card (users L i)))" using inv i50 by (simp add: mem_inv_def)
      then show "useCount ?p' = to_int32 (int (card (users (L(a + 32 \<mapsto> n)) i)))"
        unfolding u(1) using u(2) users_finite [OF fin] by (simp add: to_int32_add add.commute [of 1])
    qed (use list' u(3) fin in auto)
    then show ?thesis using alloc fresh(2) False by auto
  qed
qed

lemma alloc_large:
  assumes inv: "mem_inv entries ok m h L" and am: "malloc_ok am" and n: "4096 < n + 32" "n + 32 < 2 ^ 31"
    and a: "am (blocks h) (block_size (n + 32)) = a"
  shows "if a = 0 then Allocate ops am n m h = Inl (UB ''AttachHeader'')
    else \<exists>h'. Allocate ops am n m h = Inr (a + 32, m, h') \<and> L (a + 32) = None \<and>
      mem_inv entries ok m h' (L(a + 32 \<mapsto> n))"
proof -
  have core: "mem_core (idle entries m) (blocks h) (allocSize h) L" using inv by (simp add: mem_inv_def)
  have id: "to_int32 (n + 32) = n + 32" using n by (intro to_int32_id) auto
  have sz: "block_size (n + 32) = n + 32" using n by (simp add: block_size_def)
  show ?thesis
  proof (cases "a = 0")
    case True
    have "blocks h 0 = None"
      using mem_coreD(1) [OF core, of 0] by (cases "blocks h 0") (auto simp: entry_ok_def)
    then show ?thesis
      using True n id a sz
      by (simp add: Allocate_def sizeof_MemoryHeader_def MAX_ALLOC_SIZE_def AttachHeader_def Let_def)
  next
    case False
    let ?h' = "h\<lparr>blocks := (blocks h)(a \<mapsto> n + 32), allocSize := (allocSize h)(a := n + 32)\<rparr>"
    have alloc: "Allocate ops am n m h = Inr (a + 32, m, ?h')"
      using False n id a sz
      by (simp add: Allocate_def sizeof_MemoryHeader_def MAX_ALLOC_SIZE_def AttachHeader_def Let_def)
    have "0 \<le> n" using n by simp
    note fresh = malloc_fresh [OF am _ this n(2) core, unfolded a, OF False]
    have "first_fit pool_sizes (nat (n + 32)) \<noteq> Some i" for i
      using fits_only [of "nat (n + 32)" i] n by auto
    then have large: "first_fit pool_sizes (nat (n + 32)) = None"
      by (cases "first_fit pool_sizes (nat (n + 32))") auto
    have "mem_inv entries ok m ?h' (L(a + 32 \<mapsto> n))"
      using inv_other_blocks [OF inv, of ?h' "L(a + 32 \<mapsto> n)"] fresh sz inv
        users_add_large [where L = L and p = "a + 32" and n = n, OF fresh(2) large]
      by (simp add: mem_inv_def)
    then show ?thesis using alloc fresh(2) False by auto
  qed
qed

text \<open>Every request of a sensible size: a fresh pointer, or the failure of \<^verbatim>\<open>_aligned_malloc\<close>.\<close>

lemma Allocate_spec:
  assumes inv: "mem_inv entries ok m h L" and am: "malloc_ok am" and n: "0 \<le> n" "n + 32 < 2 ^ 31"
  shows "(case Allocate ops am n m h of
     Inr (ptr, m', h') \<Rightarrow> L ptr = None \<and> mem_inv entries ok m' h' (L(ptr \<mapsto> n))
   | Inl e \<Rightarrow> e = UB ''AttachHeader'' \<and> am (blocks h) (block_size (n + 32)) = 0)"
proof (cases "n + 32 \<le> 4096")
  case True
  then have "nat (n + 32) \<le> 4096" using n by simp
  then obtain i where i: "first_fit pool_sizes (nat (n + 32)) = Some i" using fits by blast
  show ?thesis
  proof (cases "idle entries m i")
    case Nil
    then show ?thesis
      using alloc_new [OF inv am n(1) True i Nil refl] by (auto split: if_splits)
  next
    case (Cons e es)
    then show ?thesis using alloc_reuse [OF inv n(1) True i Cons, of am] by auto
  qed
next
  case False
  then show ?thesis
    using alloc_large [OF inv am _ n(2) refl] by (auto split: if_splits)
qed

text \<open>A live pointer is released; its block is then on top of its pool's list, or gone.\<close>

lemma Release_pooled:
  assumes inv: "mem_inv entries ok m h L" and p: "L ptr = Some n" "n + 32 \<le> 4096"
    and i: "first_fit pool_sizes (nat (n + 32)) = Some i"
  shows "\<exists>m' h'. Release ops ptr m h = Inr (m', h') \<and> mem_inv entries ok m' h' (L(ptr := None)) \<and>
    idle entries m' i = (ptr - 32) # idle entries m i"
proof -
  let ?p = "pools m ! i"
  have i50: "i < 50" using fits_only [OF i] by simp
  have len: "length (pools m) = 50" by (rule inv_length [OF inv])
  have core: "mem_core (idle entries m) (blocks h) (allocSize h) L" using inv by (simp add: mem_inv_def)
  have ok: "ok (pool_list ?p)" using inv i50 by (simp add: mem_inv_def)
  note live = mem_coreD(6) [OF core p(1)]
  have blk: "blocks h (ptr - 32) = Some (block_size (n + 32))" using live by simp
  have busy: "ptr - 32 \<notin> set (idle entries m i)"
    using idle_not_live [OF core, of "ptr - 32" i] p(1) by auto
  have es: "entries (pool_list ?p) = idle entries m i" using len i50 by (simp add: idle_def)
  have entry: "entry_ok (ptr - 32)" using mem_coreD(1) [OF core blk] by simp
  have serves: "pool_for m (n + 32) = Some i" using inv i live by (simp add: pool_for_def mem_inv_def)
  let ?p' = "?p\<lparr>pool_list := push_entry ops (ptr - 32) (pool_list ?p),
    useCount := to_int32 (useCount ?p - 1), reserveCount := to_int32 (reserveCount ?p + 1)\<rparr>"
  let ?h' = "h\<lparr>allocSize := (allocSize h)(ptr - 32 := 0)\<rparr>"
  let ?m' = "m\<lparr>pools := (pools m)[i := ?p']\<rparr>"
  have rel: "Release ops ptr m h = Inr (?m', ?h')"
    using live blk p(2) serves
    by (simp add: Release_def DetechHeader_def MAX_ALLOC_SIZE_def Pool_Push_def Let_def)
  have list': "entries (pool_list ?p') = (ptr - 32) # idle entries m i" "ok (pool_list ?p')"
    using push_ok [OF ok entry] busy es by auto
  note u = users_remove [where L = L and p = ptr and n = n, OF p(1) i]
  have fin: "finite (dom L)" using inv by (simp add: mem_inv_def)
  have "mem_inv entries ok ?m' ?h' (L(ptr := None))"
  proof (rule inv_replace [OF inv i50])
    show "mem_core ((idle entries m)(i := entries (pool_list ?p'))) (blocks ?h') (allocSize ?h')
        (L(ptr := None))"
      using core_give [OF core p i] list' by simp
    show "reserveCount ?p' = to_int32 (int (length (entries (pool_list ?p'))))"
      unfolding list' using inv i50 by (simp add: mem_inv_def to_int32_add add.commute [of 1])
    have "useCount ?p = to_int32 (int (card (users L i)))" using inv i50 by (simp add: mem_inv_def)
    moreover have "0 < card (users L i)" using u(2) users_finite [OF fin] by (auto simp: card_gt_0_iff)
    ultimately show "useCount ?p' = to_int32 (int (card (users (L(ptr := None)) i)))"
      unfolding u(1) using u(2) users_finite [OF fin] by (simp add: to_int32_sub of_nat_diff)
  qed (use list' u(3) fin in auto)
  moreover have "idle entries ?m' i = (ptr - 32) # idle entries m i"
    using list' len i50 by (simp add: idle_def)
  ultimately show ?thesis using rel by blast
qed

lemma Release_large:
  assumes inv: "mem_inv entries ok m h L" and p: "L ptr = Some n" "4096 < n + 32"
  shows "\<exists>h'. Release ops ptr m h = Inr (m, h') \<and> mem_inv entries ok m h' (L(ptr := None)) \<and>
    blocks h' (ptr - 32) = None"
proof -
  have core: "mem_core (idle entries m) (blocks h) (allocSize h) L" using inv by (simp add: mem_inv_def)
  note live = mem_coreD(6) [OF core p(1)]
  let ?h' = "h\<lparr>blocks := (blocks h)(ptr - 32 := None)\<rparr>"
  have "first_fit pool_sizes (nat (n + 32)) \<noteq> Some i" for i
    using fits_only [of "nat (n + 32)" i] p by auto
  then have large: "first_fit pool_sizes (nat (n + 32)) = None"
    by (cases "first_fit pool_sizes (nat (n + 32))") auto
  have "Release ops ptr m h = Inr (m, ?h')"
    using live p(2) by (simp add: Release_def DetechHeader_def MAX_ALLOC_SIZE_def Let_def)
  moreover have "mem_inv entries ok m ?h' (L(ptr := None))"
    using inv_other_blocks [OF inv, of ?h' "L(ptr := None)"] core_drop [OF core p(1)] inv
      users_remove_large [where L = L and p = ptr and n = n, OF p(1) large]
    by (simp add: mem_inv_def)
  ultimately show ?thesis by auto
qed

lemma Release_spec:
  assumes inv: "mem_inv entries ok m h L" and p: "L ptr = Some n"
  shows "\<exists>m' h'. Release ops ptr m h = Inr (m', h') \<and> mem_inv entries ok m' h' (L(ptr := None))"
proof (cases "n + 32 \<le> 4096")
  case True
  then obtain i where "first_fit pool_sizes (nat (n + 32)) = Some i" using fits [of "nat (n + 32)"] by force
  then show ?thesis using Release_pooled [OF inv p True] by blast
next
  case False
  then show ?thesis using Release_large [OF inv p] by auto
qed

text \<open>A header that lies on an idle list has \<open>allocSize\<close> 0, which \<^verbatim>\<open>Release\<close> refuses.\<close>

lemma Release_idle:
  assumes inv: "mem_inv entries ok m h L" and "a \<in> set (idle entries m i)"
  shows "Release ops (a + 32) m h = Inl (CRASH ''ASSERT_CRASH'')"
proof -
  have "mem_core (idle entries m) (blocks h) (allocSize h) L" using inv by (simp add: mem_inv_def)
  from mem_coreD(3) [OF this assms(2)] show ?thesis
    by (simp add: Release_def DetechHeader_def Let_def)
qed

section \<open>Construction and destruction\<close>

lemma ctor_ok: "mem_inv entries ok (Memory_ctor ops) \<lparr>blocks = (\<lambda>_. None), allocSize = sz\<rparr> Map.empty"
proof -
  have "idle entries (Memory_ctor ops) i = []" for i
    using new_ok by (simp add: idle_def Memory_ctor_eq MemoryPool_ctor_def)
  then show ?thesis
    using new_ok
    by (simp add: mem_inv_def mem_core_def Memory_ctor_eq MemoryPool_ctor_def pool_sizes_length
        users_def to_int32_def o_def)
qed

lemma pool_dtor:
  "ok l \<Longrightarrow> length (entries l) < fuel \<Longrightarrow>
     MemoryPool_dtor fuel ops l h = Some (h\<lparr>blocks := (\<lambda>a. if a \<in> set (entries l) then None else blocks h a)\<rparr>)"
proof (induction fuel arbitrary: l h)
  case (Suc fuel)
  show ?case
  proof (cases "entries l")
    case Nil
    then show ?thesis using pop_nothing [OF Suc.prems(1)] by (auto split: prod.splits)
  next
    case (Cons e es)
    then have e: "e \<noteq> 0" using entries_ok [OF Suc.prems(1), of e] by (auto simp: entry_ok_def)
    obtain l' where l': "pop_entry ops l = (e, l')" "ok l'" "entries l' = es"
      using pop_top [OF Suc.prems(1) Cons] by (cases "pop_entry ops l") auto
    have "MemoryPool_dtor fuel ops l' (h\<lparr>blocks := (blocks h)(e := None)\<rparr>) =
        Some (h\<lparr>blocks := (\<lambda>a. if a \<in> set es then None else ((blocks h)(e := None)) a)\<rparr>)"
      using Suc.IH [OF l'(2)] Suc.prems(2) Cons l'(3) by (auto intro!: heap.equality)
    moreover have "(\<lambda>a. if a \<in> set es then None else ((blocks h)(e := None)) a) =
        (\<lambda>a. if a \<in> set (entries l) then None else blocks h a)"
      using Cons by auto
    ultimately show ?thesis using l'(1) e by simp
  qed
qed simp

lemma pools_dtor:
  "\<forall>p \<in> set ps. ok (pool_list p) \<and> length (entries (pool_list p)) < fuel \<Longrightarrow>
     Memory_dtor fuel ops ps h = Some (h\<lparr>blocks := (\<lambda>a.
       if \<exists>p \<in> set ps. a \<in> set (entries (pool_list p)) then None else blocks h a)\<rparr>)"
proof (induction ps arbitrary: h)
  case (Cons p ps)
  let ?h = "h\<lparr>blocks := (\<lambda>a. if a \<in> set (entries (pool_list p)) then None else blocks h a)\<rparr>"
  have "MemoryPool_dtor fuel ops (pool_list p) h = Some ?h" using Cons.prems by (intro pool_dtor) auto
  moreover have "Memory_dtor fuel ops ps ?h = Some (?h\<lparr>blocks := (\<lambda>a.
      if \<exists>p \<in> set ps. a \<in> set (entries (pool_list p)) then None else blocks ?h a)\<rparr>)"
    using Cons.prems by (intro Cons.IH) auto
  ultimately show ?case by (auto intro!: heap.equality)
qed simp

end

end
