(* ===== verification/Memory_Client.thy ===== *)
theory Memory_Client
  imports Memory_Safety
begin

text \<open>
  Runs of \<^verbatim>\<open>Memory\<close>: a client that allocates sizes whose sum with the header fits in an
  \<^verbatim>\<open>int32\<close>, and releases what it got. The hypotheses of the properties are the documented
  behaviour of what the repository only calls: the lists are stacks (\<open>slist\<close>), and
  \<^verbatim>\<open>_aligned_malloc\<close> returns new, aligned memory or fails (\<open>malloc_ok\<close>).
\<close>

inductive mem_run :: "'s slist_ops \<Rightarrow> malloc \<Rightarrow> 's memory \<Rightarrow> heap \<Rightarrow> live_map \<Rightarrow> bool"
  for ops am where
  mem_start: "mem_run ops am (Memory_ctor ops) \<lparr>blocks = (\<lambda>_. None), allocSize = szs\<rparr> Map.empty"
| mem_allocate: "mem_run ops am m h L \<Longrightarrow> 0 \<le> n \<Longrightarrow> n + 32 < 2 ^ 31 \<Longrightarrow>
    Allocate ops am n m h = Inr (ptr, m', h') \<Longrightarrow> mem_run ops am m' h' (L(ptr \<mapsto> n))"
| mem_release: "mem_run ops am m h L \<Longrightarrow> L ptr = Some n \<Longrightarrow>
    Release ops ptr m h = Inr (m', h') \<Longrightarrow> mem_run ops am m' h' (L(ptr := None))"

lemma mem_run_inv:
  assumes "mem_run ops am m h L" "slist ops entries ok" "malloc_ok am"
  shows "mem_inv entries ok m h L"
  using assms(1)
proof induction
  case (mem_start szs)
  then show ?case by (rule slist.ctor_ok [OF assms(2)])
next
  case (mem_allocate m h L n ptr m' h')
  then show ?case using slist.Allocate_spec [OF assms(2) mem_allocate.IH assms(3), of n]
    by (simp add: fun_upd_def)
next
  case (mem_release m h L ptr n m' h')
  then show ?case using slist.Release_spec [OF assms(2) mem_release.IH, of ptr n]
    by (auto simp: fun_upd_def)
qed

section \<open>A concrete allocator for the examples\<close>

definition fits_at :: "(address \<Rightarrow> int option) \<Rightarrow> int \<Rightarrow> address \<Rightarrow> bool" where
  "fits_at bs n a \<longleftrightarrow> a AND 0xF = 0 \<and> bs a = None \<and> int (unat a) + n < 2 ^ 64 \<and>
     (\<forall>b m. bs b = Some m \<longrightarrow> apart (unat a) n (unat b) m)"

fun first_at :: "(address \<Rightarrow> bool) \<Rightarrow> address list \<Rightarrow> address" where
  "first_at P [] = 0"
| "first_at P (a # as) = (if P a then a else first_at P as)"

definition example_malloc :: malloc where
  "example_malloc bs n = first_at (fits_at bs n) [0x10000, 0x20000, 0x30000]"

lemma first_at_ok: "first_at P as \<noteq> 0 \<Longrightarrow> P (first_at P as)"
  by (induction as) auto

lemma example_malloc_ok: "malloc_ok example_malloc"
  using first_at_ok [of "fits_at _ _" "[0x10000, 0x20000, 0x30000]"]
  unfolding malloc_ok_def example_malloc_def by (metis fits_at_def)

lemma example_allocates:
  "\<exists>m h. Allocate lock_free_ops example_malloc 10 (Memory_ctor lock_free_ops)
     \<lparr>blocks = (\<lambda>_. None), allocSize = (\<lambda>_. 0)\<rparr> = Inr (0x10020, m, h)"
proof -
  let ?h = "\<lparr>blocks = (\<lambda>_. None), allocSize = (\<lambda>_. 0)\<rparr>"
  have inv: "mem_inv lock_free_entries lock_free_ok (Memory_ctor lock_free_ops) ?h Map.empty"
    by (rule lock_free.ctor_ok)
  have none: "idle lock_free_entries (Memory_ctor lock_free_ops) 1 = []"
    using lock_free.new_ok by (simp add: idle_def Memory_ctor_eq MemoryPool_ctor_def pool_sizes_length)
  have fit: "first_fit pool_sizes (nat (10 + 32)) = Some 1"
    by (simp add: pool_sizes_def eval_nat_numeral)
  have "example_malloc (blocks ?h) (block_size (10 + 32)) = 0x10000"
    using fit by (simp add: example_malloc_def fits_at_def block_size_def pool_sizes_nth)
  from lock_free.alloc_new [OF inv example_malloc_ok _ _ fit none this] show ?thesis by auto
qed

lemma example_run_1:
  "\<exists>m h. mem_run lock_free_ops example_malloc m h [0x10020 \<mapsto> 10]"
proof -
  obtain m h where "Allocate lock_free_ops example_malloc 10 (Memory_ctor lock_free_ops)
      \<lparr>blocks = (\<lambda>_. None), allocSize = (\<lambda>_. 0)\<rparr> = Inr (0x10020, m, h)"
    using example_allocates by blast
  from mem_run.mem_allocate [OF mem_run.mem_start _ _ this] show ?thesis by auto
qed

section \<open>Properties\<close>

lemma unat_behind:
  assumes "int (unat ((p :: address) - 32)) + 32 < 2 ^ 64"
  shows "unat p = unat (p - 32) + 32"
proof -
  have "unat (p - 32) + unat (32 :: address) < 2 ^ 64" using assms by (simp del: of_nat_unat)
  then have "unat (p - 32 + 32) = unat (p - 32) + unat (32 :: address)"
    by (subst unat_add_lem [symmetric]) simp
  then show ?thesis by simp
qed

lemma live_block:
  assumes core: "mem_core I bs szs L" and p: "L p = Some n"
  shows "unat p = unat (p - 32) + 32" "n + 32 \<le> block_size (n + 32)" "(p - 32) AND 0xF = 0"
    "bs (p - 32) = Some (block_size (n + 32))"
proof -
  note live = mem_coreD(6) [OF core p]
  then have blk: "bs (p - 32) = Some (block_size (n + 32))" by simp
  note blk_ok = mem_coreD(1) [OF core blk]
  show ge: "n + 32 \<le> block_size (n + 32)" using block_size_ge [of "n + 32"] live by simp
  show "unat p = unat (p - 32) + 32" by (rule unat_behind) (use blk_ok ge live in linarith)
  show "(p - 32) AND 0xF = 0" using blk_ok by (simp add: entry_ok_def)
  show "bs (p - 32) = Some (block_size (n + 32))" by (rule blk)
qed

lemma live_apart:
  assumes core: "mem_core I bs szs L" and p: "L p = Some n" and q: "L q = Some k" and ne: "p \<noteq> q"
  shows "apart (unat p - 32) (n + 32) (unat q - 32) (k + 32)"
proof -
  note P = live_block [OF core p] and Q = live_block [OF core q]
  have "q - 32 \<noteq> p - 32" using ne by simp
  then have "apart (unat (p - 32)) (block_size (n + 32)) (unat (q - 32)) (block_size (k + 32))"
    by (rule mem_coreD(2) [OF core P(4) Q(4)])
  then show ?thesis using P(1,2) Q(1,2) unfolding apart_def by auto
qed

lemma low_four: "uint ((w :: address) AND 0xF) = uint w mod 16"
proof -
  have "w AND 0xF = take_bit 4 w" by (simp add: take_bit_eq_mask mask_numeral)
  then show ?thesis by (simp only: unsigned_take_bit_eq) (simp add: take_bit_eq_mod)
qed

lemma align_plus_32:
  assumes "(a :: address) AND 0xF = 0"
  shows "(a + 32) AND 0xF = 0"
proof (rule word_uint_eqI)
  have "uint a mod 16 = 0" using low_four [of a] assms by simp
  then have "(uint a + 32) mod 16 = 0" by presburger
  then have "uint (a + 32) mod 16 = 0" by (simp add: uint_word_ariths mod_mod_cancel)
  then show "uint ((a + 32) AND 0xF) = uint (0 :: address)" using low_four [of "a + 32"] by simp
qed

text \<open>
  The memory given out is the client's alone: every live pointer is 16-byte aligned, and
  the data of two live pointers, with the headers in front of them, do not overlap, whatever
  was allocated, released and reused before.
\<close>

theorem live_memory_apart:
  assumes "slist ops entries ok" "malloc_ok am" "mem_run ops am m h L"
    and "L p = Some n" "L q = Some k"
  shows "p AND 0xF = 0 \<and> (p \<noteq> q \<longrightarrow> apart (unat p - 32) (n + 32) (unat q - 32) (k + 32))"
proof -
  have "mem_inv entries ok m h L" by (rule mem_run_inv [OF assms(3,1,2)])
  then have core: "mem_core (idle entries m) (blocks h) (allocSize h) L" by (simp add: mem_inv_def)
  have "(p - 32 + 32) AND 0xF = 0" by (rule align_plus_32) (rule live_block(3) [OF core assms(4)])
  then show ?thesis using live_apart [OF core assms(4,5)] by simp
qed

theorem live_memory_apart_witness:
  "\<exists>m h. mem_run lock_free_ops example_malloc m h [0x10020 \<mapsto> 10] \<and> (0x10020 :: address) AND 0xF = 0"
proof -
  obtain m h where run: "mem_run lock_free_ops example_malloc m h [0x10020 \<mapsto> 10]"
    using example_run_1 by blast
  have "(0x10020 :: address) AND 0xF = 0"
    using live_memory_apart [OF lock_free.slist_axioms example_malloc_ok run,
        where p = "0x10020" and n = 10 and q = "0x10020" and k = 10] by simp
  then show ?thesis using run by blast
qed

text \<open>
  Used correctly the allocator never fails on its own: a request ends with a pointer that
  was not live, or, if \<^verbatim>\<open>_aligned_malloc\<close> returns null for the block, with the write of
  a header through the null pointer; and every live pointer can be released.
\<close>

theorem memory_serves_client:
  assumes "slist ops entries ok" "malloc_ok am" "mem_run ops am m h L"
    and "0 \<le> n" "n + 32 < 2 ^ 31" "L p = Some k"
  shows "(case Allocate ops am n m h of
      Inr (ptr, m', h') \<Rightarrow> L ptr = None \<and> mem_run ops am m' h' (L(ptr \<mapsto> n))
    | Inl e \<Rightarrow> e = UB ''AttachHeader'' \<and> am (blocks h) (block_size (n + 32)) = 0) \<and>
    (\<exists>m' h'. Release ops p m h = Inr (m', h') \<and> mem_run ops am m' h' (L(p := None)))"
proof -
  have inv: "mem_inv entries ok m h L" by (rule mem_run_inv [OF assms(3,1,2)])
  have "case Allocate ops am n m h of
      Inr (ptr, m', h') \<Rightarrow> L ptr = None \<and> mem_run ops am m' h' (L(ptr \<mapsto> n))
    | Inl e \<Rightarrow> e = UB ''AttachHeader'' \<and> am (blocks h) (block_size (n + 32)) = 0"
  proof (cases "Allocate ops am n m h")
    case (Inr r)
    then obtain ptr m' h' where r: "Allocate ops am n m h = Inr (ptr, m', h')" by (cases r) auto
    show ?thesis
      using slist.Allocate_spec [OF assms(1) inv assms(2,4,5)] r
        mem_run.mem_allocate [OF assms(3,4,5) r] by auto
  next
    case (Inl e)
    then show ?thesis using slist.Allocate_spec [OF assms(1) inv assms(2,4,5)] by simp
  qed
  moreover obtain m' h' where "Release ops p m h = Inr (m', h')"
    using slist.Release_spec [OF assms(1) inv assms(6)] by blast
  ultimately show ?thesis using mem_run.mem_release [OF assms(3,6)] by blast
qed

theorem memory_serves_client_witness:
  "\<exists>m h m' h'. mem_run lock_free_ops example_malloc m h [0x10020 \<mapsto> 10] \<and>
     Release lock_free_ops 0x10020 m h = Inr (m', h')"
proof -
  obtain m h where run: "mem_run lock_free_ops example_malloc m h [0x10020 \<mapsto> 10]"
    using example_run_1 by blast
  then show ?thesis
    using memory_serves_client [OF lock_free.slist_axioms example_malloc_ok run,
        where n = 20 and p = "0x10020" and k = 10] by auto
qed

text \<open>
  C25. Releasing a pointer twice never goes unnoticed while the block waits for reuse: the second
  release of a pooled pointer stops with ASSERT_CRASH; for a block of more than 4096 bytes it reads
  freed memory.
\<close>

theorem double_release_detected:
  assumes "slist ops entries ok" "malloc_ok am" "mem_run ops am m h L"
    and "L p = Some n" "Release ops p m h = Inr (m', h')"
  shows "Release ops p m' h' =
    (if n + 32 \<le> 4096 then Inl (CRASH ''ASSERT_CRASH'') else Inl (UB ''Release''))"
proof -
  have inv: "mem_inv entries ok m h L" by (rule mem_run_inv [OF assms(3,1,2)])
  show ?thesis
  proof (cases "n + 32 \<le> 4096")
    case True
    then obtain i where i: "first_fit pool_sizes (nat (n + 32)) = Some i"
      using fits [of "nat (n + 32)"] by force
    have "mem_inv entries ok m' h' (L(p := None))" "p - 32 \<in> set (idle entries m' i)"
      using slist.Release_pooled [OF assms(1) inv assms(4) True i] assms(5) by auto
    from slist.Release_idle [OF assms(1) this] show ?thesis using True by simp
  next
    case False
    then have "blocks h' (p - 32) = None"
      using slist.Release_large [OF assms(1) inv assms(4)] assms(5) by auto
    then show ?thesis using False by (simp add: Release_def DetechHeader_def Let_def)
  qed
qed

theorem double_release_detected_witness:
  "\<exists>m h m' h'. Release lock_free_ops 0x10020 m h = Inr (m', h') \<and>
     Release lock_free_ops 0x10020 m' h' = Inl (CRASH ''ASSERT_CRASH'')"
proof -
  obtain m h where run: "mem_run lock_free_ops example_malloc m h [0x10020 \<mapsto> 10]"
    using example_run_1 by blast
  obtain m' h' where "Release lock_free_ops 0x10020 m h = Inr (m', h')"
    using lock_free.Release_spec [OF mem_run_inv [OF run lock_free.slist_axioms example_malloc_ok],
        of "0x10020" 10] by auto
  then show ?thesis
    using double_release_detected [OF lock_free.slist_axioms example_malloc_ok run,
        where p = "0x10020" and n = 10]
    by auto
qed

text \<open>
  A released block is the next one reused: after a pooled pointer is released, an allocation
  served by the same pool returns that pointer, and takes no memory from the system.
\<close>

theorem released_block_is_reused:
  assumes "slist ops entries ok" "malloc_ok am" "mem_run ops am m h L"
    and "L p = Some n" "Release ops p m h = Inr (m', h')"
    and "0 \<le> k" "k + 32 \<le> 4096" "pool_for m (k + 32) = pool_for m (n + 32)"
  shows "\<exists>m'' h''. Allocate ops am k m' h' = Inr (p, m'', h'') \<and> blocks h'' = blocks h'"
proof -
  have inv: "mem_inv entries ok m h L" by (rule mem_run_inv [OF assms(3,1,2)])
  then have n: "0 \<le> n" using mem_coreD(6) [of _ _ _ L p n] assms(4) by (auto simp: mem_inv_def)
  obtain i where k: "first_fit pool_sizes (nat (k + 32)) = Some i"
    using fits [of "nat (k + 32)"] assms(7) by force
  then have i: "first_fit pool_sizes (nat (n + 32)) = Some i"
    using assms(6,8) n inv by (simp add: pool_for_def mem_inv_def)
  then have small: "n + 32 \<le> 4096" using fits_only [OF i] n by (simp add: nat_le_iff)
  have inv': "mem_inv entries ok m' h' (L(p := None))"
      and top: "idle entries m' i = (p - 32) # idle entries m i"
    using slist.Release_pooled [OF assms(1) inv assms(4) small i] assms(5) by auto
  obtain m'' h'' where alloc: "Allocate ops am k m' h' = Inr (p - 32 + 32, m'', h'')"
    using slist.alloc_reuse [OF assms(1) inv' assms(6,7) k top, of am] by blast
  have len: "length (pools m') = 50" by (rule inv_length [OF inv'])
  have i50: "i < 50" using fits_only [OF k] by simp
  have "pool_for m' (k + 32) = Some i"
    using inv' k assms(6) by (simp add: pool_for_def mem_inv_def)
  moreover have "entries (pool_list (pools m' ! i)) = (p - 32) # idle entries m i"
    using top len i50 by (simp add: idle_def)
  moreover have "ok (pool_list (pools m' ! i))" using inv' i50 by (simp add: mem_inv_def)
  moreover have "blocks h' (p - 32) \<noteq> None \<and> allocSize h' (p - 32) = 0"
    using mem_coreD(3) [of "idle entries m'" "blocks h'" "allocSize h'" "L(p := None)" "p - 32" i]
      inv' top by (auto simp: mem_inv_def)
  ultimately have "Pool_Pop ops am (pools m' ! i) h' = Inr (p - 32,
      (pools m' ! i)\<lparr>pool_list := snd (pop_entry ops (pool_list (pools m' ! i))),
        reserveCount := to_int32 (reserveCount (pools m' ! i) - 1),
        useCount := to_int32 (useCount (pools m' ! i) + 1)\<rparr>, h')"
    using slist.Pool_Pop_reuse [OF assms(1)] by blast
  moreover have "to_int32 (k + 32) = k + 32" using assms(6,7) by (intro to_int32_id) auto
  ultimately have "blocks h'' = blocks h'"
    using alloc assms(7) \<open>pool_for m' (k + 32) = Some i\<close>
    by (auto simp: Allocate_def sizeof_MemoryHeader_def MAX_ALLOC_SIZE_def AttachHeader_def Let_def
        split: if_splits)
  then show ?thesis using alloc by simp
qed

theorem released_block_is_reused_witness:
  "\<exists>m' h' m'' h''. Allocate lock_free_ops example_malloc 32 m' h' = Inr (0x10020, m'', h'')"
proof -
  obtain m h where run: "mem_run lock_free_ops example_malloc m h [0x10020 \<mapsto> 10]"
    using example_run_1 by blast
  have inv: "mem_inv lock_free_entries lock_free_ok m h [0x10020 \<mapsto> 10]"
    by (rule mem_run_inv [OF run lock_free.slist_axioms example_malloc_ok])
  obtain m' h' where rel: "Release lock_free_ops 0x10020 m h = Inr (m', h')"
    using lock_free.Release_spec [OF inv, of "0x10020" 10] by auto
  have "pool_for m (32 + 32) = pool_for m (10 + 32)"
    using inv by (simp add: pool_for_def mem_inv_def pool_sizes_def eval_nat_numeral)
  then show ?thesis
    using released_block_is_reused [OF lock_free.slist_axioms example_malloc_ok run _ rel,
        where n = 10 and k = 32]
    by auto
qed

lemma idle_lists:
  "(\<exists>i. a \<in> set (idle entries m i)) \<longleftrightarrow> (\<exists>p \<in> set (pools m). a \<in> set (entries (pool_list p)))"
proof
  assume "\<exists>i. a \<in> set (idle entries m i)"
  then obtain i where "i < length (pools m)" "a \<in> set (entries (pool_list (pools m ! i)))"
    by (auto simp: idle_def split: if_splits)
  then show "\<exists>p \<in> set (pools m). a \<in> set (entries (pool_list p))" using nth_mem by blast
next
  assume "\<exists>p \<in> set (pools m). a \<in> set (entries (pool_list p))"
  then obtain i where "i < length (pools m)" "a \<in> set (entries (pool_list (pools m ! i)))"
    by (metis in_set_conv_nth)
  then show "\<exists>i. a \<in> set (idle entries m i)" by (auto simp: idle_def intro: exI [of _ i])
qed

text \<open>
  The counters are exact: \<^verbatim>\<open>_useCount\<close> of a pool is the number of live pointers whose
  blocks come from it, and \<^verbatim>\<open>_reserveCount\<close> the number of blocks on its list (both as an
  \<^verbatim>\<open>int32\<close>). Every allocated block is live or on a list.
\<close>

theorem pool_counters_exact:
  assumes "slist ops entries ok" "malloc_ok am" "mem_run ops am m h L" "i < length (pools m)"
  shows "useCount (pools m ! i) =
      to_int32 (int (card {p. \<exists>n. L p = Some n \<and> pool_for m (n + 32) = Some i})) \<and>
    reserveCount (pools m ! i) = to_int32 (int (length (entries (pool_list (pools m ! i))))) \<and>
    (\<forall>a. blocks h a \<noteq> None \<longleftrightarrow> L (a + 32) \<noteq> None \<or>
      (\<exists>p \<in> set (pools m). a \<in> set (entries (pool_list p))))"
proof -
  have inv: "mem_inv entries ok m h L" by (rule mem_run_inv [OF assms(3,1,2)])
  have len: "length (pools m) = 50" by (rule inv_length [OF inv])
  have core: "mem_core (idle entries m) (blocks h) (allocSize h) L" using inv by (simp add: mem_inv_def)
  have "pool_for m (n + 32) = first_fit pool_sizes (nat (n + 32))" if "L p = Some n" for p n
    using mem_coreD(6) [OF core that] inv by (simp add: pool_for_def mem_inv_def)
  then have "{p. \<exists>n. L p = Some n \<and> pool_for m (n + 32) = Some i} = users L i"
    by (auto simp: users_def)
  moreover have "idle entries m i = entries (pool_list (pools m ! i))"
    using assms(4) by (simp add: idle_def)
  moreover have "blocks h a \<noteq> None \<longleftrightarrow> L (a + 32) \<noteq> None \<or> (\<exists>i. a \<in> set (idle entries m i))" for a
  proof
    assume "L (a + 32) \<noteq> None \<or> (\<exists>i. a \<in> set (idle entries m i))"
    then show "blocks h a \<noteq> None"
      using mem_coreD(3) [OF core, of a] mem_coreD(6) [OF core, of "a + 32"] by auto
  qed (rule mem_coreD(7) [OF core])
  ultimately show ?thesis
    using inv assms(4) len by (simp add: mem_inv_def idle_lists)
qed

theorem pool_counters_exact_witness:
  "\<exists>m h. mem_run lock_free_ops example_malloc m h [0x10020 \<mapsto> 10] \<and>
     useCount (pools m ! 0) = 0 \<and> useCount (pools m ! 1) = 1"
proof -
  obtain m h where run: "mem_run lock_free_ops example_malloc m h [0x10020 \<mapsto> 10]"
    using example_run_1 by blast
  have inv: "mem_inv lock_free_entries lock_free_ok m h [0x10020 \<mapsto> 10]"
    by (rule mem_run_inv [OF run lock_free.slist_axioms example_malloc_ok])
  have len: "length (pools m) = 50" by (rule inv_length [OF inv])
  have "pool_for m 42 = Some 1"
    using inv by (simp add: pool_for_def mem_inv_def pool_sizes_def eval_nat_numeral)
  then have who: "{p. \<exists>n. [0x10020 \<mapsto> 10 :: int] p = Some n \<and> pool_for m (n + 32) = Some i} =
      (if i = 1 then {0x10020} else {})" for i
    by (auto split: if_splits)
  have "useCount (pools m ! i) = (if i = 1 then 1 else 0)" if "i < 2" for i
    using pool_counters_exact [OF lock_free.slist_axioms example_malloc_ok run, of i] that len
    unfolding who by (simp add: to_int32_id split: if_splits)
  from this [of 0] this [of 1] show ?thesis using run by auto
qed

text \<open>
  C26. Destroying \<^verbatim>\<open>Memory\<close> ends, and returns exactly the blocks on the lists to the system: the
  blocks of pointers still live stay allocated.
\<close>

theorem memory_dtor_frees_lists:
  assumes "slist ops entries ok" "malloc_ok am" "mem_run ops am m h L"
  shows "\<exists>fuel h'. Memory_dtor fuel ops (pools m) h = Some h' \<and>
    (\<forall>a. blocks h' a = (if L (a + 32) \<noteq> None then blocks h a else None))"
proof -
  have inv: "mem_inv entries ok m h L" by (rule mem_run_inv [OF assms(3,1,2)])
  have len: "length (pools m) = 50" by (rule inv_length [OF inv])
  have core: "mem_core (idle entries m) (blocks h) (allocSize h) L" using inv by (simp add: mem_inv_def)
  define fuel where "fuel = Suc (sum_list (map (\<lambda>p. length (entries (pool_list p))) (pools m)))"
  define B where "B = (\<lambda>a.
      if \<exists>p \<in> set (pools m). a \<in> set (entries (pool_list p)) then None else blocks h a)"
  have "ok (pool_list p) \<and> length (entries (pool_list p)) < fuel" if "p \<in> set (pools m)" for p
  proof -
    have "length (entries (pool_list p)) \<le> sum_list (map (\<lambda>p. length (entries (pool_list p))) (pools m))"
      by (rule member_le_sum_list) (use that in auto)
    moreover have "ok (pool_list p)" using that inv len by (auto simp: mem_inv_def in_set_conv_nth)
    ultimately show ?thesis by (simp add: fuel_def)
  qed
  then have dtor: "Memory_dtor fuel ops (pools m) h = Some (h\<lparr>blocks := B\<rparr>)"
    using slist.pools_dtor [OF assms(1)] unfolding B_def by blast
  have kept: "(if \<exists>p \<in> set (pools m). a \<in> set (entries (pool_list p)) then None else blocks h a) =
      (if L (a + 32) \<noteq> None then blocks h a else None)" for a
    unfolding idle_lists [symmetric]
  proof (cases "\<exists>i. a \<in> set (idle entries m i)")
    case True
    then have "L (a + 32) = None" using idle_not_live [OF core] by blast
    then show "(if \<exists>i. a \<in> set (idle entries m i) then None else blocks h a) =
      (if L (a + 32) \<noteq> None then blocks h a else None)" using True by simp
  next
    case False
    then show "(if \<exists>i. a \<in> set (idle entries m i) then None else blocks h a) =
      (if L (a + 32) \<noteq> None then blocks h a else None)"
      using mem_coreD(7) [OF core, of a] by (cases "L (a + 32)"; cases "blocks h a") simp_all
  qed
  have "blocks (h\<lparr>blocks := B\<rparr>) a = (if L (a + 32) \<noteq> None then blocks h a else None)" for a
    using kept [of a] by (simp add: B_def)
  then show ?thesis using dtor by blast
qed

theorem memory_dtor_frees_lists_witness:
  "\<exists>m h fuel h'. mem_run lock_free_ops example_malloc m h [0x10020 \<mapsto> 10] \<and>
     Memory_dtor fuel lock_free_ops (pools m) h = Some h' \<and> blocks h' 0x10000 = blocks h 0x10000"
proof -
  obtain m h where run: "mem_run lock_free_ops example_malloc m h [0x10020 \<mapsto> 10]"
    using example_run_1 by blast
  obtain fuel h' where "Memory_dtor fuel lock_free_ops (pools m) h = Some h'"
      "blocks h' 0x10000 = (if [0x10020 \<mapsto> 10 :: int] (0x10000 + 32 :: address) \<noteq> None then blocks h 0x10000 else None)"
    using memory_dtor_frees_lists [OF lock_free.slist_axioms example_malloc_ok run] by blast
  then show ?thesis using run by auto
qed

text \<open>
  C27. Sizes outside of what the client above asks for are not refused: from 2^31 - 32 on the sum
  with the header wraps to a negative number, which indexes \<^verbatim>\<open>_poolTable\<close> out of range, as
  sizes below -32 do; the sizes from -32 to -1 are served with a block of the smallest pool.
\<close>

theorem unchecked_sizes:
  assumes "slist ops entries ok" "malloc_ok am" "mem_run ops am m h L"
    and "- (2 ^ 31) \<le> n" "n < 2 ^ 31" "n < 0 \<or> 2 ^ 31 \<le> n + 32"
  shows "if -32 \<le> n \<and> n < 0 then pool_for m (to_int32 (n + sizeof_MemoryHeader)) = Some 0
    else Allocate ops am n m h = Inl (UB ''_poolTable'')"
proof -
  have inv: "mem_inv entries ok m h L" by (rule mem_run_inv [OF assms(3,1,2)])
  show ?thesis
  proof (cases "-32 \<le> n \<and> n < 0")
    case True
    then have "to_int32 (n + 32) = n + 32" by (intro to_int32_id) auto
    moreover have "first_fit pool_sizes (nat (n + 32)) = Some 0"
      using True by (simp add: first_fit_Some pool_sizes_length pool_sizes_nth nat_le_iff)
    ultimately show ?thesis
      using True inv by (simp add: sizeof_MemoryHeader_def pool_for_def mem_inv_def)
  next
    case False
    have "to_int32 (n + 32) < 0"
    proof (cases "n < 0")
      case True
      then have "to_int32 (n + 32) = n + 32" using False assms(4) by (intro to_int32_id) auto
      then show ?thesis using True False by simp
    next
      case pos: False
      have "to_int32 (n + 32) = to_int32 (n + 32 - 2 ^ 32)"
        using to_int32_wrap [of "n + 32 - 2 ^ 32"] by (simp add: add.commute)
      also have "\<dots> = n + 32 - 2 ^ 32" using pos assms(5,6) by (intro to_int32_id) auto
      finally show ?thesis using assms(5) by simp
    qed
    then show ?thesis
      using False by (auto simp: Allocate_def sizeof_MemoryHeader_def MAX_ALLOC_SIZE_def pool_for_def Let_def)
  qed
qed

theorem unchecked_sizes_witness:
  "Allocate lock_free_ops example_malloc 2147483647 (Memory_ctor lock_free_ops)
     \<lparr>blocks = (\<lambda>_. None), allocSize = (\<lambda>_. 0)\<rparr> = Inl (UB ''_poolTable'')"
  using unchecked_sizes [OF lock_free.slist_axioms example_malloc_ok mem_run.mem_start,
      where n = "2147483647" and szs1 = "\<lambda>_. 0"] by simp

end
