(* ===== verification/Memory_Steps.thy ===== *)
theory Memory_Steps
  imports Memory_Client
begin

text \<open>
  \<^verbatim>\<open>Memory::Allocate\<close> and \<^verbatim>\<open>Memory::Release\<close> as several threads run them at once, without a
  lock: cut at every access that threads share, that is the interlocked lists, the system's
  allocator, the atomic counters and the headers of the blocks. The table of the pools is only read.
  Run by one thread alone, the steps are the functions of theory \<open>Memory_Pool\<close>.
\<close>

section \<open>The places of a thread\<close>

datatype mem_pc =
    M_idle
  | A_call int                     \<comment> \<open>\<open>Allocate(size)\<close>\<close>
  | A_pop int nat                  \<comment> \<open>before \<open>InterlockedPopEntrySList\<close>: \<open>allocSize\<close>, pool\<close>
  | A_malloc int nat               \<comment> \<open>the list was empty\<close>
  | A_check int nat address        \<comment> \<open>before the test of \<open>memory->allocSize\<close>\<close>
  | A_unreserve int nat address    \<comment> \<open>before \<open>_reserveCount.fetch_sub\<close>\<close>
  | A_use int nat address          \<comment> \<open>before \<open>_useCount.fetch_add\<close>\<close>
  | A_large int                    \<comment> \<open>more than \<open>MAX_ALLOC_SIZE\<close>\<close>
  | A_header int address           \<comment> \<open>before \<open>AttachHeader\<close>\<close>
  | A_done int address             \<comment> \<open>with the pointer to return\<close>
  | R_read address                 \<comment> \<open>\<open>Release(ptr)\<close>, before \<open>header->allocSize\<close> is read\<close>
  | R_free address                 \<comment> \<open>before \<open>_aligned_free\<close>\<close>
  | R_zero nat address             \<comment> \<open>before \<open>ptr->allocSize = 0\<close>\<close>
  | R_push nat address             \<comment> \<open>before \<open>InterlockedPushEntrySList\<close>\<close>
  | R_unuse nat                    \<comment> \<open>before \<open>_useCount.fetch_sub\<close>\<close>
  | R_reserve nat                  \<comment> \<open>before \<open>_reserveCount.fetch_add\<close>\<close>

definition at_pool :: "nat \<Rightarrow> ('s pool \<Rightarrow> 's pool) \<Rightarrow> 's memory \<Rightarrow> 's memory" where
  "at_pool i f m = m\<lparr>pools := (pools m)[i := f (pools m ! i)]\<rparr>"

definition with_block :: "address \<Rightarrow> int \<Rightarrow> heap \<Rightarrow> heap" where
  "with_block a n h = (if a = 0 then h else h\<lparr>blocks := (blocks h)(a \<mapsto> n)\<rparr>)"

text \<open>The accesses inside of \<^verbatim>\<open>MemoryPool::Pop\<close> and \<^verbatim>\<open>MemoryPool::Push\<close>.\<close>

fun pool_move :: "'s slist_ops \<Rightarrow> malloc \<Rightarrow> mem_pc \<Rightarrow> 's memory \<Rightarrow> heap \<Rightarrow>
    (mem_pc \<times> 's memory \<times> heap) outcome" where
  "pool_move ops am (A_pop asize i) m h = (case pop_entry ops (pool_list (pools m ! i)) of (memory, l) \<Rightarrow>
     Inr (if memory = 0 then A_malloc asize i else A_check asize i memory,
       at_pool i (\<lambda>p. p\<lparr>pool_list := l\<rparr>) m, h))"
| "pool_move ops am (A_malloc asize i) m h =
     (let n = pool_allocSize (pools m ! i); a = am (blocks h) n in Inr (A_use asize i a, m, with_block a n h))"
| "pool_move ops am (A_check asize i memory) m h =
     (if blocks h memory = None then Inl (UB ''Pop'')
      else and_then (ASSERT_CRASH (allocSize h memory = 0)) (\<lambda>_. Inr (A_unreserve asize i memory, m, h)))"
| "pool_move ops am (A_unreserve asize i memory) m h =
     Inr (A_use asize i memory, at_pool i (\<lambda>p. p\<lparr>reserveCount := to_int32 (reserveCount p - 1)\<rparr>) m, h)"
| "pool_move ops am (A_use asize i memory) m h =
     Inr (A_header asize memory, at_pool i (\<lambda>p. p\<lparr>useCount := to_int32 (useCount p + 1)\<rparr>) m, h)"
| "pool_move ops am (R_zero i ptr) m h =
     (if blocks h ptr = None then Inl (UB ''Push'')
      else Inr (R_push i ptr, m, h\<lparr>allocSize := (allocSize h)(ptr := 0)\<rparr>))"
| "pool_move ops am (R_push i ptr) m h =
     (if blocks h ptr = None then Inl (UB ''Push'')
      else Inr (R_unuse i, at_pool i (\<lambda>p. p\<lparr>pool_list := push_entry ops ptr (pool_list p)\<rparr>) m, h))"
| "pool_move ops am (R_unuse i) m h =
     Inr (R_reserve i, at_pool i (\<lambda>p. p\<lparr>useCount := to_int32 (useCount p - 1)\<rparr>) m, h)"
| "pool_move ops am (R_reserve i) m h =
     Inr (M_idle, at_pool i (\<lambda>p. p\<lparr>reserveCount := to_int32 (reserveCount p + 1)\<rparr>) m, h)"
| "pool_move ops am p m h = Inr (p, m, h)"

text \<open>\<^verbatim>\<open>Memory::Allocate\<close> and \<^verbatim>\<open>Memory::Release\<close>; between the calls nothing happens.\<close>

fun mem_move :: "'s slist_ops \<Rightarrow> malloc \<Rightarrow> mem_pc \<Rightarrow> 's memory \<Rightarrow> heap \<Rightarrow>
    (mem_pc \<times> 's memory \<times> heap) outcome" where
  "mem_move ops am (A_call sz) m h =
     (let asize = to_int32 (sz + sizeof_MemoryHeader)
      in if MAX_ALLOC_SIZE < asize then Inr (A_large asize, m, h)
         else (case pool_for m asize of None \<Rightarrow> Inl (UB ''_poolTable'') | Some i \<Rightarrow> Inr (A_pop asize i, m, h)))"
| "mem_move ops am (A_large asize) m h =
     (let a = am (blocks h) asize in Inr (A_header asize a, m, with_block a asize h))"
| "mem_move ops am (A_header asize header) m h =
     and_then (AttachHeader header asize h) (\<lambda>(ptr, h). Inr (A_done asize ptr, m, h))"
| "mem_move ops am (R_read ptr) m h =
     (let header = DetechHeader ptr; asize = allocSize h header
      in if blocks h header = None then Inl (UB ''Release'')
         else and_then (ASSERT_CRASH (asize > 0)) (\<lambda>_.
           if MAX_ALLOC_SIZE < asize then Inr (R_free header, m, h)
           else (case pool_for m asize of None \<Rightarrow> Inl (UB ''_poolTable'') | Some i \<Rightarrow> Inr (R_zero i header, m, h))))"
| "mem_move ops am (R_free header) m h =
     (if blocks h header = None then Inl (UB ''_aligned_free'')
      else Inr (M_idle, m, h\<lparr>blocks := (blocks h)(header := None)\<rparr>))"
| "mem_move ops am p m h = pool_move ops am p m h"

section \<open>One thread alone\<close>

fun mem_solo :: "nat \<Rightarrow> 's slist_ops \<Rightarrow> malloc \<Rightarrow> mem_pc \<Rightarrow> 's memory \<Rightarrow> heap \<Rightarrow>
    (mem_pc \<times> 's memory \<times> heap) outcome" where
  "mem_solo 0 ops am p m h = Inr (p, m, h)"
| "mem_solo (Suc k) ops am p m h = and_then (mem_move ops am p m h) (\<lambda>(p, m, h). mem_solo k ops am p m h)"

lemma solo_stays: "mem_solo k ops am M_idle m h = Inr (M_idle, m, h)"
  "mem_solo k ops am (A_done n p) m h = Inr (A_done n p, m, h)"
  by (induction k) simp_all

lemma mem_solo_step: "mem_move ops am p m h = Inr (p', m', h') \<Longrightarrow>
    mem_solo (Suc k) ops am p m h = mem_solo k ops am p' m' h'"
  by simp

lemma mem_solo_stop: "mem_move ops am p m h = Inl x \<Longrightarrow> mem_solo (Suc k) ops am p m h = Inl x"
  by simp

lemma pool_for_range:
  "\<forall>n i. poolTable m n = Some i \<longrightarrow> i < length (pools m) \<Longrightarrow> pool_for m n = Some i \<Longrightarrow> i < length (pools m)"
  by (auto simp: pool_for_def split: if_splits)

lemma solo_header:
  "mem_solo (Suc k) ops am (A_header asize header) m h =
     and_then (AttachHeader header asize h) (\<lambda>(ptr, h). Inr (A_done asize ptr, m, h))"
  by (cases "AttachHeader header asize h") (auto simp: solo_stays split: prod.splits)

lemma solo_pop:
  assumes i: "i < length (pools m)"
  shows "mem_solo 5 ops am (A_pop asize i) m h = and_then (Pool_Pop ops am (pools m ! i) h) (\<lambda>(header, p, h').
    and_then (AttachHeader header asize h') (\<lambda>(ptr, h''). Inr (A_done asize ptr, m\<lparr>pools := (pools m)[i := p]\<rparr>, h'')))"
proof -
  obtain memory l where pop: "pop_entry ops (pool_list (pools m ! i)) = (memory, l)" by (cases "pop_entry ops (pool_list (pools m ! i))")
  have five: "5 = Suc (Suc (Suc (Suc (Suc 0))))" by simp
  show ?thesis
  proof (cases "memory = 0")
    case True
    show ?thesis unfolding five using True i
      by (simp add: pop Pool_Pop_def at_pool_def Let_def with_block_def and_then_assoc split_def)
  next
    case False
    show ?thesis
    proof (cases "blocks h memory = None")
      case True
      then show ?thesis unfolding five using False by (simp add: pop Pool_Pop_def)
    next
      case alloc: False
      show ?thesis
      proof (cases "allocSize h memory = 0")
        case True
        show ?thesis unfolding five using alloc False i True
          by (auto simp: pop Pool_Pop_def at_pool_def and_then_assoc split_def)
      next
        case bad: False
        show ?thesis unfolding five using alloc False bad
          by (simp add: pop Pool_Pop_def ASSERT_CRASH_def)
      qed
    qed
  qed
qed

lemma solo_push:
  assumes i: "i < length (pools m)"
  shows "mem_solo 4 ops am (R_zero i header) m h = and_then (Pool_Push ops header (pools m ! i) h) (\<lambda>(p, h').
    Inr (M_idle, m\<lparr>pools := (pools m)[i := p]\<rparr>, h'))"
proof -
  have four: "4 = Suc (Suc (Suc (Suc 0)))" by simp
  show ?thesis unfolding four using i by (simp add: Pool_Push_def at_pool_def)
qed

lemma solo_allocate:
  assumes tab: "\<forall>n i. poolTable m n = Some i \<longrightarrow> i < length (pools m)"
  shows "mem_solo 6 ops am (A_call sz) m h =
      and_then (Allocate ops am sz m h) (\<lambda>(ptr, m', h'). Inr (A_done (to_int32 (sz + 32)) ptr, m', h'))"
proof -
  define asize where "asize = to_int32 (sz + 32)"
  have six: "6 = Suc 5" by simp
  show ?thesis
  proof (cases "MAX_ALLOC_SIZE < asize")
    case True
    have "mem_solo 6 ops am (A_call sz) m h = mem_solo (Suc (Suc 3)) ops am (A_large asize) m h"
      using True by (simp add: asize_def sizeof_MemoryHeader_def eval_nat_numeral)
    also have "\<dots> = mem_solo (Suc 3) ops am (A_header asize (am (blocks h) asize)) m
        (with_block (am (blocks h) asize) asize h)"
      by (rule mem_solo_step) (simp add: Let_def)
    finally show ?thesis using True
      unfolding solo_header
      by (simp add: Allocate_def sizeof_MemoryHeader_def with_block_def Let_def asize_def and_then_assoc split_def)
  next
    case False
    show ?thesis
    proof (cases "pool_for m asize")
      case None
      have "mem_solo 6 ops am (A_call sz) m h = Inl (UB ''_poolTable'')"
        unfolding six by (rule mem_solo_stop) (use False None in \<open>simp add: asize_def sizeof_MemoryHeader_def\<close>)
      then show ?thesis using False None by (simp add: Allocate_def sizeof_MemoryHeader_def Let_def asize_def)
    next
      case (Some i)
      have i: "i < length (pools m)" by (rule pool_for_range [OF tab Some])
      have "mem_solo 6 ops am (A_call sz) m h = mem_solo 5 ops am (A_pop asize i) m h"
        unfolding six by (rule mem_solo_step) (use False Some in \<open>simp add: asize_def sizeof_MemoryHeader_def\<close>)
      then show ?thesis using False Some unfolding solo_pop [OF i]
        by (simp add: Allocate_def sizeof_MemoryHeader_def Let_def asize_def and_then_assoc split_def)
    qed
  qed
qed

lemma solo_release:
  assumes tab: "\<forall>n i. poolTable m n = Some i \<longrightarrow> i < length (pools m)"
  shows "mem_solo 5 ops am (R_read ptr) m h = and_then (Release ops ptr m h) (\<lambda>(m', h'). Inr (M_idle, m', h'))"
proof -
  define header where "header = DetechHeader ptr"
  define asize where "asize = allocSize h header"
  have five: "5 = Suc 4" and five': "5 = Suc (Suc 3)" by simp_all
  show ?thesis
  proof (cases "blocks h header = None \<or> \<not> asize > 0")
    case True
    define x where "x = (if blocks h header = None then UB ''Release'' else CRASH ''ASSERT_CRASH'')"
    have "mem_solo 5 ops am (R_read ptr) m h = Inl x"
      unfolding five by (rule mem_solo_stop) (use True in \<open>auto simp: Let_def header_def asize_def x_def\<close>)
    then show ?thesis using True by (auto simp: Release_def Let_def header_def asize_def x_def)
  next
    case ok: False
    show ?thesis
    proof (cases "MAX_ALLOC_SIZE < asize")
      case True
      have "mem_solo 5 ops am (R_read ptr) m h = mem_solo (Suc 3) ops am (R_free header) m h"
        unfolding five' by (rule mem_solo_step) (use ok True in \<open>simp add: header_def asize_def Let_def\<close>)
      also have "\<dots> = mem_solo 3 ops am M_idle m (h\<lparr>blocks := (blocks h)(header := None)\<rparr>)"
        by (rule mem_solo_step) (use ok in simp)
      also have "\<dots> = Inr (M_idle, m, h\<lparr>blocks := (blocks h)(header := None)\<rparr>)" by (rule solo_stays)
      finally show ?thesis using ok True by (simp add: Release_def Let_def header_def asize_def)
    next
      case False
      show ?thesis
      proof (cases "pool_for m asize")
        case None
        have "mem_solo 5 ops am (R_read ptr) m h = Inl (UB ''_poolTable'')"
          unfolding five by (rule mem_solo_stop) (use ok False None in \<open>simp add: Let_def header_def asize_def\<close>)
        then show ?thesis using ok False None by (simp add: Release_def Let_def header_def asize_def)
      next
        case (Some i)
        have i: "i < length (pools m)" by (rule pool_for_range [OF tab Some])
        have "mem_solo 5 ops am (R_read ptr) m h = mem_solo 4 ops am (R_zero i header) m h"
          unfolding five by (rule mem_solo_step) (use ok False Some in \<open>simp add: header_def asize_def Let_def\<close>)
        then show ?thesis using ok False Some unfolding solo_push [OF i]
          by (auto simp: Release_def Let_def header_def asize_def and_then_assoc split_def)
      qed
    qed
  qed
qed

text \<open>
  Run without interference, the accesses of \<^verbatim>\<open>Allocate\<close> and \<^verbatim>\<open>Release\<close> compute exactly the
  functions \<open>Allocate\<close> and \<open>Release\<close>, failures included.
\<close>

theorem memory_alone_refines:
  assumes "\<forall>n i. poolTable m n = Some i \<longrightarrow> i < length (pools m)"
  shows "mem_solo 6 ops am (A_call sz) m h =
      and_then (Allocate ops am sz m h) (\<lambda>(ptr, m', h'). Inr (A_done (to_int32 (sz + 32)) ptr, m', h')) \<and>
    mem_solo 5 ops am (R_read ptr) m h = and_then (Release ops ptr m h) (\<lambda>(m', h'). Inr (M_idle, m', h'))"
  using solo_allocate [OF assms] solo_release [OF assms] by blast

text \<open>The memory manager as it is constructed, and a request for ten bytes.\<close>

theorem memory_alone_refines_witness:
  "\<exists>m' h'. mem_solo 6 lock_free_ops example_malloc (A_call 10) (Memory_ctor lock_free_ops)
     \<lparr>blocks = (\<lambda>_. None), allocSize = (\<lambda>_. 0)\<rparr> = Inr (A_done 42 0x10020, m', h')"
proof -
  let ?m = "Memory_ctor lock_free_ops"
  let ?h = "\<lparr>blocks = (\<lambda>_. None), allocSize = (\<lambda>_. 0)\<rparr>"
  have tab: "\<forall>n i. poolTable ?m n = Some i \<longrightarrow> i < length (pools ?m)"
    using fits_only by (auto simp: Memory_ctor_eq pool_sizes_length)
  obtain m' h' where "Allocate lock_free_ops example_malloc 10 ?m ?h = Inr (0x10020, m', h')"
    using example_allocates by blast
  then show ?thesis using memory_alone_refines [OF tab, of lock_free_ops example_malloc 10 ?h]
    by (simp add: to_int32_id)
qed

end
