(* ===== verification/Memory_Parts.thy ===== *)
theory Memory_Parts
  imports Memory_Steps
begin

text \<open>
  Every block of the system's allocator is, while threads allocate and release at the same time, in
  exactly one of three places: on the idle list of a pool, with the client, or in the hands of a
  thread that is inside a call. The moves of a block from one place to another keep this.
\<close>

definition mem_parts :: "(nat \<Rightarrow> address list) \<Rightarrow> (address \<Rightarrow> int option) \<Rightarrow> (address \<Rightarrow> int) \<Rightarrow>
    live_map \<Rightarrow> address set \<Rightarrow> bool" where
  "mem_parts I bs szs L H \<longleftrightarrow>
     (\<forall>a n. bs a = Some n \<longrightarrow> 0 < n \<and> entry_ok a \<and> int (unat a) + n < 2 ^ 64 \<and>
        (\<forall>b m. bs b = Some m \<longrightarrow> b \<noteq> a \<longrightarrow> apart (unat a) n (unat b) m)) \<and>
     (\<forall>i a. a \<in> set (I i) \<longrightarrow> i < 50 \<and> bs a = Some (int (pool_sizes ! i)) \<and> szs a = 0) \<and>
     (\<forall>i. distinct (I i)) \<and> (\<forall>i j. i \<noteq> j \<longrightarrow> set (I i) \<inter> set (I j) = {}) \<and>
     (\<forall>p n. L p = Some n \<longrightarrow> 0 \<le> n \<and> n + 32 < 2 ^ 31 \<and> szs (p - 32) = n + 32 \<and>
        bs (p - 32) = Some (block_size (n + 32))) \<and>
     (\<forall>a \<in> H. bs a \<noteq> None \<and> (\<forall>i. a \<notin> set (I i)) \<and> L (a + 32) = None) \<and>
     (\<forall>a. bs a \<noteq> None \<longrightarrow> a \<in> H \<or> L (a + 32) \<noteq> None \<or> (\<exists>i. a \<in> set (I i)))"

lemma mem_partsD:
  assumes "mem_parts I bs szs L H"
  shows "bs a = Some n \<Longrightarrow> 0 < n \<and> entry_ok a \<and> int (unat a) + n < 2 ^ 64"
    and "bs a = Some n \<Longrightarrow> bs b = Some m \<Longrightarrow> b \<noteq> a \<Longrightarrow> apart (unat a) n (unat b) m"
    and "a \<in> set (I i) \<Longrightarrow> i < 50 \<and> bs a = Some (int (pool_sizes ! i)) \<and> szs a = 0"
    and "distinct (I i)" and "i \<noteq> j \<Longrightarrow> a \<in> set (I i) \<Longrightarrow> a \<notin> set (I j)"
    and "L p = Some n \<Longrightarrow> 0 \<le> n \<and> n + 32 < 2 ^ 31 \<and> szs (p - 32) = n + 32 \<and>
        bs (p - 32) = Some (block_size (n + 32))"
    and "a \<in> H \<Longrightarrow> bs a \<noteq> None \<and> a \<notin> set (I i) \<and> L (a + 32) = None"
    and "bs a \<noteq> None \<Longrightarrow> a \<in> H \<or> L (a + 32) \<noteq> None \<or> (\<exists>i. a \<in> set (I i))"
  using assms unfolding mem_parts_def by blast+

lemma mem_partsI:
  assumes "\<And>a n. bs a = Some n \<Longrightarrow> 0 < n \<and> entry_ok a \<and> int (unat a) + n < 2 ^ 64"
    and "\<And>a n b m. bs a = Some n \<Longrightarrow> bs b = Some m \<Longrightarrow> b \<noteq> a \<Longrightarrow> apart (unat a) n (unat b) m"
    and "\<And>a i. a \<in> set (I i) \<Longrightarrow> i < 50 \<and> bs a = Some (int (pool_sizes ! i)) \<and> szs a = 0"
    and "\<And>i. distinct (I i)" and "\<And>i j a. i \<noteq> j \<Longrightarrow> a \<in> set (I i) \<Longrightarrow> a \<in> set (I j) \<Longrightarrow> False"
    and "\<And>p n. L p = Some n \<Longrightarrow> 0 \<le> n \<and> n + 32 < 2 ^ 31 \<and> szs (p - 32) = n + 32 \<and>
        bs (p - 32) = Some (block_size (n + 32))"
    and "\<And>a i. a \<in> H \<Longrightarrow> bs a \<noteq> None \<and> a \<notin> set (I i) \<and> L (a + 32) = None"
    and "\<And>a. bs a \<noteq> None \<Longrightarrow> a \<in> H \<or> L (a + 32) \<noteq> None \<or> (\<exists>i. a \<in> set (I i))"
  shows "mem_parts I bs szs L H"
  unfolding mem_parts_def using assms(1-4,6-8) by (intro conjI allI impI ballI) (auto dest: assms(5))

lemma parts_idle_live:
  assumes "mem_parts I bs szs L H" "a \<in> set (I i)"
  shows "L (a + 32) = None" "a \<notin> H"
proof -
  show "L (a + 32) = None"
  proof (cases "L (a + 32)")
    case (Some n)
    then have "0 \<le> n" "szs a = n + 32" using mem_partsD(6) [OF assms(1), of "a + 32" n] by auto
    then show ?thesis using mem_partsD(3) [OF assms] by simp
  qed simp
  show "a \<notin> H" using mem_partsD(7) [OF assms(1), of a i] assms(2) by blast
qed

lemma parts_no_block:
  assumes "mem_parts I bs szs L H" "bs a = None"
  shows "L (a + 32) = None" "a \<notin> set (I i)" "a \<notin> H"
proof -
  show "L (a + 32) = None"
    using mem_partsD(6) [OF assms(1), of "a + 32"] assms(2) by (cases "L (a + 32)") auto
  show "a \<notin> set (I i)" using mem_partsD(3) [OF assms(1), of a i] assms(2) by auto
  show "a \<notin> H" using mem_partsD(7) [OF assms(1), of a] assms(2) by auto
qed

lemma minus_plus_32 [simp]: "(p :: address) - 32 = a \<longleftrightarrow> p = a + 32"
  by (auto simp: algebra_simps)

text \<open>From a list into the hands of a thread.\<close>

lemma parts_take:
  assumes P: "mem_parts I bs szs L H" and top: "I i = e # es"
  shows "mem_parts (I(i := es)) bs szs L (insert e H)"
proof -
  note D = mem_partsD [OF P]
  have e: "e \<in> set (I i)" and sub: "set es \<subseteq> set (I i)" and dist: "distinct (e # es)"
    using top D(4) [of i] by auto
  note free = parts_idle_live [OF P e]
  show ?thesis
  proof (rule mem_partsI)
    fix a j assume "a \<in> set ((I(i := es)) j)"
    then have "a \<in> set (I j)" using sub by (auto split: if_splits)
    then show "j < 50 \<and> bs a = Some (int (pool_sizes ! j)) \<and> szs a = 0" by (rule D(3))
  next
    fix j show "distinct ((I(i := es)) j)" using D(4) dist by simp
  next
    fix j k a assume "j \<noteq> k" "a \<in> set ((I(i := es)) j)" "a \<in> set ((I(i := es)) k)"
    then show False using sub D(5) by (auto split: if_splits)
  next
    fix a j assume "a \<in> insert e H"
    then show "bs a \<noteq> None \<and> a \<notin> set ((I(i := es)) j) \<and> L (a + 32) = None"
    proof
      assume a: "a = e"
      have "e \<notin> set (I j)" if "j \<noteq> i" using D(5) [of i j e] e that by auto
      then show ?thesis using a free D(3) [OF e] dist by (auto split: if_splits)
    next
      assume "a \<in> H"
      then show ?thesis using D(7) [of a] sub by (auto split: if_splits)
    qed
  next
    fix a assume "bs a \<noteq> None"
    then show "a \<in> insert e H \<or> L (a + 32) \<noteq> None \<or> (\<exists>j. a \<in> set ((I(i := es)) j))"
      using D(8) [of a] top by (cases "a = e") (auto split: if_splits, metis set_ConsD)
  qed (fact D(1,2,6))+
qed

text \<open>From the system into the hands of a thread.\<close>

lemma parts_fresh:
  assumes P: "mem_parts I bs szs L H" and new: "bs a = None" "entry_ok a" "0 < n" "int (unat a) + n < 2 ^ 64"
    and away: "\<And>b m. bs b = Some m \<Longrightarrow> apart (unat a) n (unat b) m"
  shows "mem_parts I (bs(a \<mapsto> n)) szs L (insert a H)"
proof -
  note D = mem_partsD [OF P]
  note free = parts_no_block [OF P new(1)]
  show ?thesis
  proof (rule mem_partsI)
    fix b m assume "(bs(a \<mapsto> n)) b = Some m"
    then show "0 < m \<and> entry_ok b \<and> int (unat b) + m < 2 ^ 64"
      using D(1) new by (cases "b = a") auto
  next
    fix b m c k assume "(bs(a \<mapsto> n)) b = Some m" "(bs(a \<mapsto> n)) c = Some k" "c \<noteq> b"
    then show "apart (unat b) m (unat c) k"
      using D(2) away away [THEN iffD1 [OF apart_sym]] by (auto split: if_splits)
  next
    fix b i assume "b \<in> set (I i)"
    then show "i < 50 \<and> (bs(a \<mapsto> n)) b = Some (int (pool_sizes ! i)) \<and> szs b = 0"
      using D(3) [of b i] free(2) [of i] by auto
  next
    fix p k assume "L p = Some k"
    then show "0 \<le> k \<and> k + 32 < 2 ^ 31 \<and> szs (p - 32) = k + 32 \<and> (bs(a \<mapsto> n)) (p - 32) = Some (block_size (k + 32))"
      using D(6) [of p k] free(1) by auto
  next
    fix b i assume "b \<in> insert a H"
    then show "(bs(a \<mapsto> n)) b \<noteq> None \<and> b \<notin> set (I i) \<and> L (b + 32) = None"
      using D(7) [of b i] free by auto
  next
    fix b assume "(bs(a \<mapsto> n)) b \<noteq> None"
    then show "b \<in> insert a H \<or> L (b + 32) \<noteq> None \<or> (\<exists>i. b \<in> set (I i))"
      using D(8) [of b] by (cases "b = a") auto
  qed (use D(4,5) in auto)
qed

text \<open>A header in the hands of a thread is written.\<close>

lemma parts_write:
  assumes P: "mem_parts I bs szs L H" and a: "a \<in> H"
  shows "mem_parts I bs (szs(a := v)) L H"
proof -
  note D = mem_partsD [OF P]
  note mine = D(7) [OF a]
  show ?thesis
  proof (rule mem_partsI)
    fix b i assume b: "b \<in> set (I i)"
    then have "b \<noteq> a" using mine by auto
    then show "i < 50 \<and> bs b = Some (int (pool_sizes ! i)) \<and> (szs(a := v)) b = 0" using D(3) [OF b] by simp
  next
    fix p k assume p: "L p = Some k"
    then have "p \<noteq> a + 32" using mine by auto
    then show "0 \<le> k \<and> k + 32 < 2 ^ 31 \<and> (szs(a := v)) (p - 32) = k + 32 \<and> bs (p - 32) = Some (block_size (k + 32))"
      using D(6) [OF p] by auto
  qed (use D(1,2,4,5,7,8) in auto)
qed

text \<open>From the hands of a thread to the client and back.\<close>

lemma parts_lend:
  assumes P: "mem_parts I bs szs L H" and a: "a \<in> H"
    and n: "0 \<le> n" "n + 32 < 2 ^ 31" "szs a = n + 32" "bs a = Some (block_size (n + 32))"
  shows "mem_parts I bs szs (L(a + 32 \<mapsto> n)) (H - {a})"
proof -
  note D = mem_partsD [OF P]
  show ?thesis
  proof (rule mem_partsI)
    fix p k assume "(L(a + 32 \<mapsto> n)) p = Some k"
    then show "0 \<le> k \<and> k + 32 < 2 ^ 31 \<and> szs (p - 32) = k + 32 \<and> bs (p - 32) = Some (block_size (k + 32))"
      using D(6) [of p k] n by (auto split: if_splits)
  qed (use D(1-5,7,8) in auto)
qed

lemma parts_return:
  assumes P: "mem_parts I bs szs L H" and p: "L p = Some n"
  shows "mem_parts I bs szs (L(p := None)) (insert (p - 32) H)"
proof -
  note D = mem_partsD [OF P]
  have free: "p - 32 \<notin> set (I i)" for i using parts_idle_live(1) [OF P, of "p - 32" i] p by auto
  show ?thesis
  proof (rule mem_partsI)
    fix a i assume "a \<in> insert (p - 32) H"
    then show "bs a \<noteq> None \<and> a \<notin> set (I i) \<and> (L(p := None)) (a + 32) = None"
      using D(7) [of a i] D(6) [OF p] free [of i] by auto
  next
    fix a assume "bs a \<noteq> None"
    then show "a \<in> insert (p - 32) H \<or> (L(p := None)) (a + 32) \<noteq> None \<or> (\<exists>i. a \<in> set (I i))"
      using D(8) [of a] by (cases "a + 32 = p") auto
  qed (use D(1-6) in \<open>auto split: if_splits\<close>)
qed

text \<open>From the hands of a thread onto a list, or back to the system.\<close>

lemma parts_give:
  assumes P: "mem_parts I bs szs L H" and a: "a \<in> H"
    and i: "i < 50" "bs a = Some (int (pool_sizes ! i))" "szs a = 0"
  shows "mem_parts (I(i := a # I i)) bs szs L (H - {a})"
proof -
  note D = mem_partsD [OF P]
  have free: "a \<notin> set (I j)" for j using D(7) [OF a] by blast
  show ?thesis
  proof (rule mem_partsI)
    fix b j assume "b \<in> set ((I(i := a # I i)) j)"
    then show "j < 50 \<and> bs b = Some (int (pool_sizes ! j)) \<and> szs b = 0"
      using D(3) [of b j] i by (auto split: if_splits)
  next
    fix j show "distinct ((I(i := a # I i)) j)" using D(4) free by simp
  next
    fix j k b assume "j \<noteq> k" "b \<in> set ((I(i := a # I i)) j)" "b \<in> set ((I(i := a # I i)) k)"
    then show False using D(5) free by (auto split: if_splits)
  next
    fix b j assume "b \<in> H - {a}"
    then show "bs b \<noteq> None \<and> b \<notin> set ((I(i := a # I i)) j) \<and> L (b + 32) = None"
      using D(7) [of b] by auto
  next
    fix b assume "bs b \<noteq> None"
    then show "b \<in> H - {a} \<or> L (b + 32) \<noteq> None \<or> (\<exists>j. b \<in> set ((I(i := a # I i)) j))"
      using D(8) [of b] by (cases "b = a") (auto intro: exI [of _ i] split: if_splits)
  qed (fact D(1,2,6))+
qed

lemma parts_free:
  assumes P: "mem_parts I bs szs L H" and a: "a \<in> H"
  shows "mem_parts I (bs(a := None)) szs L (H - {a})"
proof -
  note D = mem_partsD [OF P]
  note mine = D(7) [OF a]
  show ?thesis
  proof (rule mem_partsI)
    fix b i assume b: "b \<in> set (I i)"
    then have "b \<noteq> a" using mine by auto
    then show "i < 50 \<and> (bs(a := None)) b = Some (int (pool_sizes ! i)) \<and> szs b = 0" using D(3) [OF b] by simp
  next
    fix p k assume p: "L p = Some k"
    then have "p \<noteq> a + 32" using mine by auto
    then show "0 \<le> k \<and> k + 32 < 2 ^ 31 \<and> szs (p - 32) = k + 32 \<and> (bs(a := None)) (p - 32) = Some (block_size (k + 32))"
      using D(6) [OF p] by auto
  qed (use D(1,2,4,5,7,8) in \<open>auto split: if_splits\<close>)
qed

end
