(* ===== verification/Memory_Moves.thy ===== *)
theory Memory_Moves
  imports Memory_Parts
begin

text \<open>
  What the thread about to move may rely on, and that every move keeps it. \<open>H\<close> are the blocks in the
  hands of the other threads, \<open>K\<close> and \<open>Q\<close> what the other threads owe the two counters of each pool.
\<close>

section \<open>What a thread holds and owes\<close>

fun held_block :: "mem_pc \<Rightarrow> address option" where
  "held_block (A_check asize i a) = Some a"
| "held_block (A_unreserve asize i a) = Some a"
| "held_block (A_use asize i a) = (if a = 0 then None else Some a)"
| "held_block (A_header asize a) = (if a = 0 then None else Some a)"
| "held_block (R_read p) = Some (p - 32)"
| "held_block (R_free a) = Some a"
| "held_block (R_zero i a) = Some a"
| "held_block (R_push i a) = Some a"
| "held_block _ = None"

definition pool_of :: "int \<Rightarrow> nat option" where
  "pool_of n = first_fit pool_sizes (nat n)"

text \<open>
  A thread that has counted a block as used which the client does not have yet, or has taken it from
  the client and not discounted it, makes the use count of the pool one more than the live blocks;
  one that has popped a block not yet discounted, or pushed one not yet counted, is a difference
  between the reserve count and the list.
\<close>

fun use_extra :: "(address \<Rightarrow> int) \<Rightarrow> nat \<Rightarrow> mem_pc \<Rightarrow> int" where
  "use_extra szs i (A_header asize a) = of_bool (pool_of asize = Some i)"
| "use_extra szs i (R_read p) = of_bool (pool_of (szs (p - 32)) = Some i)"
| "use_extra szs i (R_zero j a) = of_bool (j = i)"
| "use_extra szs i (R_push j a) = of_bool (j = i)"
| "use_extra szs i (R_unuse j) = of_bool (j = i)"
| "use_extra szs i _ = 0"

fun res_extra :: "nat \<Rightarrow> mem_pc \<Rightarrow> int" where
  "res_extra i (A_check asize j a) = of_bool (j = i)"
| "res_extra i (A_unreserve asize j a) = of_bool (j = i)"
| "res_extra i (R_unuse j) = - of_bool (j = i)"
| "res_extra i (R_reserve j) = - of_bool (j = i)"
| "res_extra i _ = 0"

fun pc_fact :: "(address \<Rightarrow> int option) \<Rightarrow> (address \<Rightarrow> int) \<Rightarrow> mem_pc \<Rightarrow> bool" where
  "pc_fact bs szs (A_call n) \<longleftrightarrow> 0 \<le> n \<and> n + 32 < 2 ^ 31"
| "pc_fact bs szs (A_pop z i) \<longleftrightarrow> 32 \<le> z \<and> z \<le> 4096 \<and> pool_of z = Some i"
| "pc_fact bs szs (A_malloc z i) \<longleftrightarrow> 32 \<le> z \<and> z \<le> 4096 \<and> pool_of z = Some i"
| "pc_fact bs szs (A_check z i a) \<longleftrightarrow> 32 \<le> z \<and> z \<le> 4096 \<and> pool_of z = Some i \<and> a \<noteq> 0 \<and>
     bs a = Some (int (pool_sizes ! i)) \<and> szs a = 0"
| "pc_fact bs szs (A_unreserve z i a) \<longleftrightarrow> 32 \<le> z \<and> z \<le> 4096 \<and> pool_of z = Some i \<and> a \<noteq> 0 \<and>
     bs a = Some (int (pool_sizes ! i))"
| "pc_fact bs szs (A_use z i a) \<longleftrightarrow> 32 \<le> z \<and> z \<le> 4096 \<and> pool_of z = Some i \<and>
     (a \<noteq> 0 \<longrightarrow> bs a = Some (int (pool_sizes ! i)))"
| "pc_fact bs szs (A_large z) \<longleftrightarrow> 4096 < z \<and> z < 2 ^ 31"
| "pc_fact bs szs (A_header z a) \<longleftrightarrow> 32 \<le> z \<and> z < 2 ^ 31 \<and> (a \<noteq> 0 \<longrightarrow> bs a = Some (block_size z))"
| "pc_fact bs szs (R_read p) \<longleftrightarrow> (\<exists>n. 0 \<le> n \<and> n + 32 < 2 ^ 31 \<and> szs (p - 32) = n + 32 \<and>
     bs (p - 32) = Some (block_size (n + 32)))"
| "pc_fact bs szs (R_zero i a) \<longleftrightarrow> i < 50 \<and> bs a = Some (int (pool_sizes ! i))"
| "pc_fact bs szs (R_push i a) \<longleftrightarrow> i < 50 \<and> bs a = Some (int (pool_sizes ! i)) \<and> szs a = 0"
| "pc_fact bs szs (R_unuse i) \<longleftrightarrow> i < 50"
| "pc_fact bs szs (R_reserve i) \<longleftrightarrow> i < 50"
| "pc_fact bs szs _ \<longleftrightarrow> True"

text \<open>The block of another thread does not change, so neither does what it knows and owes.\<close>

lemma pc_fact_frame:
  assumes "\<And>a. held_block p = Some a \<Longrightarrow> bs' a = bs a \<and> szs' a = szs a"
  shows "pc_fact bs' szs' p = pc_fact bs szs p" "use_extra szs' i p = use_extra szs i p"
  using assms by (cases p; auto split: if_splits)+

section \<open>The invariant for one thread\<close>

definition pools_fixed :: "('s \<Rightarrow> bool) \<Rightarrow> 's memory \<Rightarrow> bool" where
  "pools_fixed ok m \<longleftrightarrow> map pool_allocSize (pools m) = map int pool_sizes \<and>
     poolTable m = first_fit pool_sizes \<and> (\<forall>i < 50. ok (pool_list (pools m ! i)))"

definition counts_ok :: "('s \<Rightarrow> address list) \<Rightarrow> 's memory \<Rightarrow> live_map \<Rightarrow> (nat \<Rightarrow> int) \<Rightarrow> (nat \<Rightarrow> int) \<Rightarrow> bool" where
  "counts_ok entries m L U Q \<longleftrightarrow> (\<forall>i < 50.
     useCount (pools m ! i) = to_int32 (int (card (users L i)) + U i) \<and>
     reserveCount (pools m ! i) = to_int32 (int (length (idle entries m i)) + Q i))"

definition mem_here :: "('s \<Rightarrow> address list) \<Rightarrow> ('s \<Rightarrow> bool) \<Rightarrow> address set \<Rightarrow> (nat \<Rightarrow> int) \<Rightarrow> (nat \<Rightarrow> int) \<Rightarrow>
    mem_pc \<Rightarrow> 's memory \<Rightarrow> heap \<Rightarrow> live_map \<Rightarrow> bool" where
  "mem_here entries ok H K Q p m h L \<longleftrightarrow> pools_fixed ok m \<and> finite (dom L) \<and>
     set_option (held_block p) \<inter> H = {} \<and>
     mem_parts (idle entries m) (blocks h) (allocSize h) L (H \<union> set_option (held_block p)) \<and>
     pc_fact (blocks h) (allocSize h) p \<and>
     counts_ok entries m L (\<lambda>i. use_extra (allocSize h) i p + K i) (\<lambda>i. res_extra i p + Q i)"

lemma pools_fixedD:
  assumes "pools_fixed ok m"
  shows "length (pools m) = 50" "i < 50 \<Longrightarrow> pool_allocSize (pools m ! i) = int (pool_sizes ! i)"
    "i < 50 \<Longrightarrow> ok (pool_list (pools m ! i))" "0 \<le> n \<Longrightarrow> pool_for m n = pool_of n"
proof -
  show len: "length (pools m) = 50"
    using assms pool_sizes_length unfolding pools_fixed_def by (metis length_map)
  show "i < 50 \<Longrightarrow> pool_allocSize (pools m ! i) = int (pool_sizes ! i)"
  proof -
    assume i: "i < 50"
    have "map pool_allocSize (pools m) ! i = map int pool_sizes ! i" using assms by (simp add: pools_fixed_def)
    then show ?thesis using i len pool_sizes_length by simp
  qed
qed (use assms in \<open>simp_all add: pools_fixed_def pool_for_def pool_of_def\<close>)

lemma at_pool_fixed:
  assumes "pools_fixed ok m" "i < 50" "pool_allocSize (f (pools m ! i)) = pool_allocSize (pools m ! i)"
    and "ok (pool_list (f (pools m ! i)))"
  shows "pools_fixed ok (at_pool i f m)"
proof -
  have "map pool_allocSize ((pools m)[i := f (pools m ! i)]) = map pool_allocSize (pools m)"
    using assms(2,3) pools_fixedD(1) [OF assms(1)] by (simp add: map_update list_update_same_conv)
  then show ?thesis using assms pools_fixedD(1) [OF assms(1)]
    by (auto simp: pools_fixed_def at_pool_def nth_list_update)
qed

lemma at_pool_simps:
  assumes "pools_fixed ok m" "i < 50"
  shows "pools (at_pool i f m) ! j = (if j = i then f (pools m ! i) else pools m ! j)"
    "idle entries (at_pool i f m) = (idle entries m)(i := entries (pool_list (f (pools m ! i))))"
  using pools_fixedD(1) [OF assms(1)] assms(2)
  by (auto simp: at_pool_def nth_list_update idle_def fun_eq_iff)

lemma pool_of_range: "pool_of n = Some i \<Longrightarrow> i < 50"
  using fits_only by (auto simp: pool_of_def)

lemma pool_of_large: "4096 < n \<Longrightarrow> pool_of n = None"
  using fits_only [of "nat n"] unfolding pool_of_def by (cases "first_fit pool_sizes (nat n)") force+

lemma pool_of_small: "n \<le> 4096 \<Longrightarrow> \<exists>i. pool_of n = Some i"
  using fits [of "nat n"] by (auto simp: pool_of_def)

lemma pool_of_block: "pool_of n = Some i \<Longrightarrow> n \<le> 4096 \<Longrightarrow> block_size n = int (pool_sizes ! i)"
  by (simp add: pool_of_def block_size_pooled)

lemma users_pool_of: "users L i = {p. \<exists>n. L p = Some n \<and> pool_of (n + 32) = Some i}"
  by (simp add: users_def pool_of_def)

section \<open>The moves\<close>

text \<open>A move that changes no block and no list.\<close>

lemma here_local:
  assumes "mem_here entries ok H K Q p m h L" "held_block p' = held_block p" "pc_fact (blocks h) (allocSize h) p'"
    and "\<And>i. i < 50 \<Longrightarrow> use_extra (allocSize h) i p' = use_extra (allocSize h) i p"
    and "\<And>i. i < 50 \<Longrightarrow> res_extra i p' = res_extra i p"
  shows "mem_here entries ok H K Q p' m h L"
  using assms by (simp add: mem_here_def counts_ok_def)

lemma to_int32_add': "to_int32 (y + to_int32 x) = to_int32 (y + x)"
  using to_int32_add [of x y] by (simp add: add.commute)

lemma to_int32_idem [simp]: "to_int32 (to_int32 x) = to_int32 x"
  using to_int32_add [of x 0] by simp

text \<open>A counter of pool \<open>i\<close> is changed.\<close>

lemma here_count:
  assumes here: "mem_here entries ok H K Q p m h L" and i: "i < 50"
    and f: "\<And>x. pool_allocSize (f x) = pool_allocSize x" "\<And>x. pool_list (f x) = pool_list x"
    and p': "held_block p' = held_block p" "pc_fact (blocks h) (allocSize h) p'"
    and use: "useCount (f (pools m ! i)) = to_int32 (useCount (pools m ! i) + u)"
      "\<And>j. j < 50 \<Longrightarrow> use_extra (allocSize h) j p' = use_extra (allocSize h) j p + (if j = i then u else 0)"
    and res: "reserveCount (f (pools m ! i)) = to_int32 (reserveCount (pools m ! i) + v)"
      "\<And>j. j < 50 \<Longrightarrow> res_extra j p' = res_extra j p + (if j = i then v else 0)"
  shows "mem_here entries ok H K Q p' (at_pool i f m) h L"
proof -
  have fixed: "pools_fixed ok m" using here by (simp add: mem_here_def)
  note at = at_pool_simps [where f = f, OF fixed i]
  have idle: "idle entries (at_pool i f m) = idle entries m"
    using i pools_fixedD(1) [OF fixed] unfolding at(2) by (auto simp: idle_def f fun_eq_iff)
  have fixed': "pools_fixed ok (at_pool i f m)"
    by (rule at_pool_fixed [OF fixed i]) (simp_all add: f pools_fixedD(3) [OF fixed i])
  have "counts_ok entries (at_pool i f m) L (\<lambda>i. use_extra (allocSize h) i p' + K i) (\<lambda>i. res_extra i p' + Q i)"
    using here i unfolding counts_ok_def
    by (auto simp: mem_here_def counts_ok_def at(1) idle use res to_int32_add to_int32_add' algebra_simps)
  then show ?thesis using here fixed' p' by (simp add: mem_here_def idle)
qed

context slist begin

lemma here_pop:
  assumes here: "mem_here entries ok H K Q (A_pop z i) m h L"
    and move: "mem_move ops am (A_pop z i) m h = Inr (p', m', h')"
  shows "mem_here entries ok H K Q p' m' h L \<and> h' = h"
proof -
  have fixed: "pools_fixed ok m" and z: "pool_of z = Some i" "32 \<le> z" "z \<le> 4096"
    using here by (simp_all add: mem_here_def)
  have i: "i < 50" by (rule pool_of_range [OF z(1)])
  have ok: "ok (pool_list (pools m ! i))" by (rule pools_fixedD(3) [OF fixed i])
  obtain memory l where pop: "pop_entry ops (pool_list (pools m ! i)) = (memory, l)" by fastforce
  define f where "f = (\<lambda>p. p\<lparr>pool_list := l\<rparr> :: 's pool)"
  have m': "m' = at_pool i f m" "h' = h" "p' = (if memory = 0 then A_malloc z i else A_check z i memory)"
    using move by (simp_all add: pop f_def)
  have l: "ok l" "entries l = tl (entries (pool_list (pools m ! i)))" "memory = 0 \<longleftrightarrow> entries (pool_list (pools m ! i)) = []"
    using pop_entries [OF ok] pop_zero_iff [OF ok] by (simp_all add: pop)
  note at = at_pool_simps [where f = f, OF fixed i]
  have fs: "useCount (f x) = useCount x" "reserveCount (f x) = reserveCount x" "pool_list (f x) = l" for x
    by (simp_all add: f_def)
  have fixed': "pools_fixed ok (at_pool i f m)"
    by (rule at_pool_fixed [OF fixed i]) (simp_all add: f_def l)
  have idle_i: "idle entries m i = entries (pool_list (pools m ! i))"
    using i pools_fixedD(1) [OF fixed] by (simp add: idle_def)
  have idle': "idle entries (at_pool i f m) = (idle entries m)(i := entries l)" unfolding at(2) by (simp add: f_def)
  have parts: "mem_parts (idle entries m) (blocks h) (allocSize h) L H"
    and counts: "counts_ok entries m L K Q" using here by (simp_all add: mem_here_def)
  show ?thesis
  proof (cases "entries (pool_list (pools m ! i))")
    case Nil
    then have "idle entries (at_pool i f m) = idle entries m" using l idle_i by (auto simp: idle' fun_eq_iff)
    moreover have "counts_ok entries (at_pool i f m) L K Q"
      using counts calculation by (auto simp: counts_ok_def at(1) fs)
    ultimately show ?thesis using here fixed' Nil l z by (simp add: m' mem_here_def)
  next
    case (Cons e es)
    have top: "memory = e" using pop_top [OF ok Cons] by (simp add: pop)
    have e: "e \<in> set (idle entries m i)" using Cons idle_i by simp
    note idle_e = mem_partsD(3) [OF parts e] and free = parts_idle_live(2) [OF parts e]
    have ne: "e \<noteq> 0" using entries_ok [OF ok, of e] Cons by (auto simp: entry_ok_def)
    have "mem_parts ((idle entries m)(i := es)) (blocks h) (allocSize h) L (insert e H)"
      by (rule parts_take [OF parts]) (use Cons idle_i in simp)
    moreover have "counts_ok entries (at_pool i f m) L K (\<lambda>j. res_extra j (A_check z i e) + Q j)"
      using counts i Cons idle_i l(2) by (auto simp: counts_ok_def at(1) idle' fs algebra_simps)
    ultimately show ?thesis using here fixed' Cons l z idle_e free ne top
      by (simp add: m' mem_here_def idle')
  qed
qed

lemma here_push:
  assumes here: "mem_here entries ok H K Q (R_push i a) m h L"
    and move: "mem_move ops am (R_push i a) m h = Inr (p', m', h')"
  shows "mem_here entries ok H K Q p' m' h' L \<and> h' = h"
proof -
  have fixed: "pools_fixed ok m" and i: "i < 50" and a: "a \<notin> H" "blocks h a = Some (int (pool_sizes ! i))" "allocSize h a = 0"
    using here by (simp_all add: mem_here_def)
  have parts: "mem_parts (idle entries m) (blocks h) (allocSize h) L (insert a H)"
    and counts: "counts_ok entries m L (\<lambda>j. of_bool (i = j) + K j) Q" using here by (simp_all add: mem_here_def)
  define f where "f = (\<lambda>p. p\<lparr>pool_list := push_entry ops a (pool_list p)\<rparr> :: 's pool)"
  have m': "m' = at_pool i f m" "h' = h" "p' = R_unuse i"
    using move a by (simp_all add: f_def)
  have ok: "ok (pool_list (pools m ! i))" by (rule pools_fixedD(3) [OF fixed i])
  have idle_i: "idle entries m i = entries (pool_list (pools m ! i))"
    using i pools_fixedD(1) [OF fixed] by (simp add: idle_def)
  have new: "a \<notin> set (idle entries m i)" using mem_partsD(7) [OF parts, of a i] by simp
  have "entry_ok a" using mem_partsD(1) [OF parts a(2)] by simp
  then have push: "ok (push_entry ops a (pool_list (pools m ! i)))"
      "entries (push_entry ops a (pool_list (pools m ! i))) = a # entries (pool_list (pools m ! i))"
    using push_ok [OF ok] new idle_i by simp_all
  have fs: "useCount (f x) = useCount x" "reserveCount (f x) = reserveCount x"
      "pool_list (f x) = push_entry ops a (pool_list x)" for x by (simp_all add: f_def)
  note at = at_pool_simps [where f = f, OF fixed i]
  have fixed': "pools_fixed ok (at_pool i f m)"
    by (rule at_pool_fixed [OF fixed i]) (simp_all add: f_def push)
  have idle': "idle entries (at_pool i f m) = (idle entries m)(i := a # idle entries m i)"
    unfolding at(2) by (simp add: fs push idle_i)
  have "mem_parts ((idle entries m)(i := a # idle entries m i)) (blocks h) (allocSize h) L (insert a H - {a})"
    by (rule parts_give [OF parts]) (use i a in simp_all)
  moreover have "insert a H - {a} = H" using a(1) by simp
  moreover have "counts_ok entries (at_pool i f m) L (\<lambda>j. of_bool (i = j) + K j) (\<lambda>j. - of_bool (i = j) + Q j)"
    using counts i by (auto simp: counts_ok_def at(1) idle' fs)
  ultimately show ?thesis using here fixed' i by (simp add: m' mem_here_def idle')
qed

end

text \<open>The counters.\<close>

lemma here_unuse:
  assumes "mem_here entries ok H K Q (R_unuse i) m h L" "mem_move ops am (R_unuse i) m h = Inr (p', m', h')"
  shows "mem_here entries ok H K Q p' m' h' L \<and> h' = h"
proof -
  have i: "i < 50" using assms(1) by (simp add: mem_here_def)
  have "mem_here entries ok H K Q (R_reserve i) (at_pool i (\<lambda>p. p\<lparr>useCount := to_int32 (useCount p - 1)\<rparr>) m) h L"
    by (rule here_count [OF assms(1) i, where u = "- 1" and v = 0])
      (use assms(1) i in \<open>auto simp: mem_here_def counts_ok_def\<close>)
  then show ?thesis using assms(2) by auto
qed

lemma here_reserve:
  assumes "mem_here entries ok H K Q (R_reserve i) m h L" "mem_move ops am (R_reserve i) m h = Inr (p', m', h')"
  shows "mem_here entries ok H K Q p' m' h' L \<and> h' = h"
proof -
  have i: "i < 50" using assms(1) by (simp add: mem_here_def)
  have "mem_here entries ok H K Q M_idle (at_pool i (\<lambda>p. p\<lparr>reserveCount := to_int32 (reserveCount p + 1)\<rparr>) m) h L"
    by (rule here_count [OF assms(1) i, where u = 0 and v = 1])
      (use assms(1) i in \<open>auto simp: mem_here_def counts_ok_def\<close>)
  then show ?thesis using assms(2) by auto
qed

lemma here_unreserve:
  assumes "mem_here entries ok H K Q (A_unreserve z i a) m h L"
    "mem_move ops am (A_unreserve z i a) m h = Inr (p', m', h')"
  shows "mem_here entries ok H K Q p' m' h' L \<and> h' = h"
proof -
  have z: "pool_of z = Some i" using assms(1) by (simp add: mem_here_def)
  have i: "i < 50" by (rule pool_of_range [OF z])
  have "mem_here entries ok H K Q (A_use z i a) (at_pool i (\<lambda>p. p\<lparr>reserveCount := to_int32 (reserveCount p - 1)\<rparr>) m) h L"
    by (rule here_count [OF assms(1) i, where u = 0 and v = "- 1"])
      (use assms(1) i in \<open>auto simp: mem_here_def counts_ok_def\<close>)
  then show ?thesis using assms(2) by auto
qed

lemma here_use:
  assumes "mem_here entries ok H K Q (A_use z i a) m h L"
    "mem_move ops am (A_use z i a) m h = Inr (p', m', h')"
  shows "mem_here entries ok H K Q p' m' h' L \<and> h' = h"
proof -
  have z: "pool_of z = Some i" "z \<le> 4096" using assms(1) by (simp_all add: mem_here_def)
  have i: "i < 50" by (rule pool_of_range [OF z(1)])
  have "mem_here entries ok H K Q (A_header z a) (at_pool i (\<lambda>p. p\<lparr>useCount := to_int32 (useCount p + 1)\<rparr>) m) h L"
    by (rule here_count [OF assms(1) i, where u = 1 and v = 0])
      (use assms(1) i z pool_of_block [OF z] in \<open>auto simp: mem_here_def counts_ok_def\<close>)
  then show ?thesis using assms(2) by auto
qed

text \<open>Moves within the code of one thread.\<close>

lemma here_call:
  assumes here: "mem_here entries ok H K Q (A_call n) m h L"
  shows "\<exists>p'. mem_move ops am (A_call n) m h = Inr (p', m, h) \<and> mem_here entries ok H K Q p' m h L"
proof -
  have n: "0 \<le> n" "n + 32 < 2 ^ 31" and fixed: "pools_fixed ok m" using here by (simp_all add: mem_here_def)
  have z: "to_int32 (n + sizeof_MemoryHeader) = n + 32"
    using n by (simp add: sizeof_MemoryHeader_def to_int32_id)
  show ?thesis
  proof (cases "4096 < n + 32")
    case True
    then have "mem_move ops am (A_call n) m h = Inr (A_large (n + 32), m, h)"
      unfolding mem_move.simps z by (simp add: MAX_ALLOC_SIZE_def)
    moreover have "mem_here entries ok H K Q (A_large (n + 32)) m h L"
      by (rule here_local [OF here]) (use True n in simp_all)
    ultimately show ?thesis by blast
  next
    case False
    then obtain i where i: "pool_of (n + 32) = Some i" using pool_of_small [of "n + 32"] by auto
    have "pool_for m (n + 32) = Some i" using pools_fixedD(4) [OF fixed, of "n + 32"] n i by simp
    then have "mem_move ops am (A_call n) m h = Inr (A_pop (n + 32) i, m, h)"
      unfolding mem_move.simps z using False by (simp add: MAX_ALLOC_SIZE_def)
    moreover have "mem_here entries ok H K Q (A_pop (n + 32) i) m h L"
      by (rule here_local [OF here]) (use False n i in simp_all)
    ultimately show ?thesis by blast
  qed
qed

lemma here_check:
  assumes here: "mem_here entries ok H K Q (A_check z i a) m h L"
  shows "mem_move ops am (A_check z i a) m h = Inr (A_unreserve z i a, m, h) \<and>
    mem_here entries ok H K Q (A_unreserve z i a) m h L"
proof -
  have "pc_fact (blocks h) (allocSize h) (A_check z i a)" using here by (simp add: mem_here_def)
  then show ?thesis using here_local [OF here, of "A_unreserve z i a"] by simp
qed

lemma here_read:
  assumes here: "mem_here entries ok H K Q (R_read p) m h L"
  shows "\<exists>p'. mem_move ops am (R_read p) m h = Inr (p', m, h) \<and> mem_here entries ok H K Q p' m h L"
proof -
  obtain n where n: "0 \<le> n" "n + 32 < 2 ^ 31" "allocSize h (p - 32) = n + 32"
      "blocks h (p - 32) = Some (block_size (n + 32))" using here by (auto simp: mem_here_def)
  have fixed: "pools_fixed ok m" using here by (simp add: mem_here_def)
  show ?thesis
  proof (cases "4096 < n + 32")
    case True
    then have "mem_move ops am (R_read p) m h = Inr (R_free (p - 32), m, h)"
      using n by (simp add: DetechHeader_def MAX_ALLOC_SIZE_def Let_def)
    moreover have "mem_here entries ok H K Q (R_free (p - 32)) m h L"
      by (rule here_local [OF here]) (use True n pool_of_large [of "n + 32"] in simp_all)
    ultimately show ?thesis by blast
  next
    case False
    then obtain i where i: "pool_of (n + 32) = Some i" using pool_of_small [of "n + 32"] by auto
    have "pool_for m (n + 32) = Some i" using pools_fixedD(4) [OF fixed, of "n + 32"] n i by simp
    then have "mem_move ops am (R_read p) m h = Inr (R_zero i (p - 32), m, h)"
      using n False by (simp add: DetechHeader_def MAX_ALLOC_SIZE_def Let_def)
    moreover have "mem_here entries ok H K Q (R_zero i (p - 32)) m h L"
      by (rule here_local [OF here]) (use False n i pool_of_block [OF i] pool_of_range [OF i] in simp_all)
    ultimately show ?thesis by blast
  qed
qed

text \<open>The blocks.\<close>

lemma here_zero:
  assumes here: "mem_here entries ok H K Q (R_zero i a) m h L"
  shows "\<exists>h'. mem_move ops am (R_zero i a) m h = Inr (R_push i a, m, h') \<and>
    mem_here entries ok H K Q (R_push i a) m h' L \<and> (\<forall>b\<in>H. blocks h' b = blocks h b \<and> allocSize h' b = allocSize h b)"
proof -
  have a: "a \<notin> H" "blocks h a = Some (int (pool_sizes ! i))"
    and parts: "mem_parts (idle entries m) (blocks h) (allocSize h) L (insert a H)"
    using here by (simp_all add: mem_here_def)
  define h' where "h' = h\<lparr>allocSize := (allocSize h)(a := 0)\<rparr>"
  have move: "mem_move ops am (R_zero i a) m h = Inr (R_push i a, m, h')" using a by (simp add: h'_def)
  have "mem_parts (idle entries m) (blocks h) ((allocSize h)(a := 0)) L (insert a H)"
    by (rule parts_write [OF parts]) simp
  then have "mem_here entries ok H K Q (R_push i a) m h' L"
    using here a by (simp add: mem_here_def h'_def)
  then show ?thesis using move a(1) by (auto simp: h'_def)
qed

lemma here_free:
  assumes here: "mem_here entries ok H K Q (R_free a) m h L"
  shows "\<exists>h'. mem_move ops am (R_free a) m h = Inr (M_idle, m, h') \<and>
    mem_here entries ok H K Q M_idle m h' L \<and> (\<forall>b\<in>H. blocks h' b = blocks h b \<and> allocSize h' b = allocSize h b)"
proof -
  have a: "a \<notin> H" and parts: "mem_parts (idle entries m) (blocks h) (allocSize h) L (insert a H)"
    using here by (simp_all add: mem_here_def)
  have blk: "blocks h a \<noteq> None" using mem_partsD(7) [OF parts, of a] by simp
  define h' where "h' = h\<lparr>blocks := (blocks h)(a := None)\<rparr>"
  have move: "mem_move ops am (R_free a) m h = Inr (M_idle, m, h')" using blk by (simp add: h'_def)
  have "mem_parts (idle entries m) ((blocks h)(a := None)) (allocSize h) L (insert a H - {a})"
    by (rule parts_free [OF parts]) simp
  moreover have "insert a H - {a} = H" using a by simp
  ultimately have "mem_here entries ok H K Q M_idle m h' L" using here by (simp add: mem_here_def h'_def)
  then show ?thesis using move a by (auto simp: h'_def)
qed

text \<open>Fresh memory of the system's allocator, or null.\<close>

lemma here_fresh:
  assumes here: "mem_here entries ok H K Q p m h L" and am: "malloc_ok am" and n: "0 < n"
    and p: "held_block p = None" "held_block p' = (if am (blocks h) n = 0 then None else Some (am (blocks h) n))"
    and fact: "\<And>bs. (am (blocks h) n \<noteq> 0 \<Longrightarrow> bs (am (blocks h) n) = Some n) \<Longrightarrow> pc_fact bs (allocSize h) p'"
    and owe: "\<And>i. i < 50 \<Longrightarrow> use_extra (allocSize h) i p' = use_extra (allocSize h) i p"
      "\<And>i. i < 50 \<Longrightarrow> res_extra i p' = res_extra i p"
  shows "mem_here entries ok H K Q p' m (with_block (am (blocks h) n) n h) L \<and>
    (\<forall>b\<in>H. blocks (with_block (am (blocks h) n) n h) b = blocks h b \<and>
      allocSize (with_block (am (blocks h) n) n h) b = allocSize h b)"
proof (cases "am (blocks h) n = 0")
  case True
  then show ?thesis
    using here_local [OF here _ fact] p owe by (simp add: with_block_def)
next
  case False
  let ?a = "am (blocks h) n"
  have parts: "mem_parts (idle entries m) (blocks h) (allocSize h) L H" using here p by (simp add: mem_here_def)
  have a: "?a AND 0xF = 0" "blocks h ?a = None" "int (unat ?a) + n < 2 ^ 64"
      "\<And>b m. blocks h b = Some m \<Longrightarrow> apart (unat ?a) n (unat b) m"
    using am n False unfolding malloc_ok_def by blast+
  have fresh: "?a \<notin> H" using parts_no_block(3) [OF parts a(2)] .
  have "mem_parts (idle entries m) ((blocks h)(?a \<mapsto> n)) (allocSize h) L (insert ?a H)"
    by (rule parts_fresh [OF parts a(2) _ n a(3,4)]) (use a(1) False in \<open>simp_all add: entry_ok_def\<close>)
  then have "mem_here entries ok H K Q p' m (with_block ?a n h) L"
    using here False p fact [of "(blocks h)(?a \<mapsto> n)"] fresh owe
    by (simp add: mem_here_def with_block_def counts_ok_def)
  then show ?thesis using fresh False by (auto simp: with_block_def)
qed

text \<open>The header is written and the block is the client's.\<close>

lemma users_lend:
  assumes L: "L p = None" and fin: "finite (dom L)"
  shows "int (card (users (L(p \<mapsto> n)) i)) = int (card (users L i)) + of_bool (pool_of (n + 32) = Some i)"
proof (cases "pool_of (n + 32) = Some i")
  case True
  have "users (L(p \<mapsto> n)) i = insert p (users L i)" "p \<notin> users L i"
    using users_add(1,2) [where L = L and p = p and n = n and i = i, OF L] True by (simp_all add: pool_of_def)
  then show ?thesis using True users_finite [OF fin, of i] by simp
next
  case False
  then have "users (L(p \<mapsto> n)) i = users L i" using L by (auto simp: users_pool_of split: if_splits)
  then show ?thesis using False by simp
qed

lemma here_header:
  assumes here: "mem_here entries ok H K Q (A_header z a) m h L" and a: "a \<noteq> 0"
  shows "\<exists>h'. mem_move ops am (A_header z a) m h = Inr (A_done z (a + 32), m, h') \<and>
    mem_here entries ok H K Q (A_done z (a + 32)) m h' (L(a + 32 \<mapsto> z - 32)) \<and>
    L (a + 32) = None \<and> (\<forall>b\<in>H. blocks h' b = blocks h b \<and> allocSize h' b = allocSize h b)"
proof -
  have aH: "a \<notin> H" and z: "32 \<le> z" "z < 2 ^ 31" and blk: "blocks h a = Some (block_size z)"
    and parts: "mem_parts (idle entries m) (blocks h) (allocSize h) L (insert a H)" and fin: "finite (dom L)"
    using here a by (simp_all add: mem_here_def)
  have new: "L (a + 32) = None" using mem_partsD(7) [OF parts, of a] by simp
  define h' where "h' = h\<lparr>allocSize := (allocSize h)(a := z)\<rparr>"
  have move: "mem_move ops am (A_header z a) m h = Inr (A_done z (a + 32), m, h')"
    using blk by (simp add: AttachHeader_def h'_def)
  have "mem_parts (idle entries m) (blocks h) ((allocSize h)(a := z)) L (insert a H)"
    by (rule parts_write [OF parts]) simp
  then have "mem_parts (idle entries m) (blocks h) ((allocSize h)(a := z)) (L(a + 32 \<mapsto> z - 32)) (insert a H - {a})"
    by (rule parts_lend) (use z blk in simp_all)
  moreover have "insert a H - {a} = H" using aH by simp
  moreover have "counts_ok entries m (L(a + 32 \<mapsto> z - 32)) K Q"
    using here unfolding counts_ok_def users_lend [where n = "z - 32", OF new fin]
    by (simp add: mem_here_def counts_ok_def algebra_simps)
  ultimately have "mem_here entries ok H K Q (A_done z (a + 32)) m h' (L(a + 32 \<mapsto> z - 32))"
    using here by (simp add: mem_here_def h'_def)
  then show ?thesis using move new aH by (auto simp: h'_def)
qed

text \<open>The client gives a pointer back.\<close>

lemma here_release:
  assumes here: "mem_here entries ok H K Q M_idle m h L" and p: "L p = Some n"
  shows "mem_here entries ok H K Q (R_read p) m h (L(p := None))"
proof -
  have parts: "mem_parts (idle entries m) (blocks h) (allocSize h) L H" and fin: "finite (dom L)"
    using here by (simp_all add: mem_here_def)
  note live = mem_partsD(6) [OF parts p]
  have pH: "p - 32 \<notin> H" using mem_partsD(7) [OF parts, of "p - 32"] p by auto
  have "mem_parts (idle entries m) (blocks h) (allocSize h) (L(p := None)) (insert (p - 32) H)"
    by (rule parts_return [OF parts p])
  moreover have "int (card (users L i)) = int (card (users (L(p := None)) i)) + of_bool (pool_of (n + 32) = Some i)" for i
  proof -
    have "(L(p := None))(p \<mapsto> n) = L" using p by auto
    then show ?thesis using users_lend [of "L(p := None)" p n i] fin by simp
  qed
  ultimately show ?thesis using here live pH fin
    by (simp add: mem_here_def counts_ok_def algebra_simps)
qed

section \<open>All moves\<close>

text \<open>The client's pointers after a move from \<open>p\<close>: it gets the block when its header is written.\<close>

fun live_after :: "mem_pc \<Rightarrow> live_map \<Rightarrow> live_map" where
  "live_after (A_header asize header) L = L(header + 32 \<mapsto> asize - 32)"
| "live_after _ L = L"

definition move_ok :: "('s \<Rightarrow> address list) \<Rightarrow> ('s \<Rightarrow> bool) \<Rightarrow> address set \<Rightarrow> (nat \<Rightarrow> int) \<Rightarrow> (nat \<Rightarrow> int) \<Rightarrow>
    mem_pc \<Rightarrow> heap \<Rightarrow> live_map \<Rightarrow> (mem_pc \<times> 's memory \<times> heap) outcome \<Rightarrow> bool" where
  "move_ok entries ok H K Q p h L r \<longleftrightarrow> (case r of
     Inl x \<Rightarrow> x = UB ''AttachHeader'' \<and> (\<exists>z. p = A_header z 0)
   | Inr (p', m', h') \<Rightarrow> mem_here entries ok H K Q p' m' h' (live_after p L) \<and>
       (\<forall>b\<in>H. blocks h' b = blocks h b \<and> allocSize h' b = allocSize h b))"

lemma move_okI [intro]:
  "mem_here entries ok H K Q p' m' h' (live_after p L) \<Longrightarrow>
   (\<And>b. b \<in> H \<Longrightarrow> blocks h' b = blocks h b \<and> allocSize h' b = allocSize h b) \<Longrightarrow>
   move_ok entries ok H K Q p h L (Inr (p', m', h'))"
  by (simp add: move_ok_def)

context slist begin

lemma move_here:
  assumes here: "mem_here entries ok H K Q p m h L" and am: "malloc_ok am"
  shows "move_ok entries ok H K Q p h L (mem_move ops am p m h)"
proof (cases p)
  case M_idle
  then show ?thesis using here by (auto simp: move_ok_def)
next
  case (A_call n)
  then show ?thesis using here_call [OF here [unfolded A_call], of ops am] by (auto simp: move_ok_def)
next
  case (A_pop z i)
  obtain memory l where "pop_entry ops (pool_list (pools m ! i)) = (memory, l)" by fastforce
  then obtain p' m' h' where move: "mem_move ops am (A_pop z i) m h = Inr (p', m', h')" by simp
  show ?thesis unfolding A_pop move using here_pop [OF here [unfolded A_pop] move] by auto
next
  case (A_malloc z i)
  have z: "32 \<le> z" "z \<le> 4096" "pool_of z = Some i" and fixed: "pools_fixed ok m"
    using here A_malloc by (simp_all add: mem_here_def)
  have i: "i < 50" by (rule pool_of_range [OF z(3)])
  have size: "pool_allocSize (pools m ! i) = block_size z"
    using pools_fixedD(2) [OF fixed i] pool_of_block [OF z(3,2)] by simp
  have "0 < block_size z" using block_size_ge [of z] z by simp
  then show ?thesis unfolding A_malloc using z pool_of_block [OF z(3,2)]
    by (simp add: Let_def size) (intro move_okI conjI; use here_fresh [OF here [unfolded A_malloc] am, of "block_size z" "A_use z i (am (blocks h) (block_size z))"] in auto)
next
  case (A_check z i a)
  then show ?thesis using here_check [OF here [unfolded A_check], of ops am] by auto
next
  case (A_unreserve z i a)
  obtain p' m' h' where move: "mem_move ops am (A_unreserve z i a) m h = Inr (p', m', h')" by fastforce
  show ?thesis unfolding A_unreserve move using here_unreserve [OF here [unfolded A_unreserve] move] by auto
next
  case (A_use z i a)
  obtain p' m' h' where move: "mem_move ops am (A_use z i a) m h = Inr (p', m', h')" by fastforce
  show ?thesis unfolding A_use move using here_use [OF here [unfolded A_use] move] by auto
next
  case (A_large z)
  have z: "4096 < z" "z < 2 ^ 31" using here A_large by (simp_all add: mem_here_def)
  then have size: "block_size z = z" by (simp add: block_size_def)
  show ?thesis unfolding A_large using z size pool_of_large [OF z(1)]
    by (simp add: Let_def) (intro move_okI conjI; use here_fresh [OF here [unfolded A_large] am, of z "A_header z (am (blocks h) z)"] in auto)
next
  case (A_header z a)
  show ?thesis
  proof (cases "a = 0")
    case True
    have parts: "mem_parts (idle entries m) (blocks h) (allocSize h) L H"
      using here A_header True by (simp add: mem_here_def)
    have "blocks h 0 = None"
      using mem_partsD(1) [OF parts, of 0] by (cases "blocks h 0") (auto simp: entry_ok_def)
    then show ?thesis by (simp add: A_header True AttachHeader_def move_ok_def)
  next
    case False
    show ?thesis unfolding A_header using here_header [OF here [unfolded A_header] False, of ops am] by (auto simp: move_ok_def)
  qed
next
  case (A_done z a)
  then show ?thesis using here by (auto simp: move_ok_def)
next
  case (R_read q)
  then show ?thesis using here_read [OF here [unfolded R_read], of ops am] by (auto simp: move_ok_def)
next
  case (R_free a)
  then show ?thesis using here_free [OF here [unfolded R_free], of ops am] by auto
next
  case (R_zero i a)
  then show ?thesis using here_zero [OF here [unfolded R_zero], of ops am] by auto
next
  case (R_push i a)
  have "blocks h a \<noteq> None" using here R_push by (simp add: mem_here_def)
  then obtain p' m' h' where move: "mem_move ops am (R_push i a) m h = Inr (p', m', h')" by fastforce
  show ?thesis unfolding R_push move using here_push [OF here [unfolded R_push] move] by auto
next
  case (R_unuse i)
  obtain p' m' h' where move: "mem_move ops am (R_unuse i) m h = Inr (p', m', h')" by fastforce
  show ?thesis unfolding R_unuse move using here_unuse [OF here [unfolded R_unuse] move] by auto
next
  case (R_reserve i)
  obtain p' m' h' where move: "mem_move ops am (R_reserve i) m h = Inr (p', m', h')" by fastforce
  show ?thesis unfolding R_reserve move using here_reserve [OF here [unfolded R_reserve] move] by auto
qed

end

end
