(* ===== verification/Memory_Threads.thy ===== *)
theory Memory_Threads
  imports Memory_Moves
begin

text \<open>
  Any number of threads that allocate and release at the same time. A thread outside of the two
  methods may ask for memory, or release a pointer that somebody has got and nobody has released;
  which thread got it does not matter.
\<close>

record 's mem_threads =
  mt_memory :: "'s memory"
  mt_heap :: heap
  mt_at :: "nat \<Rightarrow> mem_pc"
  mt_live :: live_map  \<comment> \<open>the pointers given out, for the statements\<close>
  mt_stopped :: "failure option"

definition mt_move :: "'s slist_ops \<Rightarrow> malloc \<Rightarrow> nat \<Rightarrow> 's mem_threads \<Rightarrow> 's mem_threads" where
  "mt_move ops am t st = (case mem_move ops am (mt_at st t) (mt_memory st) (mt_heap st) of
     Inl e \<Rightarrow> st\<lparr>mt_stopped := Some e\<rparr>
   | Inr (p, m, h) \<Rightarrow> st\<lparr>mt_memory := m, mt_heap := h, mt_at := (mt_at st)(t := p),
       mt_live := live_after (mt_at st t) (mt_live st)\<rparr>)"

inductive mt_step :: "'s slist_ops \<Rightarrow> malloc \<Rightarrow> nat set \<Rightarrow> 's mem_threads \<Rightarrow> 's mem_threads \<Rightarrow> bool"
  for ops am T where
  call_allocate: "mt_stopped st = None \<Longrightarrow> t \<in> T \<Longrightarrow> mt_at st t = M_idle \<Longrightarrow> 0 \<le> n \<Longrightarrow> n + 32 < 2 ^ 31 \<Longrightarrow>
    mt_step ops am T st (st\<lparr>mt_at := (mt_at st)(t := A_call n)\<rparr>)"
| call_release: "mt_stopped st = None \<Longrightarrow> t \<in> T \<Longrightarrow> mt_at st t = M_idle \<Longrightarrow> mt_live st p = Some n \<Longrightarrow>
    mt_step ops am T st (st\<lparr>mt_at := (mt_at st)(t := R_read p), mt_live := (mt_live st)(p := None)\<rparr>)"
| access: "mt_stopped st = None \<Longrightarrow> t \<in> T \<Longrightarrow> mt_step ops am T st (mt_move ops am t st)"
| return_pointer: "mt_stopped st = None \<Longrightarrow> t \<in> T \<Longrightarrow> mt_at st t = A_done n p \<Longrightarrow>
    mt_step ops am T st (st\<lparr>mt_at := (mt_at st)(t := M_idle)\<rparr>)"

definition mt_start :: "'s slist_ops \<Rightarrow> (address \<Rightarrow> int) \<Rightarrow> 's mem_threads" where
  "mt_start ops szs = \<lparr>mt_memory = Memory_ctor ops, mt_heap = \<lparr>blocks = (\<lambda>_. None), allocSize = szs\<rparr>,
     mt_at = (\<lambda>_. M_idle), mt_live = Map.empty, mt_stopped = None\<rparr>"

inductive mt_run :: "'s slist_ops \<Rightarrow> malloc \<Rightarrow> nat set \<Rightarrow> 's mem_threads \<Rightarrow> bool" for ops am T where
  mt_begin: "mt_run ops am T (mt_start ops szs)"
| mt_next: "mt_run ops am T st \<Longrightarrow> mt_step ops am T st st' \<Longrightarrow> mt_run ops am T st'"

section \<open>The invariant of all threads\<close>

definition in_hands :: "nat set \<Rightarrow> (nat \<Rightarrow> mem_pc) \<Rightarrow> address set" where
  "in_hands T at = (\<Union>t\<in>T. set_option (held_block (at t)))"

definition mt_inv :: "('s \<Rightarrow> address list) \<Rightarrow> ('s \<Rightarrow> bool) \<Rightarrow> nat set \<Rightarrow> 's mem_threads \<Rightarrow> bool" where
  "mt_inv entries ok T st \<longleftrightarrow> (let m = mt_memory st; h = mt_heap st; L = mt_live st; at = mt_at st in
     pools_fixed ok m \<and> finite (dom L) \<and>
     (\<forall>t\<in>T. \<forall>u\<in>T. t \<noteq> u \<longrightarrow> set_option (held_block (at t)) \<inter> set_option (held_block (at u)) = {}) \<and>
     mem_parts (idle entries m) (blocks h) (allocSize h) L (in_hands T at) \<and>
     (\<forall>t\<in>T. pc_fact (blocks h) (allocSize h) (at t)) \<and>
     counts_ok entries m L (\<lambda>i. \<Sum>t\<in>T. use_extra (allocSize h) i (at t)) (\<lambda>i. \<Sum>t\<in>T. res_extra i (at t)))"

lemma in_hands_split:
  assumes "t \<in> T"
  shows "in_hands T at = in_hands (T - {t}) at \<union> set_option (held_block (at t))"
  using assms by (auto simp: in_hands_def)

lemma in_hands_upd [simp]: "in_hands (T - {t}) (at(t := p)) = in_hands (T - {t}) at"
  by (auto simp: in_hands_def)

lemma sum_others [simp]:
  "(\<Sum>u\<in>T - {t}. f ((at(t := p)) u)) = (\<Sum>u\<in>T - {t}. f (at u))"
  by (rule sum.cong) auto

abbreviation here_for where
  "here_for entries ok T st t p m h L \<equiv> mem_here entries ok (in_hands (T - {t}) (mt_at st))
     (\<lambda>i. \<Sum>u\<in>T - {t}. use_extra (allocSize (mt_heap st)) i (mt_at st u))
     (\<lambda>i. \<Sum>u\<in>T - {t}. res_extra i (mt_at st u)) p m h L"

lemma mt_here:
  assumes inv: "mt_inv entries ok T st" and T: "finite T" "t \<in> T"
  shows "here_for entries ok T st t (mt_at st t) (mt_memory st) (mt_heap st) (mt_live st)"
proof -
  have "set_option (held_block (mt_at st t)) \<inter> in_hands (T - {t}) (mt_at st) = {}"
    using inv T(2) by (auto simp: mt_inv_def Let_def in_hands_def)
  then show ?thesis
    using inv T(2) by (simp add: mem_here_def mt_inv_def Let_def in_hands_split [OF T(2)]
        sum.remove [OF T] del: Un_iff)
qed

text \<open>Back from the view of the moving thread to that of all.\<close>

lemma mt_back:
  assumes inv: "mt_inv entries ok T st" and T: "finite T" "t \<in> T"
    and here: "here_for entries ok T st t p' m' h' L'"
    and frame: "\<forall>b \<in> in_hands (T - {t}) (mt_at st).
      blocks h' b = blocks (mt_heap st) b \<and> allocSize h' b = allocSize (mt_heap st) b"
  shows "mt_inv entries ok T (st\<lparr>mt_memory := m', mt_heap := h', mt_at := (mt_at st)(t := p'), mt_live := L'\<rparr>)"
proof -
  let ?at = "mt_at st" and ?at' = "(mt_at st)(t := p')"
  have same: "pc_fact (blocks h') (allocSize h') (?at u) = pc_fact (blocks (mt_heap st)) (allocSize (mt_heap st)) (?at u)"
    "use_extra (allocSize h') i (?at u) = use_extra (allocSize (mt_heap st)) i (?at u)"
    if "u \<in> T - {t}" for u i
  proof -
    have "blocks h' a = blocks (mt_heap st) a \<and> allocSize h' a = allocSize (mt_heap st) a"
      if "held_block (?at u) = Some a" for a
      using frame that \<open>u \<in> T - {t}\<close> by (auto simp: in_hands_def)
    then show "pc_fact (blocks h') (allocSize h') (?at u) = pc_fact (blocks (mt_heap st)) (allocSize (mt_heap st)) (?at u)"
      "use_extra (allocSize h') i (?at u) = use_extra (allocSize (mt_heap st)) i (?at u)"
      by (rule pc_fact_frame(1) [where bs' = "blocks h'"], blast,
        rule pc_fact_frame(2) [where bs = "blocks (mt_heap st)" and bs' = "blocks h'"], blast)
  qed
  have use: "(\<Sum>u\<in>T. use_extra (allocSize h') i (?at' u)) =
      use_extra (allocSize h') i p' + (\<Sum>u\<in>T - {t}. use_extra (allocSize (mt_heap st)) i (?at u))" for i
    using sum.remove [OF T, of "\<lambda>u. use_extra (allocSize h') i (?at' u)"] same(2) by simp
  have res: "(\<Sum>u\<in>T. res_extra i (?at' u)) = res_extra i p' + (\<Sum>u\<in>T - {t}. res_extra i (?at u))" for i
    using sum.remove [OF T, of "\<lambda>u. res_extra i (?at' u)"] by simp
  have facts: "pc_fact (blocks h') (allocSize h') (?at' u)" if "u \<in> T" for u
  proof (cases "u = t")
    case True
    then show ?thesis using here by (simp add: mem_here_def)
  next
    case False
    then show ?thesis using same(1) [of u] inv that by (simp add: mt_inv_def Let_def)
  qed
  have apart: "set_option (held_block p') \<inter> set_option (held_block (?at u)) = {}" if "u \<in> T" "u \<noteq> t" for u
    using here that by (auto simp: mem_here_def in_hands_def)
  have excl: "\<forall>u\<in>T. \<forall>v\<in>T. u \<noteq> v \<longrightarrow> set_option (held_block (?at' u)) \<inter> set_option (held_block (?at' v)) = {}"
    using inv apart by (auto simp: mt_inv_def Let_def)
  have "in_hands T ?at' = in_hands (T - {t}) ?at \<union> set_option (held_block p')"
    using in_hands_split [OF T(2), of ?at'] by simp
  then show ?thesis
    using here excl facts by (simp add: mt_inv_def Let_def mem_here_def use res del: fun_upd_apply)
qed

section \<open>Every step keeps it\<close>

lemma step_local:
  assumes inv: "mt_inv entries ok T st" and T: "finite T" "t \<in> T"
    and here: "here_for entries ok T st t p (mt_memory st) (mt_heap st) L"
  shows "mt_inv entries ok T (st\<lparr>mt_at := (mt_at st)(t := p), mt_live := L\<rparr>)"
  using mt_back [OF inv T here] by simp

lemma step_at:
  assumes inv: "mt_inv entries ok T st" and T: "finite T" "t \<in> T"
    and here: "here_for entries ok T st t p (mt_memory st) (mt_heap st) (mt_live st)"
  shows "mt_inv entries ok T (st\<lparr>mt_at := (mt_at st)(t := p)\<rparr>)"
  using step_local [OF inv T here] by simp

text \<open>A step either keeps the invariant and the threads going, or is the one failure there is.\<close>

definition stops_only :: "nat set \<Rightarrow> 's mem_threads \<Rightarrow> bool" where
  "stops_only T st \<longleftrightarrow> (\<forall>e. mt_stopped st = Some e \<longrightarrow>
     e = UB ''AttachHeader'' \<and> (\<exists>t \<in> T. \<exists>z. mt_at st t = A_header z 0))"

context slist begin

lemma step_access:
  assumes inv: "mt_inv entries ok T st" and T: "finite T" "t \<in> T" and am: "malloc_ok am"
    and go: "mt_stopped st = None"
  shows "mt_inv entries ok T (mt_move ops am t st) \<and> stops_only T (mt_move ops am t st)"
proof (cases "mem_move ops am (mt_at st t) (mt_memory st) (mt_heap st)")
  case (Inl e)
  then have "e = UB ''AttachHeader''" "\<exists>z. mt_at st t = A_header z 0"
    using move_here [OF mt_here [OF inv T] am] by (simp_all add: move_ok_def)
  moreover have "mt_inv entries ok T (st\<lparr>mt_stopped := Some e\<rparr>)" using inv by (simp add: mt_inv_def)
  ultimately show ?thesis using Inl T(2) by (auto simp: mt_move_def stops_only_def)
next
  case (Inr r)
  obtain p m h where r: "r = (p, m, h)" by (cases r)
  have "move_ok entries ok (in_hands (T - {t}) (mt_at st))
     (\<lambda>i. \<Sum>u\<in>T - {t}. use_extra (allocSize (mt_heap st)) i (mt_at st u))
     (\<lambda>i. \<Sum>u\<in>T - {t}. res_extra i (mt_at st u)) (mt_at st t) (mt_heap st) (mt_live st) (Inr (p, m, h))"
    using move_here [OF mt_here [OF inv T] am] Inr r by simp
  then have here: "here_for entries ok T st t p m h (live_after (mt_at st t) (mt_live st))"
    and frame: "\<forall>b \<in> in_hands (T - {t}) (mt_at st).
      blocks h b = blocks (mt_heap st) b \<and> allocSize h b = allocSize (mt_heap st) b"
    by (simp_all add: move_ok_def)
  show ?thesis using mt_back [OF inv T here frame] go Inr r by (simp add: mt_move_def stops_only_def)
qed

lemma step_keeps:
  assumes step: "mt_step ops am T st st'" and inv: "mt_inv entries ok T st" and T: "finite T" and am: "malloc_ok am"
  shows "mt_inv entries ok T st' \<and> stops_only T st'"
  using step
proof cases
  case (call_allocate t n)
  have "here_for entries ok T st t (A_call n) (mt_memory st) (mt_heap st) (mt_live st)"
    by (rule here_local [OF mt_here [OF inv T call_allocate(3)]]) (use call_allocate in simp_all)
  from step_at [OF inv T call_allocate(3) this] show ?thesis using call_allocate by (simp add: stops_only_def)
next
  case (call_release t p n)
  have "here_for entries ok T st t (R_read p) (mt_memory st) (mt_heap st) ((mt_live st)(p := None))"
    by (rule here_release [where n = n]) (use mt_here [OF inv T call_release(3)] call_release in simp_all)
  from step_local [OF inv T call_release(3) this] show ?thesis using call_release by (simp add: stops_only_def)
next
  case (access t)
  then show ?thesis using step_access [OF inv T _ am] by simp
next
  case (return_pointer t n p)
  have "here_for entries ok T st t M_idle (mt_memory st) (mt_heap st) (mt_live st)"
    by (rule here_local [OF mt_here [OF inv T return_pointer(3)]]) (use return_pointer in simp_all)
  from step_at [OF inv T return_pointer(3) this] show ?thesis using return_pointer by (simp add: stops_only_def)
qed

lemma start_inv: "mt_inv entries ok T (mt_start ops szs) \<and> stops_only T (mt_start ops szs)"
proof -
  have "idle entries (Memory_ctor ops) i = []" for i
    using new_ok by (simp add: idle_def Memory_ctor_eq MemoryPool_ctor_def)
  moreover have "users Map.empty i = {}" for i by (simp add: users_def)
  ultimately show ?thesis
    using new_ok
    by (simp add: mt_inv_def mt_start_def pools_fixed_def in_hands_def mem_parts_def counts_ok_def stops_only_def
        Memory_ctor_eq MemoryPool_ctor_def pool_sizes_length to_int32_def o_def)
qed

lemma run_inv:
  assumes "mt_run ops am T st" "finite T" "malloc_ok am"
  shows "mt_inv entries ok T st \<and> stops_only T st"
  using assms(1)
proof induction
  case (mt_begin szs)
  show ?case by (rule start_inv)
next
  case (mt_next st st')
  then show ?case using step_keeps [OF mt_next(2) _ assms(2,3)] by blast
qed

end

end
