(* ===== verification/Memory_Together.thy ===== *)
theory Memory_Together
  imports Memory_Threads
begin

text \<open>
  What the threads' clients see of \<^verbatim>\<open>Memory\<close>, in every interleaving of the accesses.
\<close>

section \<open>An example: two threads allocate at once\<close>

abbreviation run_with where
  "run_with am \<equiv> mt_run lock_free_ops am {2, 3}"

lemma access_to:
  assumes "mt_run ops am T st" "mt_stopped st = None" "t \<in> T"
    and "mem_move ops am (mt_at st t) (mt_memory st) (mt_heap st) = Inr (p, m, h)"
  shows "\<exists>st'. mt_run ops am T st' \<and> mt_stopped st' = None \<and> mt_memory st' = m \<and> mt_heap st' = h \<and>
    mt_at st' = (mt_at st)(t := p) \<and> mt_live st' = live_after (mt_at st t) (mt_live st)"
proof -
  have "mt_move ops am t st = st\<lparr>mt_memory := m, mt_heap := h, mt_at := (mt_at st)(t := p),
      mt_live := live_after (mt_at st t) (mt_live st)\<rparr>"
    using assms(4) by (simp add: mt_move_def)
  then show ?thesis using mt_next [OF assms(1) access [OF assms(2,3)]] assms(2)
    by (intro exI [of _ "mt_move ops am t st"]) simp
qed

lemma example_fixed:
  assumes "run_with am st" "malloc_ok am"
  shows "pools_fixed lock_free_ok (mt_memory st)"
  using lock_free.run_inv [OF assms(1) _ assms(2)] by (simp add: mt_inv_def Let_def)

text \<open>One of them asks for 10 bytes, finds the list empty, and comes as far as the header.\<close>

lemma to_header:
  assumes am: "malloc_ok am" and run: "run_with am st" and go: "mt_stopped st = None" and t: "t \<in> {2, 3}" and at: "mt_at st t = M_idle"
    and empty: "idle lock_free_entries (mt_memory st) 1 = []" and a: "am (blocks (mt_heap st)) 64 = a"
  shows "\<exists>st'. run_with am st' \<and> mt_stopped st' = None \<and> mt_at st' = (mt_at st)(t := A_header 42 a) \<and>
    mt_heap st' = with_block a 64 (mt_heap st) \<and> mt_live st' = mt_live st \<and>
    idle lock_free_entries (mt_memory st') 1 = []"
proof -
  let ?m = "mt_memory st"
  note fixed = pools_fixedD [OF example_fixed [OF run am]]
  have small: "pool_of 42 = Some 1" by (simp add: pool_of_def pool_sizes_def eval_nat_numeral)
  have table: "pool_for ?m 42 = Some 1" using fixed(4) [of 42] small by simp
  have size: "pool_allocSize (pools ?m ! 1) = 64" using fixed(2) [of 1] by (simp add: pool_sizes_nth)
  have none: "lock_free_entries (pool_list (pools ?m ! 1)) = []" using empty fixed(1) by (simp add: idle_def)
  obtain l where l: "pop_entry lock_free_ops (pool_list (pools ?m ! 1)) = (0, l)" "lock_free_entries l = []"
    using lock_free.pop_nothing [OF fixed(3) none] by (cases "pop_entry lock_free_ops (pool_list (pools ?m ! 1))") auto
  define st1 where "st1 = st\<lparr>mt_at := (mt_at st)(t := A_call 10)\<rparr>"
  have st1: "run_with am st1" "mt_stopped st1 = None" unfolding st1_def
    using mt_next [OF run call_allocate [OF go t at, of 10]] go by simp_all
  obtain st2 where st2: "run_with am st2" "mt_stopped st2 = None" "mt_memory st2 = ?m" "mt_heap st2 = mt_heap st"
      "mt_at st2 = (mt_at st)(t := A_pop 42 1)" "mt_live st2 = mt_live st"
    using access_to [OF st1 t, of "A_pop 42 1" ?m "mt_heap st"] table
    by (auto simp: st1_def sizeof_MemoryHeader_def MAX_ALLOC_SIZE_def to_int32_id)
  define m where "m = at_pool 1 (\<lambda>p. p\<lparr>pool_list := l\<rparr>) ?m"
  obtain st3 where st3: "run_with am st3" "mt_stopped st3 = None" "mt_memory st3 = m" "mt_heap st3 = mt_heap st"
      "mt_at st3 = (mt_at st)(t := A_malloc 42 1)" "mt_live st3 = mt_live st"
    using access_to [OF st2(1,2) t, of "A_malloc 42 1" m "mt_heap st"] l by (auto simp: st2 m_def)
  have m: "pools m ! 1 = (pools ?m ! 1)\<lparr>pool_list := l\<rparr>"
    using at_pool_simps(1) [OF example_fixed [OF run am], of 1 _ 1] by (simp add: m_def)
  then have "pool_allocSize (pools m ! 1) = 64" using size by simp
  then obtain st4 where st4: "run_with am st4" "mt_stopped st4 = None" "mt_memory st4 = m"
      "mt_heap st4 = with_block a 64 (mt_heap st)" "mt_at st4 = (mt_at st)(t := A_use 42 1 a)" "mt_live st4 = mt_live st"
    using access_to [OF st3(1,2) t, of "A_use 42 1 a" m "with_block a 64 (mt_heap st)"] a by (auto simp: st3 Let_def)
  define m' where "m' = at_pool 1 (\<lambda>p. p\<lparr>useCount := to_int32 (useCount p + 1)\<rparr>) m"
  obtain st5 where st5: "run_with am st5" "mt_stopped st5 = None" "mt_memory st5 = m'"
      "mt_heap st5 = with_block a 64 (mt_heap st)" "mt_at st5 = (mt_at st)(t := A_header 42 a)" "mt_live st5 = mt_live st"
    using access_to [OF st4(1,2) t, of "A_header 42 a" m' "with_block a 64 (mt_heap st)"] by (auto simp: st4 m'_def)
  have "pools m' ! 1 = (pools m ! 1)\<lparr>useCount := to_int32 (useCount (pools m ! 1) + 1)\<rparr>"
    using at_pool_simps(1) [OF example_fixed [OF st4(1) am], of 1 _ 1] by (simp add: st4 m'_def)
  then have "idle lock_free_entries m' 1 = []"
    using l m by (simp add: idle_def)
  then show ?thesis using st5 by blast
qed

lemma example_together:
  "\<exists>st. run_with example_malloc st \<and> mt_stopped st = None \<and> mt_live st = [0x10020 \<mapsto> 10] \<and>
    mt_at st 3 = A_header 42 0x20000 \<and> blocks (mt_heap st) 0x20000 = Some 64"
proof -
  define st0 :: "(SListHeader \<times> links) mem_threads" where "st0 = mt_start lock_free_ops (\<lambda>_. 0)"
  have run0: "run_with example_malloc st0" unfolding st0_def by (rule mt_begin)
  have st0: "mt_stopped st0 = None" "mt_at st0 = (\<lambda>_. M_idle)" "mt_live st0 = Map.empty"
      "blocks (mt_heap st0) = (\<lambda>_. None)" "mt_memory st0 = Memory_ctor lock_free_ops"
    by (simp_all add: st0_def mt_start_def)
  have none: "idle lock_free_entries (mt_memory st0) 1 = []"
    using lock_free.new_ok by (simp add: st0 idle_def Memory_ctor_eq MemoryPool_ctor_def pool_sizes_length)
  have "example_malloc (blocks (mt_heap st0)) 64 = 0x10000" by (simp add: st0 example_malloc_def fits_at_def)
  then obtain st1 where st1: "run_with example_malloc st1" "mt_stopped st1 = None" "mt_at st1 = (\<lambda>_. M_idle)(2 := A_header 42 0x10000)"
      "mt_heap st1 = with_block 0x10000 64 (mt_heap st0)" "mt_live st1 = Map.empty"
      "idle lock_free_entries (mt_memory st1) 1 = []"
    using to_header [OF example_malloc_ok run0, of 2 "0x10000"] none by (auto simp: st0)
  have "example_malloc (blocks (mt_heap st1)) 64 = 0x20000"
    by (simp add: st1 st0 example_malloc_def fits_at_def with_block_def apart_def)
  then obtain st2 where st2: "run_with example_malloc st2" "mt_stopped st2 = None"
      "mt_at st2 = (\<lambda>_. M_idle)(2 := A_header 42 0x10000, 3 := A_header 42 0x20000)"
      "mt_heap st2 = with_block 0x20000 64 (with_block 0x10000 64 (mt_heap st0))" "mt_live st2 = Map.empty"
    using to_header [OF example_malloc_ok st1(1,2), of 3 "0x20000"] st1 by auto
  show ?thesis
    using access_to [OF st2(1,2), of 2 "A_done 42 0x10020" "mt_memory st2" "(mt_heap st2)\<lparr>allocSize := (allocSize (mt_heap st2))(0x10000 := 42)\<rparr>"]
    by (auto simp: st2 st0 with_block_def AttachHeader_def)
qed

text \<open>The same without memory: the header is written through a null pointer.\<close>

lemma example_null:
  "malloc_ok (\<lambda>_ _. 0) \<and> (\<exists>st. run_with (\<lambda>_ _. 0) st \<and> mt_stopped st = Some (UB ''AttachHeader''))"
proof -
  have am: "malloc_ok (\<lambda>_ _. 0)" by (simp add: malloc_ok_def)
  define st0 :: "(SListHeader \<times> links) mem_threads" where "st0 = mt_start lock_free_ops (\<lambda>_. 0)"
  have st0: "run_with (\<lambda>_ _. 0) st0" "mt_stopped st0 = None" "mt_at st0 = (\<lambda>_. M_idle)"
      "blocks (mt_heap st0) = (\<lambda>_. None)" "idle lock_free_entries (mt_memory st0) 1 = []"
    using lock_free.new_ok mt_begin
    by (simp_all add: st0_def mt_start_def idle_def Memory_ctor_eq MemoryPool_ctor_def pool_sizes_length)
  obtain st1 where st1: "run_with (\<lambda>_ _. 0) st1" "mt_stopped st1 = None" "mt_at st1 = (\<lambda>_. M_idle)(2 := A_header 42 0)"
      "mt_heap st1 = with_block 0 64 (mt_heap st0)"
    using to_header [OF am st0(1,2), of 2 0] st0 by auto
  have "mt_move lock_free_ops (\<lambda>_ _. 0) 2 st1 = st1\<lparr>mt_stopped := Some (UB ''AttachHeader'')\<rparr>"
    by (simp add: mt_move_def st1 with_block_def AttachHeader_def st0)
  then have "run_with (\<lambda>_ _. 0) (st1\<lparr>mt_stopped := Some (UB ''AttachHeader'')\<rparr>)"
    using mt_next [OF st1(1) access [OF st1(2), of 2]] by simp
  then show ?thesis using am by (intro conjI exI [of _ "st1\<lparr>mt_stopped := Some (UB ''AttachHeader'')\<rparr>"]) simp_all
qed

section \<open>Live memory\<close>

lemma parts_live:
  assumes P: "mem_parts I bs szs L H" and p: "L p = Some n"
  shows "unat p = unat (p - 32) + 32" "n + 32 \<le> block_size (n + 32)" "p AND 0xF = 0"
    "bs (p - 32) = Some (block_size (n + 32))"
proof -
  note live = mem_partsD(6) [OF P p]
  show blk: "bs (p - 32) = Some (block_size (n + 32))" using live by simp
  note blk_ok = mem_partsD(1) [OF P blk]
  show ge: "n + 32 \<le> block_size (n + 32)" using block_size_ge [of "n + 32"] live by simp
  then show "unat p = unat (p - 32) + 32" using live blk_ok by (intro unat_behind) linarith
  have "(p - 32 + 32) AND 0xF = 0" by (rule align_plus_32) (use blk_ok in \<open>simp add: entry_ok_def\<close>)
  then show "p AND 0xF = 0" by simp
qed

lemma parts_apart:
  assumes P: "mem_parts I bs szs L H" and p: "L p = Some n"
  shows "L q = Some k \<Longrightarrow> p \<noteq> q \<Longrightarrow> apart (unat p - 32) (n + 32) (unat q - 32) (k + 32)"
    "a \<in> H \<Longrightarrow> bs a = Some k \<Longrightarrow> apart (unat p - 32) (n + 32) (unat a) k"
proof -
  note p_ok = parts_live [OF P p]
  {
    assume q: "L q = Some k" and ne: "p \<noteq> q"
    note q_ok = parts_live [OF P q]
    have "apart (unat (p - 32)) (block_size (n + 32)) (unat (q - 32)) (block_size (k + 32))"
      by (rule mem_partsD(2) [OF P p_ok(4) q_ok(4)]) (use ne in simp)
    then show "apart (unat p - 32) (n + 32) (unat q - 32) (k + 32)"
      using p_ok(1,2) q_ok(1,2) unfolding apart_def by auto
  next
    assume a: "a \<in> H" "bs a = Some k"
    have "a \<noteq> p - 32" using mem_partsD(7) [OF P a(1)] p by auto
    then have "apart (unat (p - 32)) (block_size (n + 32)) (unat a) k"
      by (intro mem_partsD(2) [OF P p_ok(4) a(2)])
    then show "apart (unat p - 32) (n + 32) (unat a) k" using p_ok(1,2) unfolding apart_def by auto
  }
qed

lemma run_parts:
  assumes "slist ops entries ok" "malloc_ok am" "mt_run ops am T st" "finite T"
  shows "mem_parts (idle entries (mt_memory st)) (blocks (mt_heap st)) (allocSize (mt_heap st)) (mt_live st)
    (in_hands T (mt_at st))"
  using slist.run_inv [OF assms(1,3,4,2)] by (simp add: mt_inv_def Let_def)

text \<open>
  C6. Any number of threads may allocate and release at the same time: whatever the interleaving of
  their accesses, the memory given out is the client's alone. Every live pointer is 16-byte aligned;
  its data, with the header in front, overlaps neither those of another live pointer nor a block that
  some thread is just taking out of a pool, getting from the system or giving back.
\<close>

theorem threads_memory_apart:
  assumes "slist ops entries ok" "malloc_ok am" "mt_run ops am T st" "finite T"
    and "mt_live st p = Some n"
  shows "p AND 0xF = 0 \<and>
    (\<forall>q k. mt_live st q = Some k \<longrightarrow> p \<noteq> q \<longrightarrow> apart (unat p - 32) (n + 32) (unat q - 32) (k + 32)) \<and>
    (\<forall>t \<in> T. \<forall>a k. held_block (mt_at st t) = Some a \<longrightarrow> blocks (mt_heap st) a = Some k \<longrightarrow>
      apart (unat p - 32) (n + 32) (unat a) k)"
proof -
  note P = run_parts [OF assms(1-4)]
  have "a \<in> in_hands T (mt_at st)" if "t \<in> T" "held_block (mt_at st t) = Some a" for t a
    using that by (auto simp: in_hands_def)
  then show ?thesis using parts_live(3) [OF P assms(5)] parts_apart [OF P assms(5)] by blast
qed

theorem threads_memory_apart_witness:
  "\<exists>st. run_with example_malloc st \<and> mt_live st 0x10020 = Some 10 \<and> mt_at st 3 = A_header 42 0x20000 \<and>
    apart (unat (0x10020 :: address) - 32) 42 (unat (0x20000 :: address)) 64"
proof -
  obtain st where st: "run_with example_malloc st" "mt_live st = [0x10020 \<mapsto> 10]" "mt_at st 3 = A_header 42 0x20000"
      "blocks (mt_heap st) 0x20000 = Some 64"
    using example_together by blast
  have "apart (unat (0x10020 :: address) - 32) (10 + 32) (unat (0x20000 :: address)) 64"
    using threads_memory_apart [OF lock_free.slist_axioms example_malloc_ok st(1), of "0x10020" 10] st(2-4) by auto
  then show ?thesis using st by auto
qed

section \<open>Every block is in one place\<close>

lemma card_one:
  assumes "\<And>x y. x \<in> S \<Longrightarrow> y \<in> S \<Longrightarrow> x = y"
  shows "card S = of_bool (S \<noteq> {})"
proof (cases "S = {}")
  case False
  then obtain x where "S = {x}" using assms by auto
  then show ?thesis by simp
qed simp

lemma held_by_one:
  assumes "mt_inv entries ok T st"
  shows "card {t \<in> T. held_block (mt_at st t) = Some a} = of_bool (a \<in> in_hands T (mt_at st))"
proof -
  have "card {t \<in> T. held_block (mt_at st t) = Some a} = of_bool ({t \<in> T. held_block (mt_at st t) = Some a} \<noteq> {})"
    using assms by (intro card_one) (force simp: mt_inv_def Let_def)
  also have "{t \<in> T. held_block (mt_at st t) = Some a} \<noteq> {} \<longleftrightarrow> a \<in> in_hands T (mt_at st)"
    by (auto simp: in_hands_def)
  finally show ?thesis .
qed

lemma idle_in_one:
  assumes "mem_parts (idle entries m) bs szs L H" and len: "length (pools m) = 50"
  shows "card {i. i < length (pools m) \<and> a \<in> set (entries (pool_list (pools m ! i)))} =
    of_bool (\<exists>i. a \<in> set (idle entries m i))"
proof -
  have set: "{i. i < length (pools m) \<and> a \<in> set (entries (pool_list (pools m ! i)))} = {i. a \<in> set (idle entries m i)}"
    using len by (auto simp: idle_def)
  have "card {i. a \<in> set (idle entries m i)} = of_bool ({i. a \<in> set (idle entries m i)} \<noteq> {})"
    using mem_partsD(5) [OF assms(1)] by (intro card_one) blast
  then show ?thesis unfolding set by simp
qed

text \<open>
  C37. No block is lost or in two places, whatever the interleaving: a block the system has given and
  not got back is either a live pointer's, or on the list of exactly one pool, or in the hands of
  exactly one thread that is inside \<^verbatim>\<open>Allocate\<close> or \<^verbatim>\<open>Release\<close>; any other address is in none of
  these places.
\<close>

theorem threads_keep_every_block:
  assumes "slist ops entries ok" "malloc_ok am" "mt_run ops am T st" "finite T"
  shows "of_bool (mt_live st (a + 32) \<noteq> None) + card {t \<in> T. held_block (mt_at st t) = Some a} +
      card {i. i < length (pools (mt_memory st)) \<and> a \<in> set (entries (pool_list (pools (mt_memory st) ! i)))} =
    (if blocks (mt_heap st) a = None then 0 else 1 :: nat)"
proof -
  have inv: "mt_inv entries ok T st" using slist.run_inv [OF assms(1,3,4,2)] by blast
  note P = run_parts [OF assms]
  have len: "length (pools (mt_memory st)) = 50"
    using inv pools_fixedD(1) by (auto simp: mt_inv_def Let_def)
  note count = held_by_one [OF inv, of a] idle_in_one [OF P len, of a]
  show ?thesis
  proof (cases "blocks (mt_heap st) a = None")
    case True
    then show ?thesis unfolding count using parts_no_block [OF P True] by simp
  next
    case False
    then show ?thesis unfolding count
      using mem_partsD(7) [OF P, of a] mem_partsD(8) [OF P False] parts_idle_live [OF P, of a] by fastforce
  qed
qed

theorem threads_keep_every_block_witness:
  "\<exists>st. run_with example_malloc st \<and> mt_live st 0x20020 = None \<and>
    card {t \<in> {2, 3}. held_block (mt_at st t) = Some 0x20000} = 1"
proof -
  obtain st where st: "run_with example_malloc st" "mt_live st = [0x10020 \<mapsto> 10]" "mt_at st 3 = A_header 42 0x20000"
      "blocks (mt_heap st) 0x20000 = Some 64"
    using example_together by blast
  let ?held = "{t \<in> {2, 3}. held_block (mt_at st t) = Some 0x20000}"
  have "card ?held \<le> 1"
    using threads_keep_every_block [OF lock_free.slist_axioms example_malloc_ok st(1), of "0x20000"] st(4)
    by (simp split: if_splits)
  moreover have "?held \<noteq> {}" using st(3) by auto
  then have "0 < card ?held" by (simp add: card_gt_0_iff)
  ultimately show ?thesis using st by (intro exI [of _ st]) simp
qed

section \<open>The counters\<close>

lemma extra_range:
  "0 \<le> use_extra szs i p" "use_extra szs i p \<le> of_bool (p \<noteq> M_idle)" "\<bar>res_extra i p\<bar> \<le> of_bool (p \<noteq> M_idle)"
  by (cases p; simp)+

lemma sum_in_call:
  assumes "finite T" "\<And>t. t \<in> T \<Longrightarrow> f t \<le> (of_bool (at t \<noteq> M_idle) :: int)"
  shows "sum f T \<le> int (card {t \<in> T. at t \<noteq> M_idle})"
proof -
  have "sum f T \<le> (\<Sum>t\<in>T. of_bool (at t \<noteq> M_idle))" by (rule sum_mono) (rule assms(2))
  also have "\<dots> = int (card {t \<in> T. at t \<noteq> M_idle})" using assms(1) by (simp add: Int_def [abs_def] flip: Collect_conj_eq)
  finally show ?thesis .
qed

text \<open>
  C38. The counters follow the lists: between calls \<^verbatim>\<open>_useCount\<close> of a pool is the number of live
  pointers whose blocks come from it and \<^verbatim>\<open>_reserveCount\<close> the number of blocks on its list (both
  as an \<^verbatim>\<open>int32\<close>); while threads are inside calls, neither is off by more than their number, and
  \<^verbatim>\<open>_useCount\<close> never too small.
\<close>

theorem threads_counters:
  assumes "slist ops entries ok" "malloc_ok am" "mt_run ops am T st" "finite T"
    and "i < length (pools (mt_memory st))"
  shows "\<exists>d e. useCount (pools (mt_memory st) ! i) = to_int32 (d +
        int (card {p. \<exists>n. mt_live st p = Some n \<and> pool_for (mt_memory st) (n + 32) = Some i})) \<and>
    reserveCount (pools (mt_memory st) ! i) = to_int32 (e + int (length (entries (pool_list (pools (mt_memory st) ! i))))) \<and>
    0 \<le> d \<and> d \<le> int (card {t \<in> T. mt_at st t \<noteq> M_idle}) \<and> \<bar>e\<bar> \<le> int (card {t \<in> T. mt_at st t \<noteq> M_idle})"
proof -
  let ?m = "mt_memory st" and ?sz = "allocSize (mt_heap st)"
  have inv: "mt_inv entries ok T st" using slist.run_inv [OF assms(1,3,4,2)] by blast
  then have fixed: "pools_fixed ok ?m" by (simp add: mt_inv_def Let_def)
  have i: "i < 50" using assms(5) pools_fixedD(1) [OF fixed] by simp
  note P = run_parts [OF assms(1-4)]
  define d where "d = (\<Sum>t\<in>T. use_extra ?sz i (mt_at st t))"
  define e where "e = (\<Sum>t\<in>T. res_extra i (mt_at st t))"
  have counts: "useCount (pools ?m ! i) = to_int32 (int (card (users (mt_live st) i)) + d)"
      "reserveCount (pools ?m ! i) = to_int32 (int (length (idle entries ?m i)) + e)"
    using inv i by (simp_all add: mt_inv_def Let_def counts_ok_def d_def e_def)
  have "pool_for ?m (n + 32) = pool_of (n + 32)" if "mt_live st p = Some n" for p n
    using mem_partsD(6) [OF P that] by (intro pools_fixedD(4) [OF fixed]) simp
  then have users: "users (mt_live st) i = {p. \<exists>n. mt_live st p = Some n \<and> pool_for ?m (n + 32) = Some i}"
    by (auto simp: users_pool_of)
  have idle: "idle entries ?m i = entries (pool_list (pools ?m ! i))" using assms(5) by (simp add: idle_def)
  have "0 \<le> d" unfolding d_def by (rule sum_nonneg) (rule extra_range)
  moreover have "d \<le> int (card {t \<in> T. mt_at st t \<noteq> M_idle})"
    unfolding d_def by (rule sum_in_call [OF assms(4)]) (rule extra_range)
  moreover have "\<bar>e\<bar> \<le> int (card {t \<in> T. mt_at st t \<noteq> M_idle})"
  proof -
    have "\<bar>e\<bar> \<le> (\<Sum>t\<in>T. \<bar>res_extra i (mt_at st t)\<bar>)" unfolding e_def by (rule sum_abs)
    also have "\<dots> \<le> int (card {t \<in> T. mt_at st t \<noteq> M_idle})" by (rule sum_in_call [OF assms(4)]) (rule extra_range)
    finally show ?thesis .
  qed
  ultimately show ?thesis using counts unfolding users idle
    by (intro exI [of _ d] exI [of _ e]) (simp add: add.commute)
qed

theorem threads_counters_witness:
  "\<exists>st d. run_with example_malloc st \<and> mt_live st = [0x10020 \<mapsto> 10] \<and>
    useCount (pools (mt_memory st) ! 0) = d \<and> 0 \<le> d \<and> d \<le> 2"
proof -
  obtain st where st: "run_with example_malloc st" "mt_live st = [0x10020 \<mapsto> 10]"
    using example_together by blast
  have fixed: "pools_fixed lock_free_ok (mt_memory st)" by (rule example_fixed [OF st(1) example_malloc_ok])
  have "pool_for (mt_memory st) 42 = Some 1"
    using pools_fixedD(4) [OF fixed, of 42] by (simp add: pool_of_def pool_sizes_def eval_nat_numeral)
  then have who: "{p. \<exists>n. mt_live st p = Some n \<and> pool_for (mt_memory st) (n + 32) = Some 0} = {}"
    by (auto simp: st split: if_splits)
  have len: "0 < length (pools (mt_memory st))" using pools_fixedD(1) [OF fixed] by simp
  obtain d where d: "useCount (pools (mt_memory st) ! 0) = to_int32 d" "0 \<le> d"
      "d \<le> int (card {t \<in> {2, 3}. mt_at st t \<noteq> M_idle})"
    using threads_counters [OF lock_free.slist_axioms example_malloc_ok st(1) _ len] unfolding who by auto
  have "card {t \<in> {2, 3 :: nat}. mt_at st t \<noteq> M_idle} \<le> card {2, 3 :: nat}" by (rule card_mono) auto
  then have "d \<le> 2" using d(3) by simp
  then have "useCount (pools (mt_memory st) ! 0) = d" using d by (simp add: to_int32_id)
  then show ?thesis using st d(2) \<open>d \<le> 2\<close> by blast
qed

section \<open>Failures\<close>

text \<open>
  C39. Used correctly by any number of threads the allocator never fails on its own: the only way a
  call stops the program is that \<^verbatim>\<open>_aligned_malloc\<close> returned null for the block and the header is
  written through the null pointer. No \<^verbatim>\<open>ASSERT_CRASH\<close> fires, and nothing outside of the table or
  of an allocated block is read or written, also when a thread releases what another has allocated.
\<close>

theorem threads_stop_only:
  assumes "slist ops entries ok" "malloc_ok am" "mt_run ops am T st" "finite T"
    and "mt_stopped st = Some e"
  shows "e = UB ''AttachHeader'' \<and> (\<exists>t \<in> T. \<exists>z. mt_at st t = A_header z 0)"
  using slist.run_inv [OF assms(1,3,4,2)] assms(5) by (simp add: stops_only_def)

theorem threads_stop_only_witness:
  "\<exists>st. run_with (\<lambda>_ _. 0) st \<and> mt_stopped st = Some (UB ''AttachHeader'') \<and>
    (\<exists>t \<in> {2, 3}. \<exists>z. mt_at st t = A_header z 0)"
proof -
  obtain st where st: "run_with (\<lambda>_ _. 0) st" "mt_stopped st = Some (UB ''AttachHeader'')"
    using example_null by blast
  from threads_stop_only [OF lock_free.slist_axioms conjunct1 [OF example_null] st(1) _ st(2)] st show ?thesis by auto
qed

end
