(* ===== verification/Allocators.thy ===== *)
theory Allocators
  imports Memory_Client "HOL-Library.Signed_Division"
begin

text \<open>
  What is built on the pools and beside them: \<^verbatim>\<open>StompAllocator\<close>, \<^verbatim>\<open>PoolAllocator\<close> and
  \<^verbatim>\<open>StlAllocator\<close> of \<^verbatim>\<open>ServerCore/Allocator.h\<close> and \<^verbatim>\<open>Allocator.cpp\<close>, \<^verbatim>\<open>xnew\<close> and
  \<^verbatim>\<open>xdelete\<close> of \<^verbatim>\<open>ServerCore/Memory.h\<close>, and \<^verbatim>\<open>ServerCore/ObjectPool.h\<close>.

  \<^verbatim>\<open>VirtualAlloc\<close> is the parameter \<open>va\<close>, the base of a new region of the size given or 0.
  Constructors and destructors are not looked into: which objects exist is the map \<open>objects\<close>.
\<close>

section \<open>BaseAllocator\<close>

text \<open>
  \<^verbatim>\<open>malloc\<close> and \<^verbatim>\<open>free\<close> of the C library are parameters on a state of their own. The size, an \<^verbatim>\<open>int32\<close>, is
  converted to the 64-bit \<^verbatim>\<open>size_t\<close>.
\<close>

definition BaseAllocator_Alloc :: "(int \<Rightarrow> 'h \<Rightarrow> address \<times> 'h) \<Rightarrow> int \<Rightarrow> 'h \<Rightarrow> address \<times> 'h" where
  "BaseAllocator_Alloc malloc sz h = malloc (sz mod 2 ^ 64) h"

definition BaseAllocator_Release :: "(address \<Rightarrow> 'h \<Rightarrow> 'h) \<Rightarrow> address \<Rightarrow> 'h \<Rightarrow> 'h" where
  "BaseAllocator_Release free p h = free p h"

text \<open>A negative size is a request for almost the whole address space.\<close>

lemma base_alloc_size:
  assumes "- (2 ^ 31) \<le> sz" "sz < 2 ^ 31"
  shows "BaseAllocator_Alloc malloc sz h = malloc (if 0 \<le> sz then sz else 2 ^ 64 + sz) h"
proof -
  have "sz mod 2 ^ 64 = (if 0 \<le> sz then sz else 2 ^ 64 + sz)"
  proof (cases "0 \<le> sz")
    case False
    have "sz mod 2 ^ 64 = (2 ^ 64 + sz) mod 2 ^ 64" by (rule mod_add_self1 [symmetric])
    also have "\<dots> = 2 ^ 64 + sz" using assms False by (intro mod_pos_pos_trivial) simp_all
    finally show ?thesis using False by simp
  qed (use assms in \<open>simp add: mod_pos_pos_trivial\<close>)
  then show ?thesis by (simp add: BaseAllocator_Alloc_def)
qed

section \<open>StompAllocator\<close>










section \<open>PoolAllocator and StlAllocator\<close>

text \<open>\<^verbatim>\<open>PoolAllocator\<close> passes on to the one \<^verbatim>\<open>Memory\<close> object, \<^verbatim>\<open>GMemory\<close>.\<close>

definition PoolAllocator_Alloc ::
  "'s slist_ops \<Rightarrow> malloc \<Rightarrow> int \<Rightarrow> 's memory \<Rightarrow> heap \<Rightarrow> (address \<times> 's memory \<times> heap) outcome" where
  "PoolAllocator_Alloc ops am sz m h = Allocate ops am sz m h"

definition PoolAllocator_Release ::
  "'s slist_ops \<Rightarrow> address \<Rightarrow> 's memory \<Rightarrow> heap \<Rightarrow> ('s memory \<times> heap) outcome" where
  "PoolAllocator_Release ops ptr m h = Release ops ptr m h"

text \<open>\<^verbatim>\<open>count * sizeof(T)\<close> is a \<^verbatim>\<open>size_t\<close>, then cut to \<^verbatim>\<open>int32\<close>.\<close>

definition StlAllocator_allocate ::
  "'s slist_ops \<Rightarrow> malloc \<Rightarrow> int \<Rightarrow> int \<Rightarrow> 's memory \<Rightarrow> heap \<Rightarrow> (address \<times> 's memory \<times> heap) outcome" where
  "StlAllocator_allocate ops am sizeof_T count m h =
     PoolAllocator_Alloc ops am (to_int32 (count * sizeof_T mod 2 ^ 64)) m h"

definition StlAllocator_deallocate ::
  "'s slist_ops \<Rightarrow> address \<Rightarrow> int \<Rightarrow> 's memory \<Rightarrow> heap \<Rightarrow> ('s memory \<times> heap) outcome" where
  "StlAllocator_deallocate ops ptr count m h = PoolAllocator_Release ops ptr m h"

text \<open>
  An STL container gets a block for all of its elements as long as their bytes and the header
  fit in an \<^verbatim>\<open>int32\<close>; a request of at least 2^32 bytes can be answered with a block that is
  too small: the block has room for the low 32 bits of the byte count only.
\<close>

theorem stl_allocate_room:
  assumes "slist ops entries ok" "malloc_ok am" "mem_run ops am m h L"
    and "0 < sizeof_T" "0 \<le> count" "count * sizeof_T < 2 ^ 64"
    and "to_int32 (count * sizeof_T) = k" "0 \<le> k" "k + 32 < 2 ^ 31"
    and "StlAllocator_allocate ops am sizeof_T count m h = Inr (ptr, m', h')"
  shows "mem_run ops am m' h' (L(ptr \<mapsto> k)) \<and> k = count * sizeof_T mod 2 ^ 32 \<and>
    blocks h' (ptr - 32) = Some (block_size (k + 32)) \<and>
    (count * sizeof_T \<le> block_size (k + 32) - 32 \<longleftrightarrow> count * sizeof_T < 2 ^ 32)"
proof -
  have fits: "count * sizeof_T mod 2 ^ 64 = count * sizeof_T" using assms(4,5,6) by simp
  then have alloc: "Allocate ops am k m h = Inr (ptr, m', h')"
    using assms(7,10) by (simp add: StlAllocator_allocate_def PoolAllocator_Alloc_def)
  have run: "mem_run ops am m' h' (L(ptr \<mapsto> k))"
    by (rule mem_run.mem_allocate [OF assms(3,8,9) alloc])
  have "take_bit 32 k = take_bit 32 (count * sizeof_T)"
    unfolding assms(7) [symmetric] to_int32_def by (simp add: take_bit_signed_take_bit)
  then have k: "k = count * sizeof_T mod 2 ^ 32" using assms(8,9) by (simp add: take_bit_eq_mod)
  have inv: "mem_inv entries ok m' h' (L(ptr \<mapsto> k))" by (rule mem_run_inv [OF run assms(1,2)])
  then have "blocks h' (ptr - 32) = Some (block_size (k + 32))"
    using mem_coreD(6) [of _ _ _ "L(ptr \<mapsto> k)" ptr k] by (auto simp: mem_inv_def)
  moreover have "k \<le> block_size (k + 32) - 32" using block_size_ge [of "k + 32"] assms(8) by simp
  moreover have "block_size (k + 32) - 32 < 2 ^ 32"
  proof (cases "k + 32 \<le> 4096")
    case True
    then obtain i where i: "first_fit pool_sizes (nat (k + 32)) = Some i"
      using Pool_Table.fits [of "nat (k + 32)"] by force
    then have "pool_sizes ! i \<in> set pool_sizes" using fits_only [OF i] pool_sizes_length by simp
    then have "pool_sizes ! i \<le> 4096" using pool_sizes_range by blast
    then show ?thesis using True i by (simp add: block_size_pooled)
  qed (use assms(9) in \<open>simp add: block_size_def\<close>)
  moreover have "count * sizeof_T < 2 ^ 32 \<Longrightarrow> count * sizeof_T = k"
    using k assms(4,5) by simp
  ultimately show ?thesis using run k by auto
qed

theorem stl_allocate_room_witness:
  "\<exists>m h m' h'. StlAllocator_allocate lock_free_ops example_malloc 16 268435457 m h = Inr (0x10020, m', h') \<and>
     mem_run lock_free_ops example_malloc m' h' [0x10020 \<mapsto> 16] \<and>
     \<not> 268435457 * 16 \<le> block_size (16 + 32) - 32"
proof -
  let ?m = "Memory_ctor lock_free_ops" and ?h = "\<lparr>blocks = (\<lambda>_. None), allocSize = (\<lambda>_. 0)\<rparr>"
  have inv: "mem_inv lock_free_entries lock_free_ok ?m ?h Map.empty" by (rule lock_free.ctor_ok)
  have none: "idle lock_free_entries ?m 1 = []"
    using lock_free.new_ok by (simp add: idle_def Memory_ctor_eq MemoryPool_ctor_def pool_sizes_length)
  have fit: "first_fit pool_sizes (nat (16 + 32)) = Some 1"
    by (simp add: pool_sizes_def eval_nat_numeral)
  have "example_malloc (blocks ?h) (block_size (16 + 32)) = 0x10000"
    using fit by (simp add: example_malloc_def fits_at_def block_size_def pool_sizes_nth)
  from lock_free.alloc_new [OF inv example_malloc_ok _ _ fit none this]
  obtain m' h' where alloc: "Allocate lock_free_ops example_malloc 16 ?m ?h = Inr (0x10000 + 32, m', h')"
    by auto
  have cut: "to_int32 (268435457 * 16) = 16" using to_int32_wrap [of 16] to_int32_id [of 16] by simp
  then have stl: "StlAllocator_allocate lock_free_ops example_malloc 16 268435457 ?m ?h = Inr (0x10020, m', h')"
    using alloc by (simp add: StlAllocator_allocate_def PoolAllocator_Alloc_def)
  have "mem_run lock_free_ops example_malloc m' h' [0x10020 \<mapsto> 16] \<and>
      (268435457 * 16 \<le> block_size (16 + 32) - 32 \<longleftrightarrow> (268435457 * 16 :: int) < 2 ^ 32)"
    using stl_allocate_room [OF lock_free.slist_axioms example_malloc_ok mem_run.mem_start
        _ _ _ cut _ _ stl] by simp
  then show ?thesis using stl by auto
qed

section \<open>xnew, xdelete and MakeShared\<close>

record ('s, 'o) store =
  mem :: "'s memory"
  mheap :: heap
  objects :: "address \<Rightarrow> 'o option"  \<comment> \<open>constructed, not yet destroyed\<close>

text \<open>The constructor is a value \<open>obj\<close>; constructing in a block given out is placement new.\<close>

definition xnew ::
  "'s slist_ops \<Rightarrow> malloc \<Rightarrow> int \<Rightarrow> 'o \<Rightarrow> ('s, 'o) store \<Rightarrow> (address \<times> ('s, 'o) store) outcome" where
  "xnew ops am sizeof_Type obj s =
     and_then (PoolAllocator_Alloc ops am sizeof_Type (mem s) (mheap s)) (\<lambda>(memory, m, h).
       Inr (memory, s\<lparr>mem := m, mheap := h, objects := (objects s)(memory \<mapsto> obj)\<rparr>))"

definition xdelete :: "'s slist_ops \<Rightarrow> address \<Rightarrow> ('s, 'o) store \<Rightarrow> ('s, 'o) store outcome" where
  "xdelete ops obj s =
     (if objects s obj = None then Inl (UB ''destructor'')
      else and_then (PoolAllocator_Release ops obj (mem s) (mheap s)) (\<lambda>(m, h).
        Inr (s\<lparr>mem := m, mheap := h, objects := (objects s)(obj := None)\<rparr>)))"

text \<open>A shared pointer: its use count and its deleter's argument.\<close>

definition MakeShared ::
  "'s slist_ops \<Rightarrow> malloc \<Rightarrow> int \<Rightarrow> 'o \<Rightarrow> ('s, 'o) store \<Rightarrow> ((address \<times> nat) \<times> ('s, 'o) store) outcome" where
  "MakeShared ops am sizeof_Type obj s =
     and_then (xnew ops am sizeof_Type obj s) (\<lambda>(p, s'). Inr ((p, 1), s'))"

definition shared_copy :: "address \<times> nat \<Rightarrow> address \<times> nat" where
  "shared_copy sp = (fst sp, snd sp + 1)"

definition shared_drop ::
  "'s slist_ops \<Rightarrow> address \<times> nat \<Rightarrow> ('s, 'o) store \<Rightarrow> ((address \<times> nat) \<times> ('s, 'o) store) outcome" where
  "shared_drop ops sp s =
     (if snd sp = 1 then and_then (xdelete ops (fst sp) s) (\<lambda>s'. Inr ((fst sp, 0), s'))
      else Inr ((fst sp, snd sp - 1), s))"

text \<open>Objects and live memory coincide.\<close>

definition store_run :: "'s slist_ops \<Rightarrow> malloc \<Rightarrow> ('s, 'o) store \<Rightarrow> live_map \<Rightarrow> bool" where
  "store_run ops am s L \<longleftrightarrow> mem_run ops am (mem s) (mheap s) L \<and> dom (objects s) = dom L"

lemma xnew_run:
  assumes "slist ops entries ok" "malloc_ok am" "store_run ops am s L" "0 \<le> sz" "sz + 32 < 2 ^ 31"
    and "xnew ops am sz obj s = Inr (p, s')"
  shows "store_run ops am s' (L(p \<mapsto> sz)) \<and> L p = None \<and> objects s' = (objects s)(p \<mapsto> obj)"
proof -
  have run: "mem_run ops am (mem s) (mheap s) L" using assms(3) by (simp add: store_run_def)
  obtain m h where alloc: "Allocate ops am sz (mem s) (mheap s) = Inr (p, m, h)"
      and s': "s' = s\<lparr>mem := m, mheap := h, objects := (objects s)(p \<mapsto> obj)\<rparr>"
    using assms(6) by (auto simp: xnew_def PoolAllocator_Alloc_def and_then_Inr_iff)
  have inv: "mem_inv entries ok (mem s) (mheap s) L" by (rule mem_run_inv [OF run assms(1,2)])
  have "L p = None"
    using slist.Allocate_spec [OF assms(1) inv assms(2,4,5)] alloc by simp
  then show ?thesis
    using mem_run.mem_allocate [OF run assms(4,5) alloc] assms(3) s' by (simp add: store_run_def)
qed

lemma xdelete_run:
  assumes "slist ops entries ok" "malloc_ok am" "store_run ops am s L" "objects s p \<noteq> None"
  shows "\<exists>s'. xdelete ops p s = Inr s' \<and> store_run ops am s' (L(p := None)) \<and>
    objects s' = (objects s)(p := None)"
proof -
  have run: "mem_run ops am (mem s) (mheap s) L" and dom: "dom (objects s) = dom L"
    using assms(3) by (auto simp: store_run_def)
  have inv: "mem_inv entries ok (mem s) (mheap s) L" by (rule mem_run_inv [OF run assms(1,2)])
  have "p \<in> dom L" using assms(4) dom by auto
  then obtain n where n: "L p = Some n" by auto
  obtain m h where rel: "Release ops p (mem s) (mheap s) = Inr (m, h)"
    using slist.Release_spec [OF assms(1) inv n] by blast
  have "mem_run ops am m h (L(p := None))" by (rule mem_run.mem_release [OF run n rel])
  then show ?thesis
    using rel assms(4) dom by (auto simp: xdelete_def PoolAllocator_Release_def store_run_def)
qed

lemma shared_drop_run:
  assumes "slist ops entries ok" "malloc_ok am" "store_run ops am s L" "objects s p \<noteq> None" "0 < n"
  shows "\<exists>s'. shared_drop ops (p, n) s = Inr ((p, n - 1), s') \<and>
    (if n = 1 then store_run ops am s' (L(p := None)) \<and> objects s' = (objects s)(p := None) else s' = s)"
  using xdelete_run [OF assms(1-4)] assms(5) by (auto simp: shared_drop_def)

fun drops :: "'s slist_ops \<Rightarrow> nat \<Rightarrow> address \<times> nat \<Rightarrow> ('s, 'o) store \<Rightarrow>
    ((address \<times> nat) \<times> ('s, 'o) store) outcome" where
  "drops ops 0 sp s = Inr (sp, s)"
| "drops ops (Suc k) sp s = and_then (shared_drop ops sp s) (\<lambda>(sp', s'). drops ops k sp' s')"

lemma drops_keep:
  "k < n \<Longrightarrow> drops ops k (p, n) s = Inr ((p, n - k), s)"
  by (induction k arbitrary: n) (auto simp: shared_drop_def)

lemma drops_last:
  assumes "slist ops entries ok" "malloc_ok am" "store_run ops am s L" "objects s p \<noteq> None" "0 < n"
  shows "\<exists>s'. drops ops n (p, n) s = Inr ((p, 0), s') \<and> store_run ops am s' (L(p := None)) \<and>
    objects s' = (objects s)(p := None)"
  using assms(5)
proof (induction n)
  case (Suc n)
  show ?case
  proof (cases "n = 0")
    case True
    then show ?thesis using shared_drop_run [OF assms(1-4), of 1] by (auto simp: fun_upd_def)
  next
    case False
    then show ?thesis using Suc.IH by (simp add: shared_drop_def)
  qed
qed simp

text \<open>
  An object made by \<^verbatim>\<open>MakeShared\<close> and shared \<open>n\<close> more times lives until the last of its
  references is dropped; that drop destroys it once and returns its memory, and the store is as
  before.
\<close>

theorem make_shared_lifetime:
  assumes "slist ops entries ok" "malloc_ok am" "store_run ops am s L" "0 \<le> sz" "sz + 32 < 2 ^ 31"
    and "MakeShared ops am sz obj s = Inr (sp, s1)" "(shared_copy ^^ n) sp = spn"
  shows "objects s1 (fst sp) = Some obj \<and> objects s (fst sp) = None \<and>
    (\<forall>k \<le> n. drops ops k spn s1 = Inr ((fst sp, n + 1 - k), s1)) \<and>
    (\<exists>s2. drops ops (n + 1) spn s1 = Inr ((fst sp, 0), s2) \<and> objects s2 = objects s \<and>
      store_run ops am s2 L)"
proof -
  obtain p where new: "xnew ops am sz obj s = Inr (p, s1)" and sp: "sp = (p, 1)"
    using assms(6) by (auto simp: MakeShared_def and_then_Inr_iff)
  note r = xnew_run [OF assms(1-5) new]
  have spn: "spn = (p, n + 1)"
    unfolding assms(7) [symmetric] sp by (induction n) (auto simp: shared_copy_def)
  have live: "objects s1 p \<noteq> None" using r by simp
  have run: "store_run ops am s1 (L(p \<mapsto> sz))" using r by simp
  have out: "objects s p = None"
    using r assms(3) by (metis domIff store_run_def)
  obtain s2 where s2: "drops ops (n + 1) (p, n + 1) s1 = Inr ((p, 0), s2)"
      "store_run ops am s2 ((L(p \<mapsto> sz))(p := None))" "objects s2 = (objects s1)(p := None)"
    using drops_last [OF assms(1,2) run live, of "n + 1"] by auto
  have "(L(p \<mapsto> sz))(p := None) = L" using r by auto
  moreover have "objects s2 = objects s" using s2(3) r out by auto
  moreover have "drops ops k (p, n + 1) s1 = Inr ((p, n + 1 - k), s1)" if "k \<le> n" for k
    using drops_keep [of k "n + 1"] that by simp
  ultimately show ?thesis using s2 sp spn r out by auto
qed

theorem make_shared_lifetime_witness:
  "\<exists>s sp s1 s2. MakeShared lock_free_ops example_malloc 10 (7 :: nat) s = Inr (sp, s1) \<and>
     drops lock_free_ops 3 ((shared_copy ^^ 2) sp) s1 = Inr ((fst sp, 0), s2) \<and> objects s2 = objects s"
proof -
  let ?m = "Memory_ctor lock_free_ops" and ?h = "\<lparr>blocks = (\<lambda>_. None), allocSize = (\<lambda>_. 0)\<rparr>"
  let ?s = "\<lparr>mem = ?m, mheap = ?h, objects = (\<lambda>_. None)\<rparr> :: (_, nat) store"
  have inv: "mem_inv lock_free_entries lock_free_ok ?m ?h Map.empty" by (rule lock_free.ctor_ok)
  have none: "idle lock_free_entries ?m 1 = []"
    using lock_free.new_ok by (simp add: idle_def Memory_ctor_eq MemoryPool_ctor_def pool_sizes_length)
  have fit: "first_fit pool_sizes (nat (10 + 32)) = Some 1"
    by (simp add: pool_sizes_def eval_nat_numeral)
  have "example_malloc (blocks ?h) (block_size (10 + 32)) = 0x10000"
    using fit by (simp add: example_malloc_def fits_at_def block_size_def pool_sizes_nth)
  from lock_free.alloc_new [OF inv example_malloc_ok _ _ fit none this]
  obtain m' h' where "Allocate lock_free_ops example_malloc 10 ?m ?h = Inr (0x10000 + 32, m', h')"
    by auto
  then obtain sp s1 where made: "MakeShared lock_free_ops example_malloc 10 7 ?s = Inr (sp, s1)"
    by (simp add: MakeShared_def xnew_def PoolAllocator_Alloc_def)
  have "store_run lock_free_ops example_malloc ?s Map.empty"
    using mem_run.mem_start by (auto simp: store_run_def)
  from make_shared_lifetime [OF lock_free.slist_axioms example_malloc_ok this _ _ made refl, of 2]
  obtain s2 where "drops lock_free_ops 3 ((shared_copy ^^ 2) sp) s1 = Inr ((fst sp, 0), s2)"
    "objects s2 = objects ?s" by auto
  then show ?thesis using made by blast
qed

section \<open>ObjectPool\<close>

text \<open>
  One pool per type. \<^verbatim>\<open>Push\<close> calls \<^verbatim>\<open>MemoryHeader::DetachHeader\<close>, which is not declared
  (the function is spelled \<^verbatim>\<open>DetechHeader\<close>), so a use of it does not compile; the model uses the
  declared function.
\<close>

record ('s, 'o) object_pool =
  s_pool :: "'s pool"
  op_heap :: heap
  op_objects :: "address \<Rightarrow> 'o option"

definition ObjectPool_init :: "'s slist_ops \<Rightarrow> int \<Rightarrow> heap \<Rightarrow> ('s, 'o) object_pool" where
  "ObjectPool_init ops sizeof_Type h =
     \<lparr>s_pool = MemoryPool_ctor ops (sizeof_Type + sizeof_MemoryHeader), op_heap = h,
       op_objects = (\<lambda>_. None)\<rparr>"

definition ObjectPool_Pop ::
  "'s slist_ops \<Rightarrow> malloc \<Rightarrow> int \<Rightarrow> 'o \<Rightarrow> ('s, 'o) object_pool \<Rightarrow> (address \<times> ('s, 'o) object_pool) outcome" where
  "ObjectPool_Pop ops am sizeof_Type obj s =
     and_then (Pool_Pop ops am (s_pool s) (op_heap s)) (\<lambda>(header, p, h).
     and_then (AttachHeader header (sizeof_Type + sizeof_MemoryHeader) h) (\<lambda>(memory, h').
       Inr (memory, s\<lparr>s_pool := p, op_heap := h', op_objects := (op_objects s)(memory \<mapsto> obj)\<rparr>)))"

text \<open>\<^verbatim>\<open>ObjectPool::MakeShared\<close>: the pointer with its use count; its deleter is \<^verbatim>\<open>Push\<close>.\<close>

definition ObjectPool_MakeShared ::
  "'s slist_ops \<Rightarrow> malloc \<Rightarrow> int \<Rightarrow> 'o \<Rightarrow> ('s, 'o) object_pool \<Rightarrow> ((address \<times> nat) \<times> ('s, 'o) object_pool) outcome" where
  "ObjectPool_MakeShared ops am sizeof_Type obj s =
     and_then (ObjectPool_Pop ops am sizeof_Type obj s) (\<lambda>(p, s'). Inr ((p, 1), s'))"

definition ObjectPool_Push ::
  "'s slist_ops \<Rightarrow> address \<Rightarrow> ('s, 'o) object_pool \<Rightarrow> ('s, 'o) object_pool outcome" where
  "ObjectPool_Push ops obj s =
     (if op_objects s obj = None then Inl (UB ''destructor'')
      else and_then (Pool_Push ops (DetechHeader obj) (s_pool s) (op_heap s)) (\<lambda>(p, h).
        Inr (s\<lparr>s_pool := p, op_heap := h, op_objects := (op_objects s)(obj := None)\<rparr>)))"

context slist begin

text \<open>An object given back is the next one handed out, with a header that says so.\<close>

lemma object_pool_reuse:
  assumes "ok (pool_list (s_pool s))" "op_objects s obj \<noteq> None" "entry_ok (obj - 32)"
    "obj - 32 \<notin> set (entries (pool_list (s_pool s)))" "blocks (op_heap s) (obj - 32) \<noteq> None"
  shows "\<exists>s1 s2. ObjectPool_Push ops obj s = Inr s1 \<and> op_objects s1 obj = None \<and>
    ObjectPool_Pop ops am n new s1 = Inr (obj, s2) \<and> op_objects s2 = (op_objects s)(obj \<mapsto> new) \<and>
    blocks (op_heap s2) = blocks (op_heap s) \<and> allocSize (op_heap s2) (obj - 32) = n + 32 \<and>
    entries (pool_list (s_pool s2)) = entries (pool_list (s_pool s))"
proof -
  let ?e = "obj - 32" and ?p = "s_pool s" and ?h = "op_heap s"
  let ?p1 = "?p\<lparr>pool_list := push_entry ops ?e (pool_list ?p),
    useCount := to_int32 (useCount ?p - 1), reserveCount := to_int32 (reserveCount ?p + 1)\<rparr>"
  let ?h1 = "?h\<lparr>allocSize := (allocSize ?h)(?e := 0)\<rparr>"
  let ?s1 = "s\<lparr>s_pool := ?p1, op_heap := ?h1, op_objects := (op_objects s)(obj := None)\<rparr>"
  have push: "ObjectPool_Push ops obj s = Inr ?s1"
    using assms(2,5) by (simp add: ObjectPool_Push_def DetechHeader_def Pool_Push_def)
  have list1: "ok (pool_list ?p1)" "entries (pool_list ?p1) = ?e # entries (pool_list ?p)"
    using push_ok [OF assms(1,3,4)] by auto
  have "Pool_Pop ops am ?p1 ?h1 = Inr (?e, ?p1\<lparr>pool_list := snd (pop_entry ops (pool_list ?p1)),
      reserveCount := to_int32 (reserveCount ?p1 - 1), useCount := to_int32 (useCount ?p1 + 1)\<rparr>, ?h1)"
    by (rule Pool_Pop_reuse [OF list1]) (use assms(5) in auto)
  then show ?thesis
    using push pop_top [OF list1] assms(5)
    by (auto simp: ObjectPool_Pop_def AttachHeader_def sizeof_MemoryHeader_def)
qed

end

end
