(* ===== verification/Ref_Counting.thy ===== *)
theory Ref_Counting
  imports Prelude
begin

text \<open>
  The intrusive reference counts of \<^verbatim>\<open>ServerCore/RefCounting.h\<close>: \<^verbatim>\<open>RefCountable\<close> and
  \<^verbatim>\<open>TSharedPtr\<close>. Objects and pointer variables are numbered; a count is \<open>None\<close> once the object
  is deleted (or before it exists), and touching it then is \<open>UB\<close>. A pointer variable is \<open>None\<close>
  before its constructor and after its destructor, \<open>Some None\<close> when it holds null. What
  destructors of the objects do is not modelled.
\<close>

section \<open>RefCountable\<close>

record rc =
  refCount :: "nat \<Rightarrow> int option"
  ptr :: "nat \<Rightarrow> nat option option"

definition rc_init :: rc where
  "rc_init = \<lparr>refCount = (\<lambda>_. None), ptr = (\<lambda>_. None)\<rparr>"

definition new_object :: "nat \<Rightarrow> rc \<Rightarrow> rc outcome" where
  "new_object x s = Inr (s\<lparr>refCount := (refCount s)(x \<mapsto> 1)\<rparr>)"

definition AddRef :: "nat \<Rightarrow> rc \<Rightarrow> rc outcome" where
  "AddRef x s = (case refCount s x of
     None \<Rightarrow> Inl (UB ''AddRef'')
   | Some n \<Rightarrow> Inr (s\<lparr>refCount := (refCount s)(x \<mapsto> to_int32 (n + 1))\<rparr>))"

definition ReleaseRef :: "nat \<Rightarrow> rc \<Rightarrow> rc outcome" where
  "ReleaseRef x s = (case refCount s x of
     None \<Rightarrow> Inl (UB ''ReleaseRef'')
   | Some n \<Rightarrow> let n' = to_int32 (n - 1) in
       Inr (s\<lparr>refCount := (refCount s)(x := if n' = 0 then None else Some n')\<rparr>))"

definition GetRefCount :: "nat \<Rightarrow> rc \<Rightarrow> int outcome" where
  "GetRefCount x s = (case refCount s x of None \<Rightarrow> Inl (UB ''GetRefCount'') | Some n \<Rightarrow> Inr n)"

section \<open>TSharedPtr\<close>

definition set_ptr :: "nat \<Rightarrow> nat option \<Rightarrow> rc \<Rightarrow> rc" where
  "set_ptr v p s = s\<lparr>ptr := (ptr s)(v \<mapsto> p)\<rparr>"

definition Ptr_Set :: "nat \<Rightarrow> nat option \<Rightarrow> rc \<Rightarrow> rc outcome" where
  "Ptr_Set v p s = (case p of None \<Rightarrow> Inr (set_ptr v p s) | Some x \<Rightarrow> AddRef x (set_ptr v p s))"

definition get_ptr :: "nat \<Rightarrow> rc \<Rightarrow> nat option outcome" where
  "get_ptr v s = (case ptr s v of None \<Rightarrow> Inl (UB ''TSharedPtr'') | Some p \<Rightarrow> Inr p)"

definition Ptr_Release :: "nat \<Rightarrow> rc \<Rightarrow> rc outcome" where
  "Ptr_Release v s = and_then (get_ptr v s) (\<lambda>p. case p of
     None \<Rightarrow> Inr s
   | Some x \<Rightarrow> and_then (ReleaseRef x s) (\<lambda>s'. Inr (set_ptr v None s')))"

definition ptr_default :: "nat \<Rightarrow> rc \<Rightarrow> rc outcome" where
  "ptr_default v s = Inr (set_ptr v None s)"

definition ptr_raw :: "nat \<Rightarrow> nat option \<Rightarrow> rc \<Rightarrow> rc outcome" where
  "ptr_raw v p s = Ptr_Set v p s"

definition ptr_copy :: "nat \<Rightarrow> nat \<Rightarrow> rc \<Rightarrow> rc outcome" where
  "ptr_copy v rhs s = and_then (get_ptr rhs s) (\<lambda>p. Ptr_Set v p s)"

definition ptr_move :: "nat \<Rightarrow> nat \<Rightarrow> rc \<Rightarrow> rc outcome" where
  "ptr_move v rhs s = and_then (get_ptr rhs s) (\<lambda>p. Inr (set_ptr rhs None (set_ptr v p s)))"

definition ptr_destroy :: "nat \<Rightarrow> rc \<Rightarrow> rc outcome" where
  "ptr_destroy v s = and_then (Ptr_Release v s) (\<lambda>s'. Inr (s'\<lparr>ptr := (ptr s')(v := None)\<rparr>))"

definition assign_copy :: "nat \<Rightarrow> nat \<Rightarrow> rc \<Rightarrow> rc outcome" where
  "assign_copy v rhs s = and_then (get_ptr v s) (\<lambda>p. and_then (get_ptr rhs s) (\<lambda>q.
     if p \<noteq> q then and_then (Ptr_Release v s) (\<lambda>s'. and_then (get_ptr rhs s') (\<lambda>q'. Ptr_Set v q' s'))
     else Inr s))"

definition assign_move :: "nat \<Rightarrow> nat \<Rightarrow> rc \<Rightarrow> rc outcome" where
  "assign_move v rhs s = and_then (Ptr_Release v s) (\<lambda>s'. and_then (get_ptr rhs s') (\<lambda>q.
     Inr (set_ptr rhs None (set_ptr v q s'))))"

section \<open>Clients\<close>

datatype rc_op =
    New nat            \<comment> \<open>\<open>new T\<close>: the creator has one raw reference\<close>
  | Add_raw nat | Release_raw nat
  | Default_ptr nat
  | From_raw nat nat   \<comment> \<open>\<open>TSharedPtr v(x)\<close>\<close>
  | Copy nat nat | Move nat nat | Destroy nat
  | Assign nat nat | Move_assign nat nat

fun rc_do :: "rc_op \<Rightarrow> rc \<Rightarrow> rc outcome" where
  "rc_do (New x) = new_object x"
| "rc_do (Add_raw x) = AddRef x"
| "rc_do (Release_raw x) = ReleaseRef x"
| "rc_do (Default_ptr v) = ptr_default v"
| "rc_do (From_raw v x) = ptr_raw v (Some x)"
| "rc_do (Copy v w) = ptr_copy v w"
| "rc_do (Move v w) = ptr_move v w"
| "rc_do (Destroy v) = ptr_destroy v"
| "rc_do (Assign v w) = assign_copy v w"
| "rc_do (Move_assign v w) = assign_move v w"

text \<open>The raw references that clients own.\<close>

fun raw_after :: "rc_op \<Rightarrow> (nat \<Rightarrow> nat) \<Rightarrow> (nat \<Rightarrow> nat)" where
  "raw_after (New x) raw = raw(x := 1)"
| "raw_after (Add_raw x) raw = raw(x := raw x + 1)"
| "raw_after (Release_raw x) raw = raw(x := raw x - 1)"
| "raw_after _ raw = raw"

definition holders :: "rc \<Rightarrow> nat \<Rightarrow> nat set" where
  "holders s x = {v. ptr s v = Some (Some x)}"

definition refs :: "rc \<Rightarrow> (nat \<Rightarrow> nat) \<Rightarrow> nat \<Rightarrow> nat" where
  "refs s raw x = card (holders s x) + raw x"

text \<open>
  What a client must observe: create under a new number, make a reference only to an object
  somebody refers to, give back only raw references it owns, construct a variable once and use it
  between its constructor and its destructor.
\<close>

definition referred :: "rc \<Rightarrow> (nat \<Rightarrow> nat) \<Rightarrow> nat \<Rightarrow> bool" where
  "referred s raw x \<longleftrightarrow> 0 < refs s raw x \<and> int (refs s raw x) + 1 < 2 ^ 31"

fun allowed :: "rc_op \<Rightarrow> rc \<Rightarrow> (nat \<Rightarrow> nat) \<Rightarrow> bool" where
  "allowed (New x) s raw \<longleftrightarrow> refs s raw x = 0"
| "allowed (Add_raw x) s raw \<longleftrightarrow> referred s raw x"
| "allowed (Release_raw x) s raw \<longleftrightarrow> 0 < raw x"
| "allowed (Default_ptr v) s raw \<longleftrightarrow> ptr s v = None"
| "allowed (From_raw v x) s raw \<longleftrightarrow> ptr s v = None \<and> referred s raw x"
| "allowed (Copy v w) s raw \<longleftrightarrow> ptr s v = None \<and> ptr s w \<noteq> None \<and>
     (\<forall>x. ptr s w = Some (Some x) \<longrightarrow> referred s raw x)"
| "allowed (Move v w) s raw \<longleftrightarrow> ptr s v = None \<and> ptr s w \<noteq> None"
| "allowed (Destroy v) s raw \<longleftrightarrow> ptr s v \<noteq> None"
| "allowed (Assign v w) s raw \<longleftrightarrow> ptr s v \<noteq> None \<and> ptr s w \<noteq> None \<and>
     (\<forall>x. ptr s w = Some (Some x) \<longrightarrow> referred s raw x)"
| "allowed (Move_assign v w) s raw \<longleftrightarrow> ptr s v \<noteq> None \<and> ptr s w \<noteq> None"

inductive rc_run :: "rc \<Rightarrow> (nat \<Rightarrow> nat) \<Rightarrow> bool" where
  rc_start: "rc_run rc_init (\<lambda>_. 0)"
| rc_more: "rc_run s raw \<Longrightarrow> allowed opn s raw \<Longrightarrow> rc_do opn s = Inr s' \<Longrightarrow>
    rc_run s' (raw_after opn raw)"

section \<open>The invariant\<close>

definition count_ok :: "int option \<Rightarrow> nat \<Rightarrow> bool" where
  "count_ok c n \<longleftrightarrow> c = (if n = 0 then None else Some (int n)) \<and> int n < 2 ^ 31"

definition rc_inv :: "rc \<Rightarrow> (nat \<Rightarrow> nat) \<Rightarrow> bool" where
  "rc_inv s raw \<longleftrightarrow> finite (dom (ptr s)) \<and> (\<forall>x. count_ok (refCount s x) (refs s raw x))"

lemma holders_finite: "finite (dom (ptr s)) \<Longrightarrow> finite (holders s x)"
  by (rule finite_subset [of _ "dom (ptr s)"]) (auto simp: holders_def)

lemma holders_set: "holders (set_ptr v p s) x =
    (if p = Some x then insert v (holders s x) else holders s x - {v})"
  by (auto simp: holders_def set_ptr_def)

lemma holders_counts [simp]: "holders (s\<lparr>refCount := c\<rparr>) x = holders s x"
  by (simp add: holders_def)

lemma AddRef_ok:
  assumes "count_ok (refCount s x) n" "0 < n" "int n + 1 < 2 ^ 31"
  shows "AddRef x s = Inr (s\<lparr>refCount := (refCount s)(x \<mapsto> int n + 1)\<rparr>)"
proof -
  have "to_int32 (int n + 1) = int n + 1" using assms(3) by (intro to_int32_id) auto
  then show ?thesis using assms by (simp add: AddRef_def count_ok_def)
qed

lemma ReleaseRef_ok:
  assumes "count_ok (refCount s x) n" "0 < n"
  shows "ReleaseRef x s = Inr (s\<lparr>refCount := (refCount s)(x := if n = 1 then None else Some (int n - 1))\<rparr>)"
proof -
  have "to_int32 (int n - 1) = int n - 1" using assms by (intro to_int32_id) (auto simp: count_ok_def)
  then show ?thesis using assms by (auto simp: ReleaseRef_def count_ok_def Let_def)
qed

lemma set_ptr_simps [simp]:
  "refCount (set_ptr v p s) = refCount s" "ptr (set_ptr v p s) = (ptr s)(v \<mapsto> p)"
  by (simp_all add: set_ptr_def)

lemma inv_count: "rc_inv s raw \<Longrightarrow> count_ok (refCount s x) (refs s raw x)"
  by (simp add: rc_inv_def)

lemma inv_holders: "rc_inv s raw \<Longrightarrow> finite (holders s x)"
  by (rule holders_finite) (simp add: rc_inv_def)

lemma Set_inv:
  assumes inv: "rc_inv s raw" and v: "ptr s v = None \<or> ptr s v = Some None"
    and p: "\<And>x. p = Some x \<Longrightarrow> referred s raw x"
  shows "\<exists>s'. Ptr_Set v p s = Inr s' \<and> rc_inv s' raw \<and> ptr s' = (ptr s)(v \<mapsto> p)"
proof -
  have out: "v \<notin> holders s x" for x using v by (auto simp: holders_def)
  have fin: "finite (holders s x)" for x by (rule inv_holders [OF inv])
  show ?thesis
  proof (cases p)
    case None
    then have "holders (set_ptr v p s) x = holders s x" for x using out by (simp add: holders_set)
    then have "rc_inv (set_ptr v p s) raw" using inv by (simp add: rc_inv_def refs_def)
    then show ?thesis using None by (simp add: Ptr_Set_def)
  next
    case (Some x)
    note r = p [OF Some, unfolded referred_def]
    let ?s = "set_ptr v p s"
    have "AddRef x ?s = Inr (?s\<lparr>refCount := (refCount ?s)(x \<mapsto> int (refs s raw x) + 1)\<rparr>)"
      by (rule AddRef_ok) (use inv_count [OF inv] r in auto)
    then have set: "Ptr_Set v p s = Inr (?s\<lparr>refCount := (refCount s)(x \<mapsto> int (refs s raw x) + 1)\<rparr>)"
      using Some by (simp add: Ptr_Set_def)
    have "refs (?s\<lparr>refCount := c\<rparr>) raw y = (if y = x then refs s raw x + 1 else refs s raw y)" for c y
      using out [of y] fin [of y] Some by (auto simp: refs_def holders_set)
    then have "rc_inv (?s\<lparr>refCount := (refCount s)(x \<mapsto> int (refs s raw x) + 1)\<rparr>) raw"
      using inv r by (auto simp: rc_inv_def count_ok_def)
    then show ?thesis using set by auto
  qed
qed

lemma Release_inv:
  assumes inv: "rc_inv s raw" and v: "ptr s v = Some p"
  shows "\<exists>s'. Ptr_Release v s = Inr s' \<and> rc_inv s' raw \<and> ptr s' = (ptr s)(v \<mapsto> None)"
proof (cases p)
  case None
  then have "(ptr s)(v \<mapsto> None) = ptr s" using v by auto
  then show ?thesis using None v inv by (simp add: Ptr_Release_def get_ptr_def)
next
  case (Some x)
  have mem: "v \<in> holders s x" using v Some by (simp add: holders_def)
  have out: "v \<notin> holders s y" if "y \<noteq> x" for y using v Some that by (simp add: holders_def)
  have fin: "finite (holders s y)" for y by (rule inv_holders [OF inv])
  have pos: "0 < card (holders s x)" using mem fin by (auto simp: card_gt_0_iff)
  then have pos': "0 < refs s raw x" by (simp add: refs_def)
  have lim: "refs s raw x - Suc 0 < 2147483648"
    using inv_count [OF inv, of x] by (auto simp: count_ok_def)
  let ?c = "(refCount s)(x := if refs s raw x = 1 then None else Some (int (refs s raw x) - 1))"
  have rel: "Ptr_Release v s = Inr (set_ptr v None (s\<lparr>refCount := ?c\<rparr>))"
    using ReleaseRef_ok [OF inv_count [OF inv] pos'] v Some by (simp add: Ptr_Release_def get_ptr_def)
  have "refs (set_ptr v None (s\<lparr>refCount := ?c\<rparr>)) raw y =
      (if y = x then refs s raw x - 1 else refs s raw y)" for y
    using out [of y] fin [of y] mem pos by (auto simp: refs_def holders_set)
  then have "rc_inv (set_ptr v None (s\<lparr>refCount := ?c\<rparr>)) raw"
    using inv pos' lim by (auto simp: rc_inv_def count_ok_def of_nat_diff)
  then show ?thesis using rel by auto
qed

lemma Move_inv:
  assumes inv: "rc_inv s raw" and v: "ptr s v = None \<or> ptr s v = Some None"
    and w: "ptr s w = Some q" "v \<noteq> w"
  shows "rc_inv (set_ptr w None (set_ptr v q s)) raw"
proof -
  have out: "v \<notin> holders s x" for x using v by (auto simp: holders_def)
  have fin: "finite (holders s x)" for x by (rule inv_holders [OF inv])
  have "card (holders (set_ptr w None (set_ptr v q s)) x) = card (holders s x)" for x
  proof (cases "q = Some x")
    case True
    then have "w \<in> holders s x" using w by (simp add: holders_def)
    moreover have "holders (set_ptr w None (set_ptr v q s)) x = insert v (holders s x - {w})"
      using True w(2) by (auto simp: holders_set)
    moreover have "Suc (card (holders s x - {w})) = card (holders s x)"
      by (rule card_Suc_Diff1 [OF fin \<open>w \<in> holders s x\<close>])
    ultimately show ?thesis using out [of x] fin [of x] by simp
  next
    case False
    then have "w \<notin> holders s x" using w by (simp add: holders_def)
    then show ?thesis using False out [of x] by (simp add: holders_set)
  qed
  then show ?thesis using inv by (simp add: rc_inv_def refs_def)
qed

section \<open>Every allowed operation\<close>

lemma get_ptr_Some [simp]: "ptr s v = Some p \<Longrightarrow> get_ptr v s = Inr p"
  by (simp add: get_ptr_def)

lemma refs_other:
  "ptr s' = (ptr s)(v \<mapsto> p) \<Longrightarrow> ptr s v \<noteq> Some (Some x) \<Longrightarrow> p \<noteq> Some x \<Longrightarrow> refs s' raw x = refs s raw x"
  by (auto simp: refs_def holders_def split: if_splits intro: arg_cong [of _ _ card])

lemma raw_count:
  assumes "rc_inv s raw" "count_ok c n" "refs s (raw(x := k)) x = n"
  shows "rc_inv (s\<lparr>refCount := (refCount s)(x := c)\<rparr>) (raw(x := k))"
  using assms by (auto simp: rc_inv_def refs_def)

lemma assign_ok:
  assumes inv: "rc_inv s raw" and v: "ptr s v = Some p" and w: "ptr s w = Some q"
    and q: "\<And>x. q = Some x \<Longrightarrow> referred s raw x"
  shows "\<exists>s'. assign_copy v w s = Inr s' \<and> rc_inv s' raw \<and> ptr s' = (ptr s)(v \<mapsto> q)"
proof (cases "p = q")
  case True
  then have "(ptr s)(v \<mapsto> q) = ptr s" using v by auto
  then show ?thesis using True v w inv by (simp add: assign_copy_def)
next
  case False
  obtain s1 where s1: "Ptr_Release v s = Inr s1" "rc_inv s1 raw" "ptr s1 = (ptr s)(v \<mapsto> None)"
    using Release_inv [OF inv v] by blast
  have "w \<noteq> v" using False v w by auto
  then have w1: "ptr s1 w = Some q" using w s1(3) by simp
  have "referred s1 raw x" if "q = Some x" for x
    using q [OF that] refs_other [OF s1(3), of x raw] v False that by (simp add: referred_def)
  then obtain s2 where "Ptr_Set v q s1 = Inr s2" "rc_inv s2 raw" "ptr s2 = (ptr s1)(v \<mapsto> q)"
    using Set_inv [OF s1(2), of v q] s1(3) by auto
  then show ?thesis using False v w s1 w1 by (simp add: assign_copy_def)
qed

lemma move_assign_ok:
  assumes inv: "rc_inv s raw" and v: "ptr s v = Some p" and w: "ptr s w = Some q"
  shows "\<exists>s'. assign_move v w s = Inr s' \<and> rc_inv s' raw"
proof -
  obtain s1 where s1: "Ptr_Release v s = Inr s1" "rc_inv s1 raw" "ptr s1 = (ptr s)(v \<mapsto> None)"
    using Release_inv [OF inv v] by blast
  show ?thesis
  proof (cases "v = w")
    case True
    then have eq: "set_ptr w None (set_ptr w None s1) = s1" using s1(3) by (intro rc.equality) auto
    have "rc_inv (set_ptr w None (set_ptr w None s1)) raw" unfolding eq by (rule s1(2))
    then show ?thesis using True s1 by (simp add: assign_move_def)
  next
    case False
    then show ?thesis
      using s1 w Move_inv [OF s1(2), of v w q] by (auto simp: assign_move_def)
  qed
qed

lemma do_ok:
  assumes inv: "rc_inv s raw" and ok: "allowed opn s raw"
  shows "\<exists>s'. rc_do opn s = Inr s' \<and> rc_inv s' (raw_after opn raw)"
proof (cases opn)
  case (New x)
  then have "refs s raw x = 0" using ok by simp
  then have "rc_inv (s\<lparr>refCount := (refCount s)(x := Some 1)\<rparr>) (raw(x := 1))"
    by (intro raw_count [OF inv, of _ 1]) (auto simp: count_ok_def refs_def)
  then show ?thesis using New by (simp add: new_object_def)
next
  case (Add_raw x)
  then have r: "0 < refs s raw x" "int (refs s raw x) + 1 < 2 ^ 31"
    using ok by (auto simp: referred_def)
  have "rc_inv (s\<lparr>refCount := (refCount s)(x := Some (int (refs s raw x) + 1))\<rparr>) (raw(x := raw x + 1))"
    by (rule raw_count [OF inv, of _ "refs s raw x + 1"]) (use r in \<open>auto simp: count_ok_def refs_def\<close>)
  then show ?thesis using Add_raw AddRef_ok [OF inv_count [OF inv] r] by simp
next
  case (Release_raw x)
  then have raw: "0 < raw x" using ok by simp
  then have r: "0 < refs s raw x" by (simp add: refs_def)
  let ?c = "if refs s raw x = 1 then None else Some (int (refs s raw x) - 1)"
  have "rc_inv (s\<lparr>refCount := (refCount s)(x := ?c)\<rparr>) (raw(x := raw x - 1))"
  proof (rule raw_count [OF inv, of _ "refs s raw x - 1"])
    show "count_ok ?c (refs s raw x - 1)"
      using r inv_count [OF inv, of x] by (auto simp: count_ok_def of_nat_diff)
    show "refs s (raw(x := raw x - 1)) x = refs s raw x - 1" using raw by (simp add: refs_def)
  qed
  then show ?thesis using Release_raw ReleaseRef_ok [OF inv_count [OF inv] r] by simp
next
  case (Default_ptr v)
  then show ?thesis using ok Set_inv [OF inv, of v None] by (simp add: ptr_default_def Ptr_Set_def)
next
  case (From_raw v x)
  then show ?thesis using ok Set_inv [OF inv, of v "Some x"] by (auto simp: ptr_raw_def)
next
  case (Copy v w)
  then obtain q where "ptr s w = Some q" using ok by auto
  then show ?thesis using Copy ok Set_inv [OF inv, of v q] by (auto simp: ptr_copy_def)
next
  case (Move v w)
  then obtain q where q: "ptr s w = Some q" using ok by auto
  then have "v \<noteq> w" using Move ok by auto
  then show ?thesis using q Move ok Move_inv [OF inv, of v w q] by (auto simp: ptr_move_def)
next
  case (Destroy v)
  then obtain p where "ptr s v = Some p" using ok by auto
  then obtain s1 where s1: "Ptr_Release v s = Inr s1" "rc_inv s1 raw" "ptr s1 = (ptr s)(v \<mapsto> None)"
    using Release_inv [OF inv] by blast
  let ?s = "s1\<lparr>ptr := (ptr s1)(v := None)\<rparr>"
  have "holders ?s x = holders s1 x" for x using s1(3) by (auto simp: holders_def)
  then have "rc_inv ?s raw" using s1(2) by (simp add: rc_inv_def refs_def)
  then show ?thesis using Destroy s1 by (simp add: ptr_destroy_def)
next
  case (Assign v w)
  then obtain p q where "ptr s v = Some p" "ptr s w = Some q" using ok by auto
  then show ?thesis using Assign ok assign_ok [OF inv, of v p w q] by auto
next
  case (Move_assign v w)
  then obtain p q where "ptr s v = Some p" "ptr s w = Some q" using ok by auto
  then show ?thesis using Move_assign move_assign_ok [OF inv] by simp
qed

lemma rc_run_inv: "rc_run s raw \<Longrightarrow> rc_inv s raw"
proof (induction rule: rc_run.induct)
  case rc_start
  then show ?case by (simp add: rc_inv_def rc_init_def refs_def holders_def count_ok_def)
next
  case (rc_more s raw opn s')
  then show ?case using do_ok [OF rc_more.IH rc_more.hyps(2)] by auto
qed

section \<open>Properties\<close>

text \<open>Object 5, held by variable 1 and its creator.\<close>

lemma example_run:
  "rc_run (rc_init\<lparr>refCount := [5 \<mapsto> 2], ptr := [1 \<mapsto> Some 5]\<rparr>)
     (raw_after (From_raw 1 5) (raw_after (New 5) (\<lambda>_. 0)))"
proof -
  have 1: "rc_run (rc_init\<lparr>refCount := [5 \<mapsto> 1]\<rparr>) (raw_after (New 5) (\<lambda>_. 0))"
    by (rule rc_run.rc_more [OF rc_run.rc_start])
      (simp_all add: refs_def holders_def rc_init_def new_object_def)
  have "to_int32 2 = 2" by (rule to_int32_id) simp_all
  then show ?thesis
    by (intro rc_run.rc_more [OF 1])
      (simp_all add: refs_def holders_def rc_init_def referred_def ptr_raw_def Ptr_Set_def AddRef_def set_ptr_def)
qed

text \<open>
  References are counted exactly: in every run of clients that keep to their raw
  references, no operation touches a deleted object, \<^verbatim>\<open>_refCount\<close> of an object is the number of
  pointer variables that hold it plus the raw references, and the object is deleted exactly when
  that number becomes 0.
\<close>

theorem reference_counts_exact:
  assumes "rc_run s raw" "allowed opn s raw"
  shows "(\<exists>s'. rc_do opn s = Inr s' \<and> rc_run s' (raw_after opn raw)) \<and>
    (\<forall>x. refCount s x = (if refs s raw x = 0 then None else Some (int (refs s raw x))))"
proof -
  have inv: "rc_inv s raw" by (rule rc_run_inv [OF assms(1)])
  obtain s' where "rc_do opn s = Inr s'" using do_ok [OF inv assms(2)] by blast
  then show ?thesis
    using rc_run.rc_more [OF assms] inv by (auto simp: rc_inv_def count_ok_def)
qed

theorem reference_counts_exact_witness:
  "\<exists>s' raw'. rc_do (Copy 2 1) (rc_init\<lparr>refCount := [5 \<mapsto> 2], ptr := [1 \<mapsto> Some 5]\<rparr>) = Inr s' \<and> rc_run s' raw'"
proof -
  have "holders (rc_init\<lparr>refCount := [5 \<mapsto> 2], ptr := [1 \<mapsto> Some 5]\<rparr>) 5 = {1}"
    by (auto simp: holders_def)
  then have "allowed (Copy 2 1) (rc_init\<lparr>refCount := [5 \<mapsto> 2], ptr := [1 \<mapsto> Some 5]\<rparr>)
      (raw_after (From_raw 1 5) (raw_after (New 5) (\<lambda>_. 0)))"
    by (simp add: referred_def refs_def)
  from reference_counts_exact [OF example_run this] show ?thesis by blast
qed

text \<open>
  The object starts with a count of 1 that no pointer owns: after
  \<^verbatim>\<open>TSharedPtr<T> v(new T)\<close> the count is 2, and when \<open>v\<close> is destroyed the object is still
  there, until its creator calls \<^verbatim>\<open>ReleaseRef\<close>.
\<close>

theorem shared_ptr_of_new_leaks:
  assumes "rc_run s raw" "refs s raw x = 0" "ptr s v = None"
  shows "\<exists>s1 s2 s3 s4. rc_do (New x) s = Inr s1 \<and> rc_do (From_raw v x) s1 = Inr s2 \<and>
    refCount s2 x = Some 2 \<and> rc_do (Destroy v) s2 = Inr s3 \<and> refCount s3 x = Some 1 \<and>
    rc_do (Release_raw x) s3 = Inr s4 \<and> refCount s4 x = None"
proof -
  have "to_int32 2 = 2" "to_int32 1 = 1" "to_int32 0 = 0" by (rule to_int32_id; simp)+
  then show ?thesis
    using assms(3)
    by (simp add: new_object_def ptr_raw_def Ptr_Set_def AddRef_def ptr_destroy_def Ptr_Release_def
        get_ptr_def ReleaseRef_def Let_def)
qed

theorem shared_ptr_of_new_leaks_witness:
  "\<exists>s1 s2 s3. rc_do (New 5) rc_init = Inr s1 \<and> rc_do (From_raw 1 5) s1 = Inr s2 \<and>
     rc_do (Destroy 1) s2 = Inr s3 \<and> refCount s3 5 = Some 1"
  using shared_ptr_of_new_leaks [OF rc_run.rc_start, of 5 1]
  by (force simp: refs_def holders_def rc_init_def)

text \<open>
  Moving a pointer onto itself drops its reference: the variable becomes null, and the object
  is deleted if that was the last one.
\<close>

theorem self_move_drops_reference:
  assumes "rc_run s raw" "ptr s v = Some (Some x)"
  shows "\<exists>s'. rc_do (Move_assign v v) s = Inr s' \<and> ptr s' v = Some None \<and>
    refCount s' x = (if refs s raw x = 1 then None else Some (int (refs s raw x) - 1))"
proof -
  have inv: "rc_inv s raw" by (rule rc_run_inv [OF assms(1)])
  have "v \<in> holders s x" using assms(2) by (simp add: holders_def)
  then have "0 < refs s raw x" using inv_holders [OF inv, of x] by (auto simp: refs_def card_gt_0_iff)
  then show ?thesis
    using ReleaseRef_ok [OF inv_count [OF inv], of x] assms(2)
    by (simp add: assign_move_def Ptr_Release_def)
qed

theorem self_move_drops_reference_witness:
  "\<exists>s s'. rc_do (Move_assign 1 1) s = Inr s' \<and> ptr s' 1 = Some None"
proof -
  from self_move_drops_reference [OF example_run, of 1 5] show ?thesis by auto
qed

end
