(* ===== verification/Ref_Steps.thy ===== *)
theory Ref_Steps
  imports Ref_Counting
begin

text \<open>
  \<^verbatim>\<open>RefCountable\<close> and \<^verbatim>\<open>TSharedPtr\<close> as several threads use them at once. The count is atomic, a
  pointer variable is not: a thread works on variables of its own. An operation is cut at the
  accesses of the count and at \<^verbatim>\<open>delete this\<close>; what lies between them touches only the thread's variables.
  Run by one thread alone the steps are the functions of theory \<open>Ref_Counting\<close>.
\<close>

section \<open>The places of a thread\<close>

text \<open>What is left of a method after its \<^verbatim>\<open>Release\<close>.\<close>

datatype rc_next =
    Then_end        \<comment> \<open>the variable is destroyed\<close>
  | Then_set nat    \<comment> \<open>\<open>Set(rhs._ptr)\<close>\<close>
  | Then_take nat   \<comment> \<open>\<open>_ptr = rhs._ptr; rhs._ptr = nullptr\<close>\<close>

datatype rc_pc =
    Rc_idle
  | Rc_add nat                        \<comment> \<open>before \<open>++_refCount\<close>\<close>
  | Rc_dec "nat option" nat rc_next   \<comment> \<open>before \<open>--_refCount\<close>; the variable, if it is one that releases\<close>
  | Rc_del "nat option" nat rc_next   \<comment> \<open>before \<open>delete this\<close>\<close>

text \<open>\<^verbatim>\<open>Set\<close> up to \<^verbatim>\<open>AddRef\<close>, and what follows \<^verbatim>\<open>ReleaseRef\<close> in \<^verbatim>\<open>Release\<close> and its caller.\<close>

definition start_set :: "nat \<Rightarrow> nat option \<Rightarrow> rc \<Rightarrow> (rc_pc \<times> rc) outcome" where
  "start_set v p s = Inr (case p of None \<Rightarrow> Rc_idle | Some x \<Rightarrow> Rc_add x, set_ptr v p s)"

fun then_do :: "nat \<Rightarrow> rc_next \<Rightarrow> rc \<Rightarrow> (rc_pc \<times> rc) outcome" where
  "then_do v Then_end s = Inr (Rc_idle, s\<lparr>ptr := (ptr s)(v := None)\<rparr>)"
| "then_do v (Then_set w) s = and_then (get_ptr w s) (\<lambda>q. start_set v q s)"
| "then_do v (Then_take w) s = and_then (get_ptr w s) (\<lambda>q. Inr (Rc_idle, set_ptr w None (set_ptr v q s)))"

definition after_release :: "nat option \<Rightarrow> rc_next \<Rightarrow> rc \<Rightarrow> (rc_pc \<times> rc) outcome" where
  "after_release r k s = (case r of None \<Rightarrow> Inr (Rc_idle, s) | Some v \<Rightarrow> then_do v k (set_ptr v None s))"

definition start_release :: "nat \<Rightarrow> rc_next \<Rightarrow> rc \<Rightarrow> (rc_pc \<times> rc) outcome" where
  "start_release v k s = and_then (get_ptr v s) (\<lambda>p. case p of
     None \<Rightarrow> then_do v k s
   | Some x \<Rightarrow> Inr (Rc_dec (Some v) x k, s))"

text \<open>The operations up to their first access of a count.\<close>

fun rc_enter :: "rc_op \<Rightarrow> rc \<Rightarrow> (rc_pc \<times> rc) outcome" where
  "rc_enter (New x) s = and_then (new_object x s) (\<lambda>s. Inr (Rc_idle, s))"
| "rc_enter (Add_raw x) s = Inr (Rc_add x, s)"
| "rc_enter (Release_raw x) s = Inr (Rc_dec None x Then_end, s)"
| "rc_enter (Default_ptr v) s = Inr (Rc_idle, set_ptr v None s)"
| "rc_enter (From_raw v x) s = start_set v (Some x) s"
| "rc_enter (Copy v w) s = and_then (get_ptr w s) (\<lambda>p. start_set v p s)"
| "rc_enter (Move v w) s = and_then (ptr_move v w s) (\<lambda>s. Inr (Rc_idle, s))"
| "rc_enter (Destroy v) s = start_release v Then_end s"
| "rc_enter (Assign v w) s = and_then (get_ptr v s) (\<lambda>p. and_then (get_ptr w s) (\<lambda>q.
     if p \<noteq> q then start_release v (Then_set w) s else Inr (Rc_idle, s)))"
| "rc_enter (Move_assign v w) s = start_release v (Then_take w) s"

text \<open>\<^verbatim>\<open>AddRef\<close> and \<^verbatim>\<open>ReleaseRef\<close>, access by access.\<close>

fun rc_move :: "rc_pc \<Rightarrow> rc \<Rightarrow> (rc_pc \<times> rc) outcome" where
  "rc_move Rc_idle s = Inr (Rc_idle, s)"
| "rc_move (Rc_add x) s = and_then (AddRef x s) (\<lambda>s. Inr (Rc_idle, s))"
| "rc_move (Rc_dec r x k) s = (case refCount s x of
     None \<Rightarrow> Inl (UB ''ReleaseRef'')
   | Some n \<Rightarrow> let n' = to_int32 (n - 1); s = s\<lparr>refCount := (refCount s)(x \<mapsto> n')\<rparr> in
       if n' = 0 then Inr (Rc_del r x k, s) else after_release r k s)"
| "rc_move (Rc_del r x k) s = (case refCount s x of
     None \<Rightarrow> Inl (UB ''delete'')
   | Some n \<Rightarrow> after_release r k (s\<lparr>refCount := (refCount s)(x := None)\<rparr>))"

section \<open>One thread alone\<close>

fun rc_solo :: "nat \<Rightarrow> rc_pc \<times> rc \<Rightarrow> (rc_pc \<times> rc) outcome" where
  "rc_solo 0 c = Inr c"
| "rc_solo (Suc k) c = and_then (rc_move (fst c) (snd c)) (rc_solo k)"

lemma solo_idle [simp]: "rc_solo k (Rc_idle, s) = Inr (Rc_idle, s)"
  by (induction k) simp_all

lemma solo_set:
  "and_then (start_set v p s) (rc_solo (Suc k)) = and_then (Ptr_Set v p s) (\<lambda>s. Inr (Rc_idle, s))"
proof (cases p)
  case (Some x)
  then show ?thesis
    by (cases "AddRef x (set_ptr v p s)") (simp_all add: start_set_def Ptr_Set_def)
qed (simp add: start_set_def Ptr_Set_def)

definition then_alone :: "nat \<Rightarrow> rc_next \<Rightarrow> rc \<Rightarrow> rc outcome" where
  "then_alone v k s = (case k of
     Then_end \<Rightarrow> Inr (s\<lparr>ptr := (ptr s)(v := None)\<rparr>)
   | Then_set w \<Rightarrow> and_then (get_ptr w s) (\<lambda>q. Ptr_Set v q s)
   | Then_take w \<Rightarrow> and_then (get_ptr w s) (\<lambda>q. Inr (set_ptr w None (set_ptr v q s))))"

lemma solo_then:
  "and_then (then_do v k s) (rc_solo (Suc j)) = and_then (then_alone v k s) (\<lambda>s. Inr (Rc_idle, s))"
proof (cases k)
  case (Then_set w)
  then show ?thesis
    by (cases "get_ptr w s") (simp_all add: then_alone_def solo_set del: rc_solo.simps(2))
next
  case (Then_take w)
  then show ?thesis
    by (cases "get_ptr w s") (simp_all add: then_alone_def del: rc_solo.simps(2))
qed (simp add: then_alone_def del: rc_solo.simps(2))

lemma solo_dec:
  "rc_solo (Suc (Suc (Suc j))) (Rc_dec (Some v) x k, s) =
     and_then (ReleaseRef x s) (\<lambda>s. and_then (then_alone v k (set_ptr v None s)) (\<lambda>s. Inr (Rc_idle, s)))"
proof (cases "refCount s x")
  case (Some n)
  then show ?thesis
    using solo_then [where v = v and k = k and j = j] solo_then [where v = v and k = k and j = "Suc j"]
    by (simp add: ReleaseRef_def Let_def after_release_def set_ptr_def)
qed (simp add: ReleaseRef_def)

lemma solo_dec_raw:
  "rc_solo (Suc (Suc j)) (Rc_dec None x k, s) = and_then (ReleaseRef x s) (\<lambda>s. Inr (Rc_idle, s))"
  by (simp add: ReleaseRef_def Let_def after_release_def split: option.split)

lemma solo_ptr_release:
  "and_then (start_release v k s) (rc_solo (Suc (Suc (Suc j)))) =
     and_then (Ptr_Release v s) (\<lambda>s. and_then (then_alone v k s) (\<lambda>s. Inr (Rc_idle, s)))"
proof (cases "get_ptr v s")
  case (Inr p)
  show ?thesis
  proof (cases p)
    case None
    then show ?thesis using Inr by (simp add: start_release_def Ptr_Release_def solo_then del: rc_solo.simps(2))
  next
    case (Some x)
    then show ?thesis using Inr
      by (simp add: start_release_def Ptr_Release_def solo_dec and_then_assoc del: rc_solo.simps(2))
  qed
qed (simp add: start_release_def Ptr_Release_def)

text \<open>Run without interference the accesses compute the functions of theory \<open>Ref_Counting\<close>.\<close>

theorem refs_alone_refine:
  "and_then (rc_enter opn s) (rc_solo 3) = and_then (rc_do opn s) (\<lambda>s. Inr (Rc_idle, s))"
proof -
  have three: "3 = Suc (Suc (Suc 0))" by simp
  show ?thesis
  proof (cases opn)
    case (Add_raw x)
    then show ?thesis unfolding three by (cases "AddRef x s") simp_all
  next
    case (Release_raw x)
    then show ?thesis unfolding three using solo_dec_raw [of "Suc 0" x Then_end s] by simp
  next
    case (Copy v w)
    then show ?thesis unfolding three
      by (cases "get_ptr w s") (simp_all add: ptr_copy_def solo_set del: rc_solo.simps(2))
  next
    case (From_raw v x)
    then show ?thesis unfolding three by (simp add: ptr_raw_def solo_set del: rc_solo.simps(2))
  next
    case (Destroy v)
    then show ?thesis unfolding three
      by (simp add: ptr_destroy_def solo_ptr_release then_alone_def and_then_assoc del: rc_solo.simps(2))
  next
    case (Assign v w)
    then show ?thesis unfolding three
      by (cases "get_ptr v s"; cases "get_ptr w s")
        (simp_all add: assign_copy_def solo_ptr_release then_alone_def and_then_assoc del: rc_solo.simps(2))
  next
    case (Move_assign v w)
    then show ?thesis unfolding three
      by (simp add: assign_move_def solo_ptr_release then_alone_def and_then_assoc del: rc_solo.simps(2))
  qed (simp_all add: ptr_default_def ptr_move_def and_then_assoc new_object_def)
qed

end
