(* ===== verification/Ref_Threads.thy ===== *)
theory Ref_Threads
  imports Ref_Steps
begin

text \<open>
  Any number of threads that make, copy, move, assign and destroy \<^verbatim>\<open>TSharedPtr\<close>s, and hold raw
  references, at the same time. A variable belongs to one thread at a time and can be handed over;
  who owns what is kept for the statements and for what a thread may do, no step of the code reads it.
\<close>

section \<open>Interleaved threads\<close>

record rc_threads =
  rt_rc :: rc
  rt_at :: "nat \<Rightarrow> rc_pc"
  rt_owner :: "nat \<Rightarrow> nat"          \<comment> \<open>of a variable\<close>
  rt_raw :: "nat \<Rightarrow> nat \<Rightarrow> nat"      \<comment> \<open>raw references of a thread to an object\<close>
  rt_stopped :: "failure option"

definition rt_start :: rc_threads where
  "rt_start = \<lparr>rt_rc = rc_init, rt_at = (\<lambda>_. Rc_idle), rt_owner = (\<lambda>_. 0), rt_raw = (\<lambda>_ _. 0), rt_stopped = None\<rparr>"

text \<open>The references a thread has to an object.\<close>

definition own_vars :: "rc \<Rightarrow> (nat \<Rightarrow> nat) \<Rightarrow> nat \<Rightarrow> nat \<Rightarrow> nat set" where
  "own_vars s owner t x = {v. ptr s v = Some (Some x) \<and> owner v = t}"

definition own_refs :: "rc \<Rightarrow> (nat \<Rightarrow> nat) \<Rightarrow> (nat \<Rightarrow> nat) \<Rightarrow> nat \<Rightarrow> nat \<Rightarrow> nat" where
  "own_refs s owner raw t x = card (own_vars s owner t x) + raw x"

fun may_do :: "nat \<Rightarrow> rc_op \<Rightarrow> rc \<Rightarrow> (nat \<Rightarrow> nat) \<Rightarrow> (nat \<Rightarrow> nat) \<Rightarrow> bool" where
  "may_do t (New x) s owner raw \<longleftrightarrow> refCount s x = None"
| "may_do t (Add_raw x) s owner raw \<longleftrightarrow> 0 < own_refs s owner raw t x"
| "may_do t (Release_raw x) s owner raw \<longleftrightarrow> 0 < raw x"
| "may_do t (Default_ptr v) s owner raw \<longleftrightarrow> ptr s v = None"
| "may_do t (From_raw v x) s owner raw \<longleftrightarrow> ptr s v = None \<and> 0 < own_refs s owner raw t x"
| "may_do t (Copy v w) s owner raw \<longleftrightarrow> ptr s v = None \<and> ptr s w \<noteq> None \<and> owner w = t"
| "may_do t (Move v w) s owner raw \<longleftrightarrow> ptr s v = None \<and> ptr s w \<noteq> None \<and> owner w = t"
| "may_do t (Destroy v) s owner raw \<longleftrightarrow> ptr s v \<noteq> None \<and> owner v = t"
| "may_do t (Assign v w) s owner raw \<longleftrightarrow> ptr s v \<noteq> None \<and> owner v = t \<and> ptr s w \<noteq> None \<and> owner w = t"
| "may_do t (Move_assign v w) s owner raw \<longleftrightarrow> ptr s v \<noteq> None \<and> owner v = t \<and> ptr s w \<noteq> None \<and> owner w = t"

text \<open>A variable that a thread constructs is its own.\<close>

fun owner_after :: "nat \<Rightarrow> rc_op \<Rightarrow> (nat \<Rightarrow> nat) \<Rightarrow> (nat \<Rightarrow> nat)" where
  "owner_after t (Default_ptr v) owner = owner(v := t)"
| "owner_after t (From_raw v x) owner = owner(v := t)"
| "owner_after t (Copy v w) owner = owner(v := t)"
| "owner_after t (Move v w) owner = owner(v := t)"
| "owner_after t _ owner = owner"

definition rt_goes :: "nat \<Rightarrow> (rc_pc \<times> rc) outcome \<Rightarrow> rc_threads \<Rightarrow> rc_threads" where
  "rt_goes t r st = (case r of
     Inl e \<Rightarrow> st\<lparr>rt_stopped := Some e\<rparr>
   | Inr (p, s) \<Rightarrow> st\<lparr>rt_rc := s, rt_at := (rt_at st)(t := p)\<rparr>)"

definition rt_called :: "nat \<Rightarrow> rc_op \<Rightarrow> rc_threads \<Rightarrow> rc_threads" where
  "rt_called t opn st = (rt_goes t (rc_enter opn (rt_rc st)) st)
     \<lparr>rt_owner := owner_after t opn (rt_owner st), rt_raw := (rt_raw st)(t := raw_after opn (rt_raw st t))\<rparr>"

inductive rt_step :: "nat set \<Rightarrow> rc_threads \<Rightarrow> rc_threads \<Rightarrow> bool" for T where
  rt_call: "rt_stopped st = None \<Longrightarrow> t \<in> T \<Longrightarrow> rt_at st t = Rc_idle \<Longrightarrow>
    may_do t opn (rt_rc st) (rt_owner st) (rt_raw st t) \<Longrightarrow> rt_step T st (rt_called t opn st)"
| rt_access: "rt_stopped st = None \<Longrightarrow> t \<in> T \<Longrightarrow>
    rt_step T st (rt_goes t (rc_move (rt_at st t) (rt_rc st)) st)"
| rt_hand_over: "rt_stopped st = None \<Longrightarrow> t \<in> T \<Longrightarrow> u \<in> T \<Longrightarrow> rt_at st t = Rc_idle \<Longrightarrow> rt_owner st v = t \<Longrightarrow>
    rt_step T st (st\<lparr>rt_owner := (rt_owner st)(v := u)\<rparr>)"

text \<open>Fewer references than an \<^verbatim>\<open>int32\<close> can count.\<close>

definition roomy :: "rc \<Rightarrow> bool" where
  "roomy s \<longleftrightarrow> (\<forall>x n. refCount s x = Some n \<longrightarrow> n < 2 ^ 31 - 1)"

inductive rt_run :: "nat set \<Rightarrow> rc_threads \<Rightarrow> bool" for T where
  rt_begin: "rt_run T rt_start"
| rt_next: "rt_run T st \<Longrightarrow> roomy (rt_rc st) \<Longrightarrow> rt_step T st st' \<Longrightarrow> rt_run T st'"

section \<open>What the counts count\<close>

text \<open>
  The difference between a thread's references and its share in the count: a reference being made is not
  counted yet; a raw reference being given back is still counted; the reference of a variable whose object is about to be
  deleted is no longer counted.
\<close>

fun extra :: "nat \<Rightarrow> rc_pc \<Rightarrow> int" where
  "extra x (Rc_add y) = - of_bool (x = y)"
| "extra x (Rc_dec None y k) = of_bool (x = y)"
| "extra x (Rc_del (Some v) y k) = - of_bool (x = y)"
| "extra x _ = 0"

fun deletes :: "nat \<Rightarrow> rc_pc \<Rightarrow> bool" where
  "deletes x (Rc_del r y k) \<longleftrightarrow> x = y"
| "deletes x _ \<longleftrightarrow> False"

definition share :: "rc \<Rightarrow> (nat \<Rightarrow> nat) \<Rightarrow> (nat \<Rightarrow> nat) \<Rightarrow> nat \<Rightarrow> rc_pc \<Rightarrow> nat \<Rightarrow> int" where
  "share s owner raw t p x = int (own_refs s owner raw t x) + extra x p"

fun next_ok :: "rc \<Rightarrow> (nat \<Rightarrow> nat) \<Rightarrow> nat \<Rightarrow> nat option \<Rightarrow> rc_next \<Rightarrow> bool" where
  "next_ok s owner t r Then_end \<longleftrightarrow> True"
| "next_ok s owner t r (Then_set w) \<longleftrightarrow> ptr s w \<noteq> None \<and> owner w = t \<and> r \<noteq> Some w"
| "next_ok s owner t r (Then_take w) \<longleftrightarrow> ptr s w \<noteq> None \<and> owner w = t"

fun place_fact :: "rc \<Rightarrow> (nat \<Rightarrow> nat) \<Rightarrow> (nat \<Rightarrow> nat) \<Rightarrow> nat \<Rightarrow> rc_pc \<Rightarrow> bool" where
  "place_fact s owner raw t Rc_idle \<longleftrightarrow> True"
| "place_fact s owner raw t (Rc_add x) \<longleftrightarrow> 2 \<le> own_refs s owner raw t x"
| "place_fact s owner raw t (Rc_dec r x k) \<longleftrightarrow> next_ok s owner t r k \<and>
     (\<forall>v. r = Some v \<longrightarrow> ptr s v = Some (Some x) \<and> owner v = t)"
| "place_fact s owner raw t (Rc_del r x k) \<longleftrightarrow> next_ok s owner t r k \<and>
     (\<forall>v. r = Some v \<longrightarrow> ptr s v = Some (Some x) \<and> owner v = t)"

definition object_ok :: "int option \<Rightarrow> int \<Rightarrow> bool \<Rightarrow> bool" where
  "object_ok c n d \<longleftrightarrow> 0 \<le> n \<and> n < 2 ^ 31 \<and> (d \<longrightarrow> n = 0) \<and> c = (if 0 < n then Some n else if d then Some 0 else None)"

text \<open>As seen by one thread: \<open>K\<close> is the share of the others, \<open>D\<close> says that one of them deletes.\<close>

definition rc_here :: "(nat \<Rightarrow> int) \<Rightarrow> (nat \<Rightarrow> bool) \<Rightarrow> nat \<Rightarrow> rc_pc \<Rightarrow> rc \<Rightarrow> (nat \<Rightarrow> nat) \<Rightarrow> (nat \<Rightarrow> nat) \<Rightarrow> bool" where
  "rc_here K D t p s owner raw \<longleftrightarrow> finite (dom (ptr s)) \<and> place_fact s owner raw t p \<and>
     (\<forall>x. 0 \<le> K x \<and> \<not> (D x \<and> deletes x p) \<and>
        object_ok (refCount s x) (share s owner raw t p x + K x) (D x \<or> deletes x p))"

lemma rc_hereD:
  assumes "rc_here K D t p s owner raw"
  shows "finite (dom (ptr s))" "place_fact s owner raw t p" "0 \<le> K x" "\<not> (D x \<and> deletes x p)"
    "object_ok (refCount s x) (share s owner raw t p x + K x) (D x \<or> deletes x p)"
  using assms by (simp_all add: rc_here_def)

section \<open>References of one thread\<close>

lemma own_vars_finite: "finite (dom (ptr s)) \<Longrightarrow> finite (own_vars s owner t x)"
  by (rule finite_subset [of _ "dom (ptr s)"]) (auto simp: own_vars_def)

text \<open>A variable of its own gets a new value.\<close>

lemma own_refs_ptr:
  assumes fin: "finite (dom (ptr s))" and v: "owner v = t"
  shows "int (own_refs (s\<lparr>ptr := (ptr s)(v := r)\<rparr>) owner raw t x) =
    int (own_refs s owner raw t x) - of_bool (ptr s v = Some (Some x)) + of_bool (r = Some (Some x))"
proof -
  let ?S = "own_vars s owner t x" and ?s = "s\<lparr>ptr := (ptr s)(v := r)\<rparr>"
  have new: "own_vars ?s owner t x = (if r = Some (Some x) then insert v ?S else ?S - {v})"
    using v by (auto simp: own_vars_def)
  have mem: "v \<in> ?S \<longleftrightarrow> ptr s v = Some (Some x)" using v by (simp add: own_vars_def)
  have "finite ?S" by (rule own_vars_finite [OF fin])
  moreover have "0 < card ?S" if "v \<in> ?S" using that \<open>finite ?S\<close> by (auto simp: card_gt_0_iff)
  ultimately show ?thesis using mem
    by (auto simp: own_refs_def new insert_absorb of_nat_diff card_Diff_singleton_if)
qed

lemma own_refs_set:
  assumes "finite (dom (ptr s))" "owner v = t"
  shows "int (own_refs (set_ptr v p s) owner raw t x) =
    int (own_refs s owner raw t x) - of_bool (ptr s v = Some (Some x)) + of_bool (p = Some x)"
  using own_refs_ptr [where s = s and owner = owner and r = "Some p" and raw = raw and x = x, OF assms] by (simp add: set_ptr_def)

lemma own_refs_count [simp]: "own_refs (s\<lparr>refCount := c\<rparr>) owner raw t x = own_refs s owner raw t x"
  by (simp add: own_refs_def own_vars_def)

lemma own_refs_claim:
  "ptr s v = None \<Longrightarrow> own_refs s (owner(v := u)) raw t x = own_refs s owner raw t x"
  by (auto simp: own_refs_def own_vars_def intro: arg_cong [of _ _ card])

lemma own_refs_pos:
  assumes "finite (dom (ptr s))" "ptr s v = Some (Some x)" "owner v = t"
  shows "0 < own_refs s owner raw t x"
proof -
  have "v \<in> own_vars s owner t x" using assms by (simp add: own_vars_def)
  then show ?thesis using own_vars_finite [OF assms(1)] by (auto simp: own_refs_def card_gt_0_iff)
qed

lemma share_nonneg:
  assumes "finite (dom (ptr s))" "place_fact s owner raw t p"
  shows "0 \<le> share s owner raw t p x"
  using assms own_refs_pos [OF assms(1), of _ x owner t raw]
  by (cases "(x, p)" rule: extra.cases) (auto simp: share_def of_bool_def Suc_le_eq)

end
