(* ===== verification/Ref_Moves.thy ===== *)
theory Ref_Moves
  imports Ref_Threads
begin

text \<open>
  Every step of one thread keeps what \<open>rc_here\<close> says, for any share of the others, and leaves the
  variables of the others alone.
\<close>

definition framed :: "nat \<Rightarrow> rc \<Rightarrow> (nat \<Rightarrow> nat) \<Rightarrow> rc \<Rightarrow> (nat \<Rightarrow> nat) \<Rightarrow> bool" where
  "framed t s owner s' owner' \<longleftrightarrow> (\<forall>u w p. u \<noteq> t \<longrightarrow>
     (ptr s' w = Some p \<and> owner' w = u \<longleftrightarrow> ptr s w = Some p \<and> owner w = u))"

lemma framed_own: "framed t s owner s' owner' \<Longrightarrow> u \<noteq> t \<Longrightarrow> own_refs s' owner' raw u x = own_refs s owner raw u x"
  by (simp add: framed_def own_refs_def own_vars_def)

lemma framed_fact:
  assumes fr: "framed t s owner s' owner'" and u: "u \<noteq> t"
  shows "place_fact s' owner' raw u p = place_fact s owner raw u p"
proof -
  have var: "(ptr s' w = Some q \<and> owner' w = u) = (ptr s w = Some q \<and> owner w = u)" for w q
    using fr u by (simp add: framed_def)
  then have "(ptr s' w \<noteq> None \<and> owner' w = u) = (ptr s w \<noteq> None \<and> owner w = u)" for w by auto
  then have "next_ok s' owner' u r k = next_ok s owner u r k" for r k by (cases k) auto
  then show ?thesis using framed_own [OF fr u] var by (cases p) auto
qed

lemma framed_refl [simp]: "framed t s owner s owner"
  by (simp add: framed_def)

lemma framed_count [simp]: "framed t s owner (s'\<lparr>refCount := c\<rparr>) owner' = framed t s owner s' owner'"
  "framed t (s\<lparr>refCount := c\<rparr>) owner s' owner' = framed t s owner s' owner'"
  by (simp_all add: framed_def)

lemma framed_trans: "framed t s owner s1 owner1 \<Longrightarrow> framed t s1 owner1 s2 owner2 \<Longrightarrow> framed t s owner s2 owner2"
  by (simp add: framed_def)

lemma framed_ptr: "owner v = t \<Longrightarrow> framed t s owner (s\<lparr>ptr := (ptr s)(v := r)\<rparr>) owner"
  by (auto simp: framed_def)

lemma framed_set: "owner v = t \<Longrightarrow> framed t s owner (set_ptr v p s) owner"
  by (auto simp: framed_def)

lemma framed_claim: "ptr s v = None \<Longrightarrow> framed t s owner s (owner(v := t))"
  by (auto simp: framed_def)

text \<open>A step of thread \<open>t\<close> comes out well.\<close>

definition goes_well :: "(nat \<Rightarrow> int) \<Rightarrow> (nat \<Rightarrow> bool) \<Rightarrow> nat \<Rightarrow> rc \<Rightarrow> (nat \<Rightarrow> nat) \<Rightarrow> (nat \<Rightarrow> nat) \<Rightarrow> (nat \<Rightarrow> nat) \<Rightarrow>
    (rc_pc \<times> rc) outcome \<Rightarrow> bool" where
  "goes_well K D t s owner owner' raw' r \<longleftrightarrow>
     (\<exists>p' s'. r = Inr (p', s') \<and> rc_here K D t p' s' owner' raw' \<and> framed t s owner s' owner')"

lemma goes_wellI [intro]:
  "rc_here K D t p' s' owner' raw' \<Longrightarrow> framed t s owner s' owner' \<Longrightarrow> goes_well K D t s owner owner' raw' (Inr (p', s'))"
  by (auto simp: goes_well_def)

lemma goes_well_from:
  "goes_well K D t s1 owner owner' raw' r \<Longrightarrow> framed t s owner s1 owner \<Longrightarrow> goes_well K D t s owner owner' raw' r"
  unfolding goes_well_def by (blast intro: framed_trans)

lemma here_same:
  assumes here: "rc_here K D t p s owner raw" and fin: "finite (dom (ptr s'))" and fact: "place_fact s' owner' raw' t p'"
    and same: "refCount s' = refCount s" "\<And>x. share s' owner' raw' t p' x = share s owner raw t p x"
      "\<And>x. deletes x p' = deletes x p"
  shows "rc_here K D t p' s' owner' raw'"
  using here fin fact by (simp add: rc_here_def same)

section \<open>The variables\<close>

lemma start_set_well:
  assumes here: "rc_here K D t Rc_idle s owner raw" and v: "owner v = t" "ptr s v = None \<or> ptr s v = Some None"
    and p: "\<And>x. p = Some x \<Longrightarrow> 0 < own_refs s owner raw t x"
  shows "goes_well K D t s owner owner raw (start_set v p s)"
proof -
  note fin = rc_hereD(1) [OF here]
  have own: "int (own_refs (set_ptr v p s) owner raw t x) = int (own_refs s owner raw t x) + of_bool (p = Some x)" for x
    using own_refs_set [where s = s and owner = owner and raw = raw and p = p and x = x, OF fin v(1)] v(2) by auto
  define q where "q = (case p of None \<Rightarrow> Rc_idle | Some x \<Rightarrow> Rc_add x)"
  have "rc_here K D t q (set_ptr v p s) owner raw"
  proof (rule here_same [OF here])
    show "place_fact (set_ptr v p s) owner raw t q"
    proof (cases p)
      case (Some x)
      then show ?thesis using own [of x] p [of x] by (simp add: q_def)
    qed (simp add: q_def)
    show "share (set_ptr v p s) owner raw t q x = share s owner raw t Rc_idle x" for x
      by (auto simp: share_def own q_def split: option.split)
  qed (use fin in \<open>auto simp: q_def split: option.split\<close>)
  then show ?thesis using framed_set [where owner = owner and v = v and s = s and p = p, OF v(1)] by (auto simp: start_set_def q_def)
qed

lemma then_do_well:
  assumes here: "rc_here K D t Rc_idle s owner raw" and v: "owner v = t" "ptr s v = Some None"
    and k: "next_ok s owner t (Some v) k"
  shows "goes_well K D t s owner owner raw (then_do v k s)"
proof (cases k)
  case Then_end
  note fin = rc_hereD(1) [OF here]
  have "rc_here K D t Rc_idle (s\<lparr>ptr := (ptr s)(v := None)\<rparr>) owner raw"
    by (rule here_same [OF here])
      (use fin v own_refs_ptr [where s = s and owner = owner and raw = raw and r = None and v = v, OF fin v(1)] in \<open>simp_all add: share_def\<close>)
  then show ?thesis using framed_ptr [where s = s and v = v and r = None and owner = owner, OF v(1)] Then_end by auto
next
  case (Then_set w)
  then obtain q where q: "ptr s w = Some q" "owner w = t" using k by auto
  have "goes_well K D t s owner owner raw (start_set v q s)"
    by (rule start_set_well [OF here v(1)]) (use v q own_refs_pos [OF rc_hereD(1) [OF here], of w] in auto)
  then show ?thesis using Then_set q by simp
next
  case (Then_take w)
  then obtain q where q: "ptr s w = Some q" "owner w = t" using k by auto
  note fin = rc_hereD(1) [OF here]
  let ?s = "set_ptr v q s" and ?s' = "set_ptr w None (set_ptr v q s)"
  have fin': "finite (dom (ptr ?s))" using fin by simp
  have "int (own_refs ?s' owner raw t x) = int (own_refs s owner raw t x)" for x
    using own_refs_set [where s = s and owner = owner and raw = raw and p = q and x = x, OF fin v(1)]
      own_refs_set [where s = ?s and owner = owner and raw = raw and p = None and x = x, OF fin' q(2)] v(2) q(1)
    by (cases "w = v") auto
  then have "rc_here K D t Rc_idle ?s' owner raw"
    by (intro here_same [OF here]) (use fin in \<open>simp_all add: share_def\<close>)
  moreover have "framed t s owner ?s' owner"
    by (rule framed_trans [of t s owner ?s owner]) (rule framed_set, fact v(1) q(2))+
  ultimately show ?thesis using Then_take q by auto
qed

section \<open>The counts\<close>

lemma counted:
  assumes here: "rc_here K D t p s owner raw" and pos: "0 < share s owner raw t p x"
  shows "refCount s x = Some (share s owner raw t p x + K x)" "share s owner raw t p x + K x < 2 ^ 31"
    "\<not> D x" "\<not> deletes x p"
  using rc_hereD(3,5) [OF here, of x] pos by (auto simp: object_ok_def split: if_splits)

lemma add_well:
  assumes here: "rc_here K D t (Rc_add x) s owner raw" and room: "roomy s"
  shows "goes_well K D t s owner owner raw (rc_move (Rc_add x) s)"
proof -
  let ?N = "\<lambda>y. share s owner raw t (Rc_add x) y + K y"
  have "0 < share s owner raw t (Rc_add x) x" using rc_hereD(2) [OF here] by (simp add: share_def)
  note c = counted [OF here this]
  have lim: "?N x < 2 ^ 31 - 1" using room c(1) by (auto simp: roomy_def)
  have pos: "0 \<le> ?N x" using rc_hereD(5) [OF here, of x] by (simp add: object_ok_def)
  let ?s = "s\<lparr>refCount := (refCount s)(x \<mapsto> ?N x + 1)\<rparr>"
  have "to_int32 (?N x + 1) = ?N x + 1" using lim pos by (intro to_int32_id) auto
  then have move: "rc_move (Rc_add x) s = Inr (Rc_idle, ?s)" by (simp add: AddRef_def c(1))
  have "object_ok (refCount ?s y) (share ?s owner raw t Rc_idle y + K y) (D y)" for y
    using rc_hereD(5) [OF here, of y] lim pos c(3) by (cases "y = x") (auto simp: share_def object_ok_def)
  then have "rc_here K D t Rc_idle ?s owner raw" using here by (simp add: rc_here_def)
  then show ?thesis unfolding move by auto
qed

text \<open>\<^verbatim>\<open>--_refCount\<close> as what it leaves for the thread: either the last reference is gone, or not.\<close>

lemma dec_share:
  assumes here: "rc_here K D t (Rc_dec r x k) s owner raw"
  shows "0 < share s owner raw t (Rc_dec r x k) x"
  using rc_hereD(2) [OF here] own_refs_pos [OF rc_hereD(1) [OF here], of _ x owner t raw]
  by (cases r) (auto simp: share_def)

lemma released:
  assumes here: "rc_here K D t p s owner raw" and p: "p = Rc_dec r x k \<or> p = Rc_del r x k"
    and s': "s' = (case r of None \<Rightarrow> s | Some v \<Rightarrow> set_ptr v None s)"
  shows "finite (dom (ptr s'))" "refCount s' = refCount s" "framed t s owner s' owner"
    "share s' owner raw t Rc_idle y = share s owner raw t p y - of_bool (y = x \<and> p = Rc_dec r x k)"
proof -
  note fin = rc_hereD(1) [OF here]
  have r: "ptr s v = Some (Some x) \<and> owner v = t" if "r = Some v" for v
    using rc_hereD(2) [OF here] p that by auto
  show "finite (dom (ptr s'))" "refCount s' = refCount s" "framed t s owner s' owner"
    using fin r framed_set by (auto simp: s' split: option.split)
  show "share s' owner raw t Rc_idle y = share s owner raw t p y - of_bool (y = x \<and> p = Rc_dec r x k)"
  proof (cases r)
    case None
    then show ?thesis using p by (auto simp: s' share_def)
  next
    case (Some v)
    then show ?thesis
      using p r [OF Some] own_refs_set [where s = s and owner = owner and raw = raw and p = None and x = y, OF fin, of v t]
      by (auto simp: s' share_def)
  qed
qed

lemma after_release_well:
  assumes here: "rc_here K D t Rc_idle s' owner raw" and r: "\<And>v. r = Some v \<Longrightarrow> owner v = t \<and> s' = set_ptr v None s \<and>
      next_ok s' owner t r k" and none: "r = None \<Longrightarrow> s' = s"
  shows "goes_well K D t s' owner owner raw (after_release r k s)"
proof (cases r)
  case None
  then show ?thesis using here none by (auto simp: after_release_def)
next
  case (Some v)
  have v: "owner v = t" "s' = set_ptr v None s" "next_ok s' owner t (Some v) k"
    using r [OF Some] unfolding Some by blast+
  have "goes_well K D t s' owner owner raw (then_do v k s')"
    by (rule then_do_well [OF here v(1) _ v(3)]) (simp add: v(2))
  then show ?thesis using Some v(2) by (simp add: after_release_def)
qed

lemma next_ok_null:
  "next_ok s owner t r k \<Longrightarrow> next_ok (s\<lparr>refCount := c\<rparr>) owner t r k"
  "next_ok s owner t (Some v) k \<Longrightarrow> owner v = t \<Longrightarrow> next_ok (set_ptr v None s) owner t (Some v) k"
  by (cases k; simp)+

lemma set_count_commute: "set_ptr v p (s\<lparr>refCount := c\<rparr>) = (set_ptr v p s)\<lparr>refCount := c\<rparr>"
  by (simp add: set_ptr_def)

lemma release_goes:
  assumes here: "rc_here K D t p s owner raw" and p: "p = Rc_dec r x k \<or> p = Rc_del r x k"
    and c: "\<And>y. object_ok (c y) (share s owner raw t p y - of_bool (y = x \<and> p = Rc_dec r x k) + K y) (D y)"
  shows "goes_well K D t s owner owner raw (after_release r k (s\<lparr>refCount := c\<rparr>))"
proof -
  define s1 where "s1 = (case r of None \<Rightarrow> s | Some v \<Rightarrow> set_ptr v None s)"
  note rel = released [OF here p s1_def]
  define s2 where "s2 = s1\<lparr>refCount := c\<rparr>"
  have "share s2 owner raw t Rc_idle y = share s1 owner raw t Rc_idle y" for y by (simp add: s2_def share_def)
  then have mid: "rc_here K D t Rc_idle s2 owner raw"
    using here rel(1,4) c by (simp add: rc_here_def s2_def)
  have var: "ptr s v = Some (Some x) \<and> owner v = t" if "r = Some v" for v
    using rc_hereD(2) [OF here] p that by auto
  have nxt: "next_ok s owner t r k" using rc_hereD(2) [OF here] p by auto
  have "goes_well K D t s2 owner owner raw (after_release r k (s\<lparr>refCount := c\<rparr>))"
  proof (rule after_release_well [OF mid])
    fix v assume v: "r = Some v"
    then show "owner v = t \<and> s2 = set_ptr v None (s\<lparr>refCount := c\<rparr>) \<and> next_ok s2 owner t r k"
      using var [OF v] nxt by (auto simp: s2_def s1_def set_count_commute intro: next_ok_null)
  qed (simp add: s2_def s1_def)
  then show ?thesis using goes_well_from rel(3) by (simp add: s2_def goes_well_def)
qed

lemma dec_well:
  assumes here: "rc_here K D t (Rc_dec r x k) s owner raw"
  shows "goes_well K D t s owner owner raw (rc_move (Rc_dec r x k) s)"
proof -
  let ?N = "\<lambda>y. share s owner raw t (Rc_dec r x k) y + K y"
  note c = counted [OF here dec_share [OF here]]
  have pos: "0 < ?N x" using dec_share [OF here] rc_hereD(3) [OF here, of x] by simp
  have down: "to_int32 (?N x - 1) = ?N x - 1" using pos c(2) by (intro to_int32_id) auto
  let ?c = "(refCount s)(x \<mapsto> ?N x - 1)"
  show ?thesis
  proof (cases "?N x - 1 = 0")
    case True
    let ?s = "s\<lparr>refCount := ?c\<rparr>"
    have sh: "share ?s owner raw t (Rc_del r x k) y = share s owner raw t (Rc_dec r x k) y - of_bool (y = x)" for y
      by (cases r) (simp_all add: share_def)
    have "object_ok (refCount ?s y) (share ?s owner raw t (Rc_del r x k) y + K y) (D y \<or> deletes y (Rc_del r x k))" for y
      using rc_hereD(5) [OF here, of y] True unfolding sh by (cases "y = x") (simp_all add: object_ok_def)
    then have "rc_here K D t (Rc_del r x k) ?s owner raw"
      using here c(3) next_ok_null(1) by (auto simp: rc_here_def)
    then show ?thesis using c(1) down True by (auto simp: Let_def)
  next
    case False
    have "object_ok (?c y) (share s owner raw t (Rc_dec r x k) y - of_bool (y = x \<and> Rc_dec r x k = Rc_dec r x k) + K y) (D y)" for y
      using rc_hereD(5) [OF here, of y] c(2,3) pos False by (cases "y = x") (auto simp: object_ok_def)
    then have "goes_well K D t s owner owner raw (after_release r k (s\<lparr>refCount := ?c\<rparr>))"
      by (rule release_goes [OF here disjI1 [OF refl]])
    then show ?thesis using c(1) down False by (simp add: Let_def)
  qed
qed

lemma del_well:
  assumes here: "rc_here K D t (Rc_del r x k) s owner raw"
  shows "goes_well K D t s owner owner raw (rc_move (Rc_del r x k) s)"
proof -
  have zero: "share s owner raw t (Rc_del r x k) x + K x = 0" "refCount s x = Some 0" "\<not> D x"
    using rc_hereD(4,5) [OF here, of x] by (auto simp: object_ok_def)
  have "object_ok (((refCount s)(x := None)) y) (share s owner raw t (Rc_del r x k) y + K y) (D y)" for y
    using rc_hereD(5) [OF here, of y] zero by (cases "y = x") (auto simp: object_ok_def)
  then have "goes_well K D t s owner owner raw (after_release r k (s\<lparr>refCount := (refCount s)(x := None)\<rparr>))"
    by (intro release_goes [OF here]) simp_all
  then show ?thesis using zero(2) by simp
qed

lemma move_well:
  assumes here: "rc_here K D t p s owner raw" and room: "roomy s"
  shows "goes_well K D t s owner owner raw (rc_move p s)"
proof (cases p)
  case Rc_idle
  then show ?thesis using here by auto
next
  case (Rc_add x)
  then show ?thesis using add_well [OF here [unfolded Rc_add] room] by simp
next
  case (Rc_dec r x k)
  then show ?thesis using dec_well [OF here [unfolded Rc_dec]] by simp
next
  case (Rc_del r x k)
  then show ?thesis using del_well [OF here [unfolded Rc_del]] by simp
qed

section \<open>The calls\<close>

lemma start_release_well:
  assumes here: "rc_here K D t Rc_idle s owner raw" and v: "ptr s v \<noteq> None" "owner v = t"
    and k: "next_ok s owner t (Some v) k"
  shows "goes_well K D t s owner owner raw (start_release v k s)"
proof -
  obtain p where p: "ptr s v = Some p" using v(1) by blast
  show ?thesis
  proof (cases p)
    case None
    then show ?thesis using then_do_well [OF here v(2) _ k] p by (simp add: start_release_def)
  next
    case (Some x)
    have "rc_here K D t (Rc_dec (Some v) x k) s owner raw"
      by (rule here_same [OF here]) (use rc_hereD(1) [OF here] p Some v k in \<open>simp_all add: share_def\<close>)
    then show ?thesis using p Some by (auto simp: start_release_def)
  qed
qed

text \<open>A new variable is claimed first.\<close>

lemma claim_here:
  assumes here: "rc_here K D t Rc_idle s owner raw" and v: "ptr s v = None"
  shows "rc_here K D t Rc_idle s (owner(v := t)) raw"
  by (rule here_same [OF here]) (use rc_hereD(1) [OF here] own_refs_claim [OF v] in \<open>simp_all add: share_def\<close>)

lemma claimed_well:
  assumes "goes_well K D t s (owner(v := t)) (owner(v := t)) raw r" "ptr s v = None"
  shows "goes_well K D t s owner (owner(v := t)) raw r"
  using assms framed_claim [of s v t owner] unfolding goes_well_def by (blast intro: framed_trans)

lemma own_refs_raw: "int (own_refs s owner (raw(x := n)) t y) =
    int (own_refs s owner raw t y) + of_bool (y = x) * (int n - int (raw x))"
  by (simp add: own_refs_def)

lemma raw_well:
  assumes here: "rc_here K D t Rc_idle s owner raw" and fact: "place_fact s owner (raw(x := n)) t p"
    and extra: "\<And>y. extra y p = of_bool (y = x) * (int (raw x) - int n)" "\<And>y. \<not> deletes y p"
  shows "goes_well K D t s owner owner (raw(x := n)) (Inr (p, s))"
proof -
  have "rc_here K D t p s owner (raw(x := n))"
    by (rule here_same [OF here]) (use rc_hereD(1) [OF here] fact extra in \<open>simp_all add: share_def own_refs_raw algebra_simps\<close>)
  then show ?thesis by auto
qed

lemma new_well:
  assumes here: "rc_here K D t Rc_idle s owner raw" and new: "refCount s x = None"
  shows "goes_well K D t s owner owner (raw(x := 1)) (rc_enter (New x) s)"
proof -
  have none: "share s owner raw t Rc_idle x + K x = 0" "\<not> D x"
    using rc_hereD(5) [OF here, of x] new by (auto simp: object_ok_def split: if_splits)
  have zero: "raw x = 0" "K x = 0" using none(1) rc_hereD(3) [OF here, of x] by (simp_all add: share_def own_refs_def)
  let ?s = "s\<lparr>refCount := (refCount s)(x \<mapsto> 1)\<rparr>"
  have sh: "share ?s owner (raw(x := 1)) t Rc_idle y = share s owner raw t Rc_idle y + of_bool (y = x)" for y
    using zero by (simp add: share_def own_refs_raw)
  have "object_ok (refCount ?s y) (share ?s owner (raw(x := 1)) t Rc_idle y + K y) (D y)" for y
    using rc_hereD(5) [OF here, of y] none unfolding sh by (cases "y = x") (simp_all add: object_ok_def)
  then have "rc_here K D t Rc_idle ?s owner (raw(x := 1))"
    using here by (simp add: rc_here_def)
  then show ?thesis by (auto simp: new_object_def)
qed

lemma enter_well:
  assumes here: "rc_here K D t Rc_idle s owner raw" and may: "may_do t opn s owner raw"
  shows "goes_well K D t s owner (owner_after t opn owner) (raw_after opn raw) (rc_enter opn s)"
proof (cases opn)
  case (New x)
  then show ?thesis using new_well [OF here, of x] may by simp
next
  case (Add_raw x)
  have "int (own_refs s owner (raw(x := raw x + 1)) t x) = int (own_refs s owner raw t x) + 1"
    by (simp add: own_refs_raw)
  then have "place_fact s owner (raw(x := raw x + 1)) t (Rc_add x)" using may Add_raw by simp
  then have "goes_well K D t s owner owner (raw(x := raw x + 1)) (Inr (Rc_add x, s))"
    by (rule raw_well [OF here]) simp_all
  then show ?thesis using Add_raw by simp
next
  case (Release_raw x)
  have "goes_well K D t s owner owner (raw(x := raw x - 1)) (Inr (Rc_dec None x Then_end, s))"
    by (rule raw_well [OF here]) (use may Release_raw in \<open>simp_all add: of_nat_diff\<close>)
  then show ?thesis using Release_raw by simp
next
  case (Default_ptr v)
  have none: "ptr s v = None" using may Default_ptr by simp
  have "goes_well K D t s (owner(v := t)) (owner(v := t)) raw (start_set v None s)"
    by (rule start_set_well [OF claim_here [OF here none]]) (use none in simp_all)
  then show ?thesis using claimed_well none Default_ptr by (simp add: start_set_def)
next
  case (From_raw v x)
  then have none: "ptr s v = None" and x: "0 < own_refs s owner raw t x" using may by simp_all
  have "goes_well K D t s (owner(v := t)) (owner(v := t)) raw (start_set v (Some x) s)"
    by (rule start_set_well [OF claim_here [OF here none]]) (use none x own_refs_claim [OF none] in simp_all)
  then show ?thesis using claimed_well none From_raw by simp
next
  case (Copy v w)
  then obtain q where none: "ptr s v = None" and q: "ptr s w = Some q" "owner w = t" using may by auto
  have "0 < own_refs s (owner(v := t)) raw t x" if "q = Some x" for x
    using own_refs_pos [OF rc_hereD(1) [OF here]] q that own_refs_claim [OF none] by simp
  then have "goes_well K D t s (owner(v := t)) (owner(v := t)) raw (start_set v q s)"
    using none by (intro start_set_well [OF claim_here [OF here none]]) simp_all
  then show ?thesis using claimed_well none q Copy by simp
next
  case (Move v w)
  then obtain q where none: "ptr s v = None" and q: "ptr s w = Some q" "owner w = t" using may by auto
  have set: "goes_well K D t s (owner(v := t)) (owner(v := t)) raw (start_set v None s)"
    by (rule start_set_well [OF claim_here [OF here none]]) (use none in simp_all)
  let ?s = "set_ptr v None s"
  have mid: "rc_here K D t Rc_idle ?s (owner(v := t)) raw" using set by (auto simp: goes_well_def start_set_def)
  have "w \<noteq> v" using none q by auto
  have "goes_well K D t ?s (owner(v := t)) (owner(v := t)) raw (then_do v (Then_take w) ?s)"
    by (rule then_do_well [OF mid]) (use q in simp_all)
  moreover have "framed t s (owner(v := t)) ?s (owner(v := t))" by (rule framed_set) simp
  ultimately have "goes_well K D t s (owner(v := t)) (owner(v := t)) raw (then_do v (Then_take w) ?s)"
    by (rule goes_well_from)
  moreover have "then_do v (Then_take w) ?s = rc_enter (Move v w) s"
    using q \<open>w \<noteq> v\<close> by (simp add: ptr_move_def set_ptr_def)
  ultimately show ?thesis using claimed_well none Move by simp
next
  case (Destroy v)
  then show ?thesis using start_release_well [OF here, of v Then_end] may by simp
next
  case (Assign v w)
  then obtain p q where pq: "ptr s v = Some p" "ptr s w = Some q" "owner v = t" "owner w = t" using may by auto
  show ?thesis
  proof (cases "p = q")
    case True
    then show ?thesis using Assign pq here by auto
  next
    case False
    then have "w \<noteq> v" using pq by auto
    then show ?thesis using start_release_well [OF here, of v "Then_set w"] Assign pq False by simp
  qed
next
  case (Move_assign v w)
  then show ?thesis using start_release_well [OF here, of v "Then_take w"] may by simp
qed

end
