(* ===== verification/Ref_Together.thy ===== *)
theory Ref_Together
  imports Ref_Moves
begin

text \<open>
  The invariant of all threads, and what their clients rely on.
\<close>

definition rt_share :: "rc_threads \<Rightarrow> nat \<Rightarrow> nat \<Rightarrow> int" where
  "rt_share st t x = share (rt_rc st) (rt_owner st) (rt_raw st t) t (rt_at st t) x"

definition rt_inv :: "nat set \<Rightarrow> rc_threads \<Rightarrow> bool" where
  "rt_inv T st \<longleftrightarrow> rt_stopped st = None \<and> finite (dom (ptr (rt_rc st))) \<and>
     (\<forall>t \<in> T. place_fact (rt_rc st) (rt_owner st) (rt_raw st t) t (rt_at st t)) \<and>
     (\<forall>x. object_ok (refCount (rt_rc st) x) (\<Sum>t\<in>T. rt_share st t x) (\<exists>t \<in> T. deletes x (rt_at st t))) \<and>
     (\<forall>x. \<forall>t \<in> T. \<forall>u \<in> T. deletes x (rt_at st t) \<longrightarrow> deletes x (rt_at st u) \<longrightarrow> t = u)"

lemma rt_invD:
  assumes "rt_inv T st"
  shows "finite (dom (ptr (rt_rc st)))" "rt_stopped st = None"
    "t \<in> T \<Longrightarrow> place_fact (rt_rc st) (rt_owner st) (rt_raw st t) t (rt_at st t)"
    "object_ok (refCount (rt_rc st) x) (\<Sum>t\<in>T. rt_share st t x) (\<exists>t \<in> T. deletes x (rt_at st t))"
    "t \<in> T \<Longrightarrow> u \<in> T \<Longrightarrow> deletes x (rt_at st t) \<Longrightarrow> deletes x (rt_at st u) \<Longrightarrow> t = u"
  using assms unfolding rt_inv_def by blast+

lemma rt_share_nonneg: "rt_inv T st \<Longrightarrow> t \<in> T \<Longrightarrow> 0 \<le> rt_share st t x"
  unfolding rt_share_def by (intro share_nonneg rt_invD(1,3))

abbreviation others_share where
  "others_share T st t \<equiv> (\<lambda>x. \<Sum>u\<in>T - {t}. rt_share st u x)"

abbreviation others_delete where
  "others_delete T st t \<equiv> (\<lambda>x. \<exists>u \<in> T - {t}. deletes x (rt_at st u))"

lemma rt_here:
  assumes inv: "rt_inv T st" and T: "finite T" "t \<in> T"
  shows "rc_here (others_share T st t) (others_delete T st t) t (rt_at st t) (rt_rc st) (rt_owner st) (rt_raw st t)"
proof -
  have "(\<Sum>u\<in>T. rt_share st u x) = rt_share st t x + others_share T st t x" for x
    by (rule sum.remove [OF T])
  moreover have "(\<exists>u \<in> T. deletes x (rt_at st u)) = (others_delete T st t x \<or> deletes x (rt_at st t))" for x
    using T(2) by auto
  ultimately have "object_ok (refCount (rt_rc st) x)
      (share (rt_rc st) (rt_owner st) (rt_raw st t) t (rt_at st t) x + others_share T st t x)
      (others_delete T st t x \<or> deletes x (rt_at st t))" for x
    using rt_invD(4) [OF inv, of x] by (simp add: rt_share_def)
  moreover have "0 \<le> others_share T st t x" for x
    by (rule sum_nonneg) (use rt_share_nonneg [OF inv] in auto)
  moreover have "\<not> (others_delete T st t x \<and> deletes x (rt_at st t))" for x
    using rt_invD(5) [OF inv _ T(2)] by blast
  ultimately show ?thesis
    using rt_invD(1) [OF inv] rt_invD(3) [OF inv T(2)] by (simp add: rc_here_def)
qed

lemma rt_back:
  assumes inv: "rt_inv T st" and T: "finite T" "t \<in> T"
    and well: "goes_well (others_share T st t) (others_delete T st t) t (rt_rc st) (rt_owner st) owner' raw' r"
  shows "rt_inv T ((rt_goes t r st)\<lparr>rt_owner := owner', rt_raw := (rt_raw st)(t := raw')\<rparr>)"
proof -
  obtain p' s' where r: "r = Inr (p', s')"
    and here: "rc_here (others_share T st t) (others_delete T st t) t p' s' owner' raw'"
    and fr: "framed t (rt_rc st) (rt_owner st) s' owner'"
    using well unfolding goes_well_def by blast
  define st' where "st' = (rt_goes t r st)\<lparr>rt_owner := owner', rt_raw := (rt_raw st)(t := raw')\<rparr>"
  have st': "rt_rc st' = s'" "rt_owner st' = owner'" "rt_at st' = (rt_at st)(t := p')"
      "rt_raw st' = (rt_raw st)(t := raw')" "rt_stopped st' = None"
    using rt_invD(2) [OF inv] by (simp_all add: st'_def rt_goes_def r)
  have others: "rt_share st' u x = rt_share st u x" if "u \<noteq> t" for u x
    using framed_own [OF fr that] that by (simp add: rt_share_def share_def st')
  have mine: "rt_share st' t x = share s' owner' raw' t p' x" for x by (simp add: rt_share_def st')
  have "(\<Sum>u\<in>T. rt_share st' u x) = share s' owner' raw' t p' x + others_share T st t x" for x
    using sum.remove [OF T, of "\<lambda>u. rt_share st' u x"] others by (simp add: mine)
  moreover have "(\<exists>u \<in> T. deletes x (rt_at st' u)) = (others_delete T st t x \<or> deletes x p')" for x
    using T(2) by (auto simp: st')
  ultimately have objects: "object_ok (refCount (rt_rc st') x) (\<Sum>u\<in>T. rt_share st' u x) (\<exists>u \<in> T. deletes x (rt_at st' u))" for x
    using rc_hereD(5) [OF here, of x] by (simp add: st')
  have facts: "place_fact (rt_rc st') (rt_owner st') (rt_raw st' u) u (rt_at st' u)" if "u \<in> T" for u
    using rt_invD(3) [OF inv that] rc_hereD(2) [OF here] framed_fact [OF fr] by (simp add: st')
  have once: "u = w" if "u \<in> T" "w \<in> T" "deletes x (rt_at st' u)" "deletes x (rt_at st' w)" for u w x
    using rt_invD(5) [OF inv, of u w x] rc_hereD(4) [OF here, of x] that by (auto simp: st' split: if_splits)
  have "rt_inv T st'"
    unfolding rt_inv_def using objects facts once rc_hereD(1) [OF here] st'(1,5) by blast
  then show ?thesis by (simp add: st'_def)
qed

section \<open>Every step keeps it\<close>

lemma hand_share:
  assumes fin: "finite (dom (ptr s))" and v: "owner v = t" and ne: "t \<noteq> u"
  shows "int (own_refs s (owner(v := u)) raw t x) = int (own_refs s owner raw t x) - of_bool (ptr s v = Some (Some x))"
    "int (own_refs s (owner(v := u)) raw u x) = int (own_refs s owner raw u x) + of_bool (ptr s v = Some (Some x))"
    "w \<noteq> t \<Longrightarrow> w \<noteq> u \<Longrightarrow> own_refs s (owner(v := u)) raw w x = own_refs s owner raw w x"
proof -
  let ?S = "\<lambda>t. own_vars s owner t x"
  have fin': "finite (?S w)" for w by (rule own_vars_finite [OF fin])
  have "own_vars s (owner(v := u)) t x = ?S t - {v}" using ne by (auto simp: own_vars_def)
  moreover have "v \<in> ?S t \<longleftrightarrow> ptr s v = Some (Some x)" using v by (simp add: own_vars_def)
  moreover have "0 < card (?S t)" if "v \<in> ?S t" using that fin' by (auto simp: card_gt_0_iff)
  ultimately show "int (own_refs s (owner(v := u)) raw t x) = int (own_refs s owner raw t x) - of_bool (ptr s v = Some (Some x))"
    using fin' by (auto simp: own_refs_def card_Diff_singleton_if of_nat_diff)
  have "own_vars s (owner(v := u)) u x = (if ptr s v = Some (Some x) then insert v (?S u) else ?S u)" "v \<notin> ?S u"
    using v ne by (auto simp: own_vars_def)
  then show "int (own_refs s (owner(v := u)) raw u x) = int (own_refs s owner raw u x) + of_bool (ptr s v = Some (Some x))"
    using fin' by (simp add: own_refs_def)
  show "w \<noteq> t \<Longrightarrow> w \<noteq> u \<Longrightarrow> own_refs s (owner(v := u)) raw w x = own_refs s owner raw w x"
    using v by (auto simp: own_refs_def own_vars_def intro: arg_cong [of _ _ card])
qed

lemma sum_two:
  fixes f :: "nat \<Rightarrow> int"
  assumes "finite T" "t \<in> T" "u \<in> T" "t \<noteq> u"
  shows "sum f T = f t + (f u + sum f (T - {t} - {u}))"
  using assms by (simp add: sum.remove [of T t] sum.remove [of "T - {t}" u])

lemma hand_over_inv:
  assumes inv: "rt_inv T st" and T: "finite T" "t \<in> T" "u \<in> T" and idle: "rt_at st t = Rc_idle" and v: "rt_owner st v = t"
  shows "rt_inv T (st\<lparr>rt_owner := (rt_owner st)(v := u)\<rparr>)"
proof (cases "t = u")
  case True
  then have "(rt_owner st)(v := u) = rt_owner st" using v by auto
  then show ?thesis using inv by simp
next
  case ne: False
  define st' where "st' = st\<lparr>rt_owner := (rt_owner st)(v := u)\<rparr>"
  have st': "rt_rc st' = rt_rc st" "rt_owner st' = (rt_owner st)(v := u)" "rt_at st' = rt_at st"
      "rt_raw st' = rt_raw st" "rt_stopped st' = rt_stopped st" by (simp_all add: st'_def)
  note hand = hand_share [where s = "rt_rc st" and owner = "rt_owner st" and v = v and t = t and u = u, OF rt_invD(1) [OF inv] v ne]
  have shares: "(\<Sum>w\<in>T. rt_share st' w x) = (\<Sum>w\<in>T. rt_share st w x)" for x
  proof -
    have "(\<Sum>w\<in>T - {t} - {u}. rt_share st' w x) = (\<Sum>w\<in>T - {t} - {u}. rt_share st w x)"
      by (rule sum.cong) (use hand(3) in \<open>auto simp: rt_share_def share_def st'\<close>)
    then show ?thesis unfolding sum_two [OF T ne]
      by (simp add: rt_share_def share_def st' hand(1,2))
  qed
  have more: "own_refs (rt_rc st) (rt_owner st) raw w x \<le> own_refs (rt_rc st) ((rt_owner st)(v := u)) raw w x"
    if "w \<noteq> t" for w x raw
  proof (cases "w = u")
    case True
    have "int (own_refs (rt_rc st) (rt_owner st) raw u x) \<le> int (own_refs (rt_rc st) ((rt_owner st)(v := u)) raw u x)"
      unfolding hand(2) by simp
    then show ?thesis using True by simp
  next
    case False
    then show ?thesis using hand(3) [where w = w and raw = raw and x = x] that by simp
  qed
  have nxt: "next_ok (rt_rc st) ((rt_owner st)(v := u)) w r k" if "w \<noteq> t" "next_ok (rt_rc st) (rt_owner st) w r k" for w r k
    using that v by (cases k) auto
  have facts: "place_fact (rt_rc st') (rt_owner st') (rt_raw st' w) w (rt_at st' w)" if w: "w \<in> T" for w
  proof (cases "w = t")
    case True
    then show ?thesis using idle by (simp add: st')
  next
    case False
    then show ?thesis
      using rt_invD(3) [OF inv w] more [OF False] nxt [OF False] v
      by (cases "rt_at st w") (auto simp: st' intro: order_trans)
  qed
  have "rt_inv T st'"
    using inv facts unfolding rt_inv_def by (simp add: shares st')
  then show ?thesis by (simp add: st'_def)
qed

lemma rt_step_inv:
  assumes step: "rt_step T st st'" and inv: "rt_inv T st" and T: "finite T" and room: "roomy (rt_rc st)"
  shows "rt_inv T st'"
  using step
proof cases
  case (rt_call t opn)
  show ?thesis unfolding rt_call(1) rt_called_def
    by (rule rt_back [OF inv T rt_call(3)], rule enter_well)
      (use rt_here [OF inv T rt_call(3)] rt_call in simp_all)
next
  case (rt_access t)
  have "rt_inv T ((rt_goes t (rc_move (rt_at st t) (rt_rc st)) st)
      \<lparr>rt_owner := rt_owner st, rt_raw := (rt_raw st)(t := rt_raw st t)\<rparr>)"
    by (rule rt_back [OF inv T rt_access(3)], rule move_well [OF rt_here [OF inv T rt_access(3)] room])
  moreover have "(rt_goes t r st)\<lparr>rt_owner := rt_owner st, rt_raw := rt_raw st\<rparr> = rt_goes t r st" for r
    by (simp add: rt_goes_def split: sum.split prod.split)
  ultimately show ?thesis using rt_access(1) by simp
next
  case (rt_hand_over t u v)
  then show ?thesis using hand_over_inv [OF inv T] by blast
qed

lemma rt_run_inv:
  assumes "rt_run T st" "finite T"
  shows "rt_inv T st"
  using assms(1)
proof induction
  case rt_begin
  show ?case
    by (simp add: rt_inv_def rt_start_def rc_init_def rt_share_def share_def own_refs_def own_vars_def object_ok_def)
next
  case (rt_next st st')
  then show ?case using rt_step_inv assms(2) by blast
qed

section \<open>Properties\<close>

text \<open>Objects that no share counts, and objects that are being deleted, have no reference outside their deletion.\<close>

lemma no_share_no_ref:
  assumes inv: "rt_inv T st" and T: "finite T" "u \<in> T" and none: "(\<Sum>t\<in>T. rt_share st t x) = 0"
    and keeps: "\<not> deletes x (rt_at st u)"
  shows "own_refs (rt_rc st) (rt_owner st) (rt_raw st u) u x = 0"
proof -
  have "rt_share st u x = 0"
    using none sum_nonneg_eq_0_iff [OF T(1), of "\<lambda>t. rt_share st t x"] rt_share_nonneg [OF inv] T(2) by blast
  then show ?thesis
    using rt_invD(3) [OF inv T(2)] keeps
    by (cases "(x, rt_at st u)" rule: extra.cases) (auto simp: rt_share_def share_def of_bool_def split: if_splits)
qed

lemma idle_share: "rt_at st t = Rc_idle \<Longrightarrow> rt_share st t x = int (own_refs (rt_rc st) (rt_owner st) (rt_raw st t) t x)"
  by (simp add: rt_share_def share_def)

lemma object_count: "object_ok c (int m) False \<Longrightarrow> c = (let n = m in if n = 0 then None else Some (int n))"
  by (auto simp: object_ok_def)

text \<open>
  C10. Objects shared by threads. In every interleaving of any number of threads that construct, copy, move, assign and destroy
  \<^verbatim>\<open>TSharedPtr\<close>s of their own, hand them over, and add and release raw references, cut at each access of
  the atomic count: no thread touches the count of a deleted object; whoever has a reference, pointer or
  raw, has it to an object that is not deleted; when the threads are between two operations the count of every
  object is the number of the references to it that the threads have, and an object without one is deleted; and the thread
  that deletes an object is the only one to delete it, while no other thread has a reference to it.
\<close>

theorem threads_share_objects:
  assumes "rt_run T st" "finite T"
  shows "rt_stopped st = None \<and>
    (refCount (rt_rc st) x = None \<longrightarrow> (\<forall>t\<in>T. own_refs (rt_rc st) (rt_owner st) (rt_raw st t) t x = 0)) \<and>
    ((\<forall>t\<in>T. rt_at st t = Rc_idle) \<longrightarrow> refCount (rt_rc st) x =
       (let n = (\<Sum>t\<in>T. own_refs (rt_rc st) (rt_owner st) (rt_raw st t) t x) in if n = 0 then None else Some (int n))) \<and>
    (\<forall>t\<in>T. deletes x (rt_at st t) \<longrightarrow> refCount (rt_rc st) x = Some 0 \<and>
       (\<forall>u\<in>T - {t}. \<not> deletes x (rt_at st u) \<and> own_refs (rt_rc st) (rt_owner st) (rt_raw st u) u x = 0))"
proof -
  have inv: "rt_inv T st" by (rule rt_run_inv [OF assms])
  note ok = rt_invD(4) [OF inv, of x] and T = assms(2)
  let ?n = "\<Sum>t\<in>T. rt_share st t x"
  have gone: "?n = 0 \<and> \<not> (\<exists>t\<in>T. deletes x (rt_at st t))" if "refCount (rt_rc st) x = None"
    using ok that by (auto simp: object_ok_def split: if_splits)
  have "own_refs (rt_rc st) (rt_owner st) (rt_raw st t) t x = 0" if "refCount (rt_rc st) x = None" "t \<in> T" for t
    by (rule no_share_no_ref [OF inv T that(2)]) (use gone [OF that(1)] that(2) in auto)
  moreover have "refCount (rt_rc st) x =
      (let n = (\<Sum>t\<in>T. own_refs (rt_rc st) (rt_owner st) (rt_raw st t) t x) in if n = 0 then None else Some (int n))"
    if idle: "\<forall>t\<in>T. rt_at st t = Rc_idle"
  proof -
    have "?n = int (\<Sum>t\<in>T. own_refs (rt_rc st) (rt_owner st) (rt_raw st t) t x)"
      using idle by (simp add: idle_share)
    then have "object_ok (refCount (rt_rc st) x) (int (\<Sum>t\<in>T. own_refs (rt_rc st) (rt_owner st) (rt_raw st t) t x)) False"
      using ok idle by (simp del: of_nat_sum)
    then show ?thesis by (rule object_count)
  qed
  moreover have "refCount (rt_rc st) x = Some 0 \<and>
      (\<forall>u\<in>T - {t}. \<not> deletes x (rt_at st u) \<and> own_refs (rt_rc st) (rt_owner st) (rt_raw st u) u x = 0)"
    if t: "t \<in> T" "deletes x (rt_at st t)" for t
  proof -
    have zero: "?n = 0" "refCount (rt_rc st) x = Some 0"
      using ok t by (auto simp: object_ok_def)
    have keeps: "\<not> deletes x (rt_at st u)" if "u \<in> T - {t}" for u
      using rt_invD(5) [OF inv, of t u x] t that by blast
    then show ?thesis using zero no_share_no_ref [OF inv T] by blast
  qed
  ultimately show ?thesis using rt_invD(2) [OF inv] by blast
qed

text \<open>
  Thread 0 makes object 5 and pointer 10 to it and hands the pointer to thread 1; then it gives its own
  reference back while thread 1 destroys the pointer. Thread 1 is the one that deletes.
\<close>

definition shared_object :: "int \<Rightarrow> rc_pc \<Rightarrow> rc_pc \<Rightarrow> nat \<Rightarrow> nat \<Rightarrow> rc_threads" where
  "shared_object c p q o10 r = \<lparr>rt_rc = rc_init\<lparr>refCount := [5 \<mapsto> c], ptr := [10 \<mapsto> Some 5]\<rparr>,
     rt_at = (\<lambda>t. if t = 0 then p else if t = 1 then q else Rc_idle), rt_owner = (\<lambda>v. if v = 10 then o10 else 0),
     rt_raw = (\<lambda>t x. if t = 0 \<and> x = 5 then r else 0), rt_stopped = None\<rparr>"

lemma share_next:
  "rt_run T st \<Longrightarrow> roomy (rt_rc st) \<Longrightarrow> rt_step T st st'' \<Longrightarrow> st'' = st' \<Longrightarrow> rt_run T st'"
  by (blast intro: rt_run.rt_next)

lemma share_begins: "rt_run {0, 1} (shared_object 1 (Rc_add 5) Rc_idle 0 1)"
proof -
  define made where "made = rt_start\<lparr>rt_rc := rc_init\<lparr>refCount := [5 \<mapsto> 1]\<rparr>, rt_raw := (\<lambda>t x. if t = 0 \<and> x = 5 then 1 else 0)\<rparr>"
  have "rt_run {0, 1} made"
    by (rule share_next [OF rt_begin _ rt_call [where t = 0 and opn = "New 5"]])
      (auto simp: roomy_def rt_start_def rc_init_def rt_called_def rt_goes_def new_object_def made_def fun_eq_iff)
  then show ?thesis
    by (rule share_next [OF _ _ rt_call [where t = 0 and opn = "From_raw 10 5"]])
      (auto simp: roomy_def rt_start_def rc_init_def rt_called_def rt_goes_def made_def own_refs_def start_set_def
        set_ptr_def shared_object_def fun_eq_iff)
qed

lemma share_small: "to_int32 2 = 2" "to_int32 1 = 1" "to_int32 0 = 0"
  by (rule to_int32_id; simp)+

lemmas share_simps = roomy_def shared_object_def rt_called_def rt_goes_def AddRef_def rc_init_def get_ptr_def
  share_small own_refs_def start_release_def fun_eq_iff Let_def

lemma share_handed: "rt_run {0, 1} (shared_object 2 Rc_idle Rc_idle 1 1)"
proof -
  have "rt_run {0, 1} (shared_object 2 Rc_idle Rc_idle 0 1)"
    by (rule share_next [OF share_begins _ rt_access [where t = 0]]) (auto simp: share_simps)
  then show ?thesis
    by (rule share_next [OF _ _ rt_hand_over [where t = 0 and u = 1 and v = 10]]) (auto simp: share_simps)
qed

lemma share_ends: "rt_run {0, 1} (shared_object 0 Rc_idle (Rc_del (Some 10) 5 Then_end) 1 0)"
proof -
  have "rt_run {0, 1} (shared_object 2 (Rc_dec None 5 Then_end) Rc_idle 1 0)"
    by (rule share_next [OF share_handed _ rt_call [where t = 0 and opn = "Release_raw 5"]]) (auto simp: share_simps)
  then have "rt_run {0, 1} (shared_object 2 (Rc_dec None 5 Then_end) (Rc_dec (Some 10) 5 Then_end) 1 0)"
    by (rule share_next [OF _ _ rt_call [where t = 1 and opn = "Destroy 10"]]) (auto simp: share_simps)
  then have "rt_run {0, 1} (shared_object 1 Rc_idle (Rc_dec (Some 10) 5 Then_end) 1 0)"
    by (rule share_next [OF _ _ rt_access [where t = 0]]) (auto simp: share_simps after_release_def)
  then show ?thesis
    by (rule share_next [OF _ _ rt_access [where t = 1]]) (auto simp: share_simps)
qed

theorem threads_share_objects_witness:
  "rt_run {0, 1} (shared_object 0 Rc_idle (Rc_del (Some 10) 5 Then_end) 1 0) \<and>
   refCount (rt_rc (shared_object 0 Rc_idle (Rc_del (Some 10) 5 Then_end) 1 0)) 5 = Some 0"
proof -
  have "rt_at (shared_object 0 Rc_idle (Rc_del (Some 10) 5 Then_end) 1 0) 1 = Rc_del (Some 10) 5 Then_end"
    by (simp add: shared_object_def)
  then show ?thesis
    using threads_share_objects [OF share_ends, of 5] share_ends by simp
qed

end
