(* ===== verification/Type_Cast.thy ===== *)
theory Type_Cast
  imports Prelude
begin

text \<open>
  The run-time casts of \<^verbatim>\<open>ServerCore/TypeCast.h\<close>. Types are a type variable \<open>'ty\<close>, type
  lists are lists, and the metafunctions are functions; a metafunction that has no
  specialization for its arguments, which does not compile, is \<open>None\<close>. Whether the compiler
  converts \<^verbatim>\<open>const From*\<close> to \<^verbatim>\<open>const To*\<close> is the parameter \<open>derives\<close>: the language defines
  it as \<open>From\<close> being \<open>To\<close> or a class derived from it. \<^verbatim>\<open>s_convert[from][to]\<close> out of range
  is \<open>UB\<close>.
\<close>

section \<open>Type lists\<close>

text \<open>
  \<^verbatim>\<open>Head\<close> and \<^verbatim>\<open>Tail\<close> of a \<^verbatim>\<open>TypeList\<close>. The specialization for exactly two types is the more special
  one, and its \<^verbatim>\<open>Tail\<close> is the second type itself, not a list of it. Nothing uses the two members.
\<close>

datatype 'ty tail = Bare 'ty | Packed "'ty list"

fun TypeList_Head :: "'ty list \<Rightarrow> 'ty option" where
  "TypeList_Head [] = None"
| "TypeList_Head (T # U) = Some T"

fun TypeList_Tail :: "'ty list \<Rightarrow> 'ty tail option" where
  "TypeList_Tail [] = None"
| "TypeList_Tail [T, U] = Some (Bare U)"
| "TypeList_Tail (T # U) = Some (Packed U)"

fun Length :: "'ty list \<Rightarrow> nat" where
  "Length [] = 0"
| "Length (T # U) = 1 + Length U"

fun TypeAt :: "'ty list \<Rightarrow> nat \<Rightarrow> 'ty option" where
  "TypeAt [] index = None"
| "TypeAt (Head # Tail) 0 = Some Head"
| "TypeAt (Head # Tail) (Suc index) = TypeAt Tail index"

fun IndexOf :: "'ty list \<Rightarrow> 'ty \<Rightarrow> int" where
  "IndexOf [] T = -1"
| "IndexOf (Head # Tail) T =
     (if Head = T then 0 else let temp = IndexOf Tail T in if temp = -1 then -1 else temp + 1)"

section \<open>The conversion table\<close>

text \<open>
  \<^verbatim>\<open>Conversion<const From*, const To*>::exists\<close>: the size of the result tells which of the two
  functions \<^verbatim>\<open>Test\<close> the compiler has chosen for the call.
\<close>

definition sizeof_Small :: nat where "sizeof_Small = 1"

definition sizeof_Big :: nat where "sizeof_Big = 4"

definition Conversion_exists :: "('ty \<Rightarrow> 'ty \<Rightarrow> bool) \<Rightarrow> 'ty \<Rightarrow> 'ty \<Rightarrow> bool" where
  "Conversion_exists derives From To \<longleftrightarrow>
     (if derives From To then sizeof_Small else sizeof_Big) = sizeof_Small"

lemma Conversion_exists_iff [simp]: "Conversion_exists derives From To = derives From To"
  by (simp add: Conversion_exists_def sizeof_Small_def sizeof_Big_def)

type_synonym convert = "nat \<Rightarrow> nat \<Rightarrow> bool"

text \<open>
  \<^verbatim>\<open>MakeTable<i, j>\<close>; the two specializations for \<open>j = length\<close> and \<open>i = length\<close> end a row and
  the recursion.
\<close>

function MakeTable :: "('ty \<Rightarrow> 'ty \<Rightarrow> bool) \<Rightarrow> 'ty list \<Rightarrow> nat \<Rightarrow> nat \<Rightarrow> convert \<Rightarrow> convert option" where
  "MakeTable derives TL i j tab =
     (if Length TL < i \<or> Length TL < j then None
      else if i = Length TL then Some tab
      else if j = Length TL then MakeTable derives TL (i + 1) 0 tab
      else (case (TypeAt TL i, TypeAt TL j) of
          (Some FromType, Some ToType) \<Rightarrow>
            MakeTable derives TL i (j + 1) (tab(i := (tab i)(j := Conversion_exists derives FromType ToType)))
        | _ \<Rightarrow> None))"
  by pat_completeness auto
termination
  by (relation "measures [\<lambda>(derives, TL, i, j, tab). Length TL + 1 - i,
    \<lambda>(derives, TL, i, j, tab). Length TL + 1 - j]") auto

declare MakeTable.simps [simp del]

text \<open>
  The constructor of \<^verbatim>\<open>TypeConversion\<close> runs once, at the first call of \<^verbatim>\<open>CanConvert\<close>, on a
  zero-initialised table.
\<close>

definition TypeConversion :: "('ty \<Rightarrow> 'ty \<Rightarrow> bool) \<Rightarrow> 'ty list \<Rightarrow> convert option" where
  "TypeConversion derives TL = MakeTable derives TL 0 0 (\<lambda>_ _. False)"

definition CanConvert :: "('ty \<Rightarrow> 'ty \<Rightarrow> bool) \<Rightarrow> 'ty list \<Rightarrow> int \<Rightarrow> int \<Rightarrow> bool outcome" where
  "CanConvert derives TL from_id to_id = (case TypeConversion derives TL of
     None \<Rightarrow> Inl (UB ''ill-formed'')
   | Some tab \<Rightarrow>
       if 0 \<le> from_id \<and> from_id < int (Length TL) \<and> 0 \<le> to_id \<and> to_id < int (Length TL)
       then Inr (tab (nat from_id) (nat to_id)) else Inl (UB ''s_convert''))"

section \<open>Casts\<close>

text \<open>An object with its \<^verbatim>\<open>_typeId\<close>; \<^verbatim>\<open>INIT_TL(Type)\<close> in a constructor sets it.\<close>

record 'a typed_object =
  obj_id :: 'a
  typeId :: int

definition INIT_TL :: "'ty list \<Rightarrow> 'ty \<Rightarrow> 'a typed_object \<Rightarrow> 'a typed_object" where
  "INIT_TL TL T x = x\<lparr>typeId := IndexOf TL T\<rparr>"

text \<open>Constructors run from the base class to the most derived class, each with its \<^verbatim>\<open>INIT_TL\<close>.\<close>

fun construct :: "'ty list \<Rightarrow> 'ty list \<Rightarrow> 'a typed_object \<Rightarrow> 'a typed_object" where
  "construct TL [] x = x"
| "construct TL (T # Ts) x = construct TL Ts (INIT_TL TL T x)"

text \<open>
  Both \<^verbatim>\<open>TypeCast\<close> templates, on a raw and on a shared pointer: the pointer itself or null.
\<close>

definition TypeCast ::
  "('ty \<Rightarrow> 'ty \<Rightarrow> bool) \<Rightarrow> 'ty list \<Rightarrow> 'ty \<Rightarrow> 'a typed_object option \<Rightarrow> 'a typed_object option outcome" where
  "TypeCast derives TL To p = (case p of
     None \<Rightarrow> Inr None
   | Some x \<Rightarrow> and_then (CanConvert derives TL (typeId x) (IndexOf TL To)) (\<lambda>b.
       Inr (if b then Some x else None)))"

definition CanCast ::
  "('ty \<Rightarrow> 'ty \<Rightarrow> bool) \<Rightarrow> 'ty list \<Rightarrow> 'ty \<Rightarrow> 'a typed_object option \<Rightarrow> bool outcome" where
  "CanCast derives TL To p = (case p of
     None \<Rightarrow> Inr False
   | Some x \<Rightarrow> CanConvert derives TL (typeId x) (IndexOf TL To))"

section \<open>The metafunctions\<close>

lemma Length_eq [simp]: "Length TL = length TL"
  by (induction TL) auto

lemma TypeAt_eq: "TypeAt TL i = (if i < length TL then Some (TL ! i) else None)"
  by (induction TL i rule: TypeAt.induct) auto

text \<open>The tail is a list exactly for the lists that do not have two types.\<close>

lemma two_types_tail:
  "TypeList_Tail TL = (case TL of [] \<Rightarrow> None | T # U \<Rightarrow> Some (if length U = 1 then Bare (hd U) else Packed U))"
  by (cases TL rule: TypeList_Tail.cases) auto

lemma IndexOf_range: "-1 \<le> IndexOf TL T \<and> IndexOf TL T < int (length TL)"
  by (induction TL) (auto simp: Let_def)

lemma IndexOf_missing: "IndexOf TL T = -1 \<longleftrightarrow> T \<notin> set TL"
proof (induction TL)
  case (Cons H TL)
  then show ?case using IndexOf_range [of TL T] by (auto simp: Let_def)
qed simp

lemma IndexOf_first:
  "T \<in> set TL \<Longrightarrow> 0 \<le> IndexOf TL T \<and> TL ! nat (IndexOf TL T) = T \<and>
     (\<forall>j < nat (IndexOf TL T). TL ! j \<noteq> T)"
proof (induction TL)
  case (Cons H TL)
  show ?case
  proof (cases "H = T")
    case False
    then have mem: "T \<in> set TL" using Cons.prems by auto
    then have idx: "IndexOf (H # TL) T = IndexOf TL T + 1"
      using False IndexOf_missing [of TL T] by (simp add: Let_def)
    have "nat (IndexOf TL T + 1) = Suc (nat (IndexOf TL T))" using Cons.IH [OF mem] by auto
    then show ?thesis
      using Cons.IH [OF mem] False idx by (auto simp: nth_Cons less_Suc_eq_0_disj)
  qed simp
qed simp

lemma make_table:
  "i \<le> length TL \<Longrightarrow> j \<le> length TL \<Longrightarrow> \<exists>tab'. MakeTable derives TL i j tab = Some tab' \<and>
     (\<forall>a < length TL. \<forall>b < length TL. tab' a b =
       (if i < a \<or> a = i \<and> j \<le> b then derives (TL ! a) (TL ! b) else tab a b))"
proof (induction derives TL i j tab rule: MakeTable.induct)
  case (1 derives TL i j tab)
  show ?case
  proof (cases "i = length TL")
    case True
    then show ?thesis using "1.prems" by (subst MakeTable.simps) auto
  next
    case i: False
    show ?thesis
    proof (cases "j = length TL")
      case True
      have eq: "MakeTable derives TL i j tab = MakeTable derives TL (i + 1) 0 tab"
        using i True "1.prems" by (subst MakeTable.simps) simp
      obtain tab' where "MakeTable derives TL (i + 1) 0 tab = Some tab'"
        "\<forall>a < length TL. \<forall>b < length TL. tab' a b =
          (if i + 1 < a \<or> a = i + 1 \<and> 0 \<le> b then derives (TL ! a) (TL ! b) else tab a b)"
        using "1.IH"(1) i True "1.prems" by auto
      then show ?thesis using eq True by auto
    next
      case j: False
      let ?tab = "tab(i := (tab i)(j := derives (TL ! i) (TL ! j)))"
      have eq: "MakeTable derives TL i j tab = MakeTable derives TL i (j + 1) ?tab"
        using i j "1.prems" by (subst MakeTable.simps) (simp add: TypeAt_eq)
      obtain tab' where tab': "MakeTable derives TL i (j + 1) ?tab = Some tab'"
        "\<forall>a < length TL. \<forall>b < length TL. tab' a b =
          (if i < a \<or> a = i \<and> j + 1 \<le> b then derives (TL ! a) (TL ! b) else ?tab a b)"
      proof -
        have "\<exists>tab'. MakeTable derives TL i (j + 1) ?tab = Some tab' \<and>
          (\<forall>a < length TL. \<forall>b < length TL. tab' a b =
            (if i < a \<or> a = i \<and> j + 1 \<le> b then derives (TL ! a) (TL ! b) else ?tab a b))"
          by (rule "1.IH"(2) [unfolded Conversion_exists_iff]) (use i j "1.prems" in \<open>simp_all add: TypeAt_eq\<close>)
        then show ?thesis using that by blast
      qed
      have "tab' a b = (if i < a \<or> a = i \<and> j \<le> b then derives (TL ! a) (TL ! b) else tab a b)"
        if "a < length TL" "b < length TL" for a b
        using tab'(2) that by (cases "b = j") auto
      then show ?thesis using eq tab'(1) by auto
    qed
  qed
qed

lemma CanConvert_eq:
  "CanConvert derives TL f t =
     (if 0 \<le> f \<and> f < int (length TL) \<and> 0 \<le> t \<and> t < int (length TL)
      then Inr (derives (TL ! nat f) (TL ! nat t)) else Inl (UB ''s_convert''))"
proof -
  obtain tab where tab: "TypeConversion derives TL = Some tab"
      "\<forall>a < length TL. \<forall>b < length TL. tab a b = derives (TL ! a) (TL ! b)"
    using make_table [of 0 TL 0 derives "\<lambda>_ _. False"] by (auto simp: TypeConversion_def)
  have "tab (nat f) (nat t) = derives (TL ! nat f) (TL ! nat t)"
    if "0 \<le> f" "f < int (length TL)" "0 \<le> t" "t < int (length TL)"
    using tab(2) that by (simp add: nat_less_iff)
  then show ?thesis using tab(1) by (simp add: CanConvert_def)
qed

lemma construct_last: "Ts \<noteq> [] \<Longrightarrow> typeId (construct TL Ts x) = IndexOf TL (last Ts)"
  by (induction Ts arbitrary: x) (auto simp: INIT_TL_def)

section \<open>Properties\<close>

text \<open>
  C29. \<^verbatim>\<open>IndexOf\<close> and \<^verbatim>\<open>TypeAt\<close> are inverse to each other: the index of a type of the list is the
  first place where \<^verbatim>\<open>TypeAt\<close> finds it, -1 says that the type is not in the list, and
  \<^verbatim>\<open>TypeAt\<close> is defined exactly below \<^verbatim>\<open>Length\<close>.
\<close>

theorem index_of_type_at:
  "(IndexOf TL T = -1 \<longleftrightarrow> T \<notin> set TL) \<and>
   (if T \<in> set TL then 0 \<le> IndexOf TL T \<and> TypeAt TL (nat (IndexOf TL T)) = Some T \<and>
      (\<forall>j < nat (IndexOf TL T). TypeAt TL j \<noteq> Some T) else True) \<and>
   (TypeAt TL i = None \<longleftrightarrow> Length TL \<le> i) \<and>
   (distinct TL \<longrightarrow> i < Length TL \<longrightarrow> IndexOf TL (TL ! i) = int i)"
proof -
  have "IndexOf TL (TL ! i) = int i" if "distinct TL" "i < length TL"
  proof -
    have "TL ! i \<in> set TL" using that by simp
    note first = IndexOf_first [OF this]
    then have "nat (IndexOf TL (TL ! i)) < length TL" using IndexOf_range [of TL "TL ! i"] by auto
    then have "nat (IndexOf TL (TL ! i)) = i"
      using first that by (simp add: nth_eq_iff_index_eq)
    then show ?thesis using first by auto
  qed
  moreover have "nat (IndexOf TL T) < length TL" if "T \<in> set TL"
    using IndexOf_range [of TL T] IndexOf_first [OF that] by auto
  ultimately show ?thesis
    using IndexOf_missing [of TL T] IndexOf_first [of T TL] by (auto simp: TypeAt_eq)
qed

theorem index_of_type_at_witness: "IndexOf [''Player'', ''Knight'', ''Mage''] ''Mage'' = int 2"
  using index_of_type_at [of "[''Player'', ''Knight'', ''Mage'']" "''Mage''" 2] by simp

text \<open>
  C30. A cast does what the static type system would do on the dynamic type: for an object whose
  most derived class \<open>D\<close> set its id last, the cast to a type of the list yields the object exactly
  when \<open>D\<close> is that type or derives from it, and null otherwise. A null pointer casts to null. If
  the target, or \<open>D\<close>, is not in the list, the table is read at index -1.
\<close>

theorem type_cast_matches_dynamic_type:
  assumes "bases_first \<noteq> []" "last bases_first = D"
    and "y = construct TL bases_first x"
  shows "TypeCast derives TL To (Some y) =
      (if D \<in> set TL \<and> To \<in> set TL then Inr (if derives D To then Some y else None)
       else Inl (UB ''s_convert'')) \<and>
    CanCast derives TL To (Some y) =
      (if D \<in> set TL \<and> To \<in> set TL then Inr (derives D To) else Inl (UB ''s_convert'')) \<and>
    TypeCast derives TL To (None :: 'a typed_object option) = Inr None \<and>
    CanCast derives TL To (None :: 'a typed_object option) = Inr False"
proof -
  have ty: "typeId y = IndexOf TL D" using construct_last [OF assms(1)] assms(2,3) by simp
  have in_range: "0 \<le> IndexOf TL T \<and> IndexOf TL T < int (length TL) \<longleftrightarrow> T \<in> set TL" for T
    using IndexOf_range [of TL T] IndexOf_missing [of TL T] by auto
  have "TL ! nat (IndexOf TL T) = T" if "T \<in> set TL" for T
    using IndexOf_first [OF that] by simp
  then have "CanConvert derives TL (IndexOf TL D) (IndexOf TL To) =
      (if D \<in> set TL \<and> To \<in> set TL then Inr (derives D To) else Inl (UB ''s_convert''))"
    unfolding CanConvert_eq using in_range [of D] in_range [of To] by auto
  then show ?thesis
    using ty by (auto simp: TypeCast_def CanCast_def)
qed

theorem type_cast_matches_dynamic_type_witness:
  "\<exists>y :: unit typed_object. TypeCast (\<lambda>D B. D = B \<or> B = ''Player'') [''Player'', ''Knight''] ''Player'' (Some y) = Inr (Some y) \<and>
     TypeCast (\<lambda>D B. D = B \<or> B = ''Player'') [''Player'', ''Knight''] ''Archer'' (Some y) =
       Inl (UB ''s_convert'')"
proof -
  let ?TL = "[''Player'', ''Knight'']" and ?x = "\<lparr>obj_id = (), typeId = 0\<rparr>"
  let ?d = "\<lambda>D B. D = B \<or> B = ''Player''"
  let ?y = "construct ?TL ?TL ?x"
  have cast: "TypeCast ?d ?TL To (Some ?y) =
      (if ''Knight'' \<in> set ?TL \<and> To \<in> set ?TL then Inr (if ?d ''Knight'' To then Some ?y else None)
       else Inl (UB ''s_convert''))" for To
    by (rule type_cast_matches_dynamic_type [of ?TL "''Knight''" ?y ?TL ?x, THEN conjunct1]) simp_all
  have "TypeCast ?d ?TL ''Player'' (Some ?y) = Inr (Some ?y)"
    unfolding cast by simp
  moreover have "TypeCast ?d ?TL ''Archer'' (Some ?y) = Inl (UB ''s_convert'')"
    unfolding cast by simp
  ultimately show ?thesis by blast
qed

end
