(* ===== verification/Net_Api.thy ===== *)
theory Net_Api
  imports Prelude
begin

text \<open>
  The operating system as the network code of \<^verbatim>\<open>ServerCore\<close> sees it. WinSock and the
  completion-port functions are not part of the repository. What a call answers is therefore a
  parameter \<open>os\<close>: a function of the call and of everything called and answered before it, so that
  every behaviour of the system, failures at any point included, is one of its values. The program's
  side of the world is the history of its calls and the three function pointers that
  \<^verbatim>\<open>SocketUtils\<close> keeps.

  An answer is the 64-bit value returned together with everything else the call can hand out: the
  error code that \<^verbatim>\<open>WSAGetLastError\<close> gives next, and the values of the OUT arguments.
\<close>

named_theorems net_simps "unfolding of system calls and of what they leave alone"

section \<open>Types and constants of the system headers\<close>

type_synonym SOCKET = uint64
type_synonym HANDLE = uint64

definition INVALID_SOCKET :: SOCKET where "INVALID_SOCKET = - 1"
definition SOCKET_ERROR :: uint64 where "SOCKET_ERROR = - 1"
definition INVALID_HANDLE_VALUE :: HANDLE where "INVALID_HANDLE_VALUE = - 1"

definition AF_INET :: uint16 where "AF_INET = 2"
definition SOCK_STREAM :: nat where "SOCK_STREAM = 1"
definition IPPROTO_TCP :: nat where "IPPROTO_TCP = 6"
definition WSA_FLAG_OVERLAPPED :: nat where "WSA_FLAG_OVERLAPPED = 1"
definition INADDR_ANY :: uint32 where "INADDR_ANY = 0"
definition SOMAXCONN :: int where "SOMAXCONN = 0x7FFFFFFF"

definition SOL_SOCKET :: nat where "SOL_SOCKET = 0xFFFF"
definition SO_DEBUG :: nat where "SO_DEBUG = 1"
definition SO_REUSEADDR :: nat where "SO_REUSEADDR = 4"
definition SO_LINGER :: nat where "SO_LINGER = 0x80"
definition SO_SNDBUF :: nat where "SO_SNDBUF = 0x1001"
definition SO_RCVBUF :: nat where "SO_RCVBUF = 0x1002"
definition SO_UPDATE_ACCEPT_CONTEXT :: nat where "SO_UPDATE_ACCEPT_CONTEXT = 0x700B"
definition TCP_NODELAY :: nat where "TCP_NODELAY = 1"

definition WSAEWOULDBLOCK :: uint32 where "WSAEWOULDBLOCK = 10035"
definition WSAEISCONN :: uint32 where "WSAEISCONN = 10056"
definition WSA_IO_PENDING :: uint32 where "WSA_IO_PENDING = 997"
definition WAIT_TIMEOUT :: uint32 where "WAIT_TIMEOUT = 258"
definition ERROR_IO_PENDING :: uint32 where "ERROR_IO_PENDING = 997"
definition INFINITE :: uint32 where "INFINITE = 0xFFFFFFFF"

record SOCKADDR_IN =
  sin_family :: uint16
  sin_port :: uint16
  sin_addr :: uint32
  sin_zero :: uint64

datatype GUID = WSAID_CONNECTEX | WSAID_DISCONNECTEX | WSAID_ACCEPTEX

text \<open>The option values that the program passes to \<^verbatim>\<open>setsockopt\<close>, by their C++ type.\<close>

datatype optval = Opt_linger uint16 uint16 | Opt_bool bool | Opt_int int | Opt_socket SOCKET

section \<open>Calls, answers and histories\<close>

datatype call =
    WSAStartup uint16
  | WSACleanup
  | WSASocket uint16 nat nat nat              \<comment> \<open>family, type, protocol, flags\<close>
  | sock_socket uint16 nat nat                \<comment> \<open>family, type, protocol\<close>
  | closesocket SOCKET
  | WSAIoctl SOCKET GUID                      \<comment> \<open>\<open>SIO_GET_EXTENSION_FUNCTION_POINTER\<close>\<close>
  | setsockopt SOCKET nat nat optval          \<comment> \<open>socket, level, name, value\<close>
  | sock_bind SOCKET SOCKADDR_IN
  | sock_listen SOCKET int
  | getpeername SOCKET
  | CreateIoCompletionPort HANDLE HANDLE      \<comment> \<open>file, existing port\<close>
  | CloseHandle HANDLE
  | GetQueuedCompletionStatus HANDLE uint32   \<comment> \<open>port, timeout\<close>
  | AcceptEx SOCKET SOCKET nat nat nat nat    \<comment> \<open>listening, accepting, data and address lengths, event\<close>
  | ioctlsocket SOCKET nat                    \<comment> \<open>\<open>FIONBIO\<close> with this argument\<close>
  | sock_connect SOCKET SOCKADDR_IN
  | WSACreateEvent
  | WSASend SOCKET string nat                 \<comment> \<open>socket, buffer, length\<close>
  | WSAWaitForMultipleEvents uint64
  | WSAGetOverlappedResult SOCKET
  | sleep_ms nat
  | print string

text \<open>
  \<open>overlapped\<close> is the pointer that \<^verbatim>\<open>GetQueuedCompletionStatus\<close> hands out (an event is
  named by a number, \<open>None\<close> is null), \<open>extension\<close> the function pointer of \<^verbatim>\<open>WSAIoctl\<close> and
  \<open>peer\<close> the address of \<^verbatim>\<open>getpeername\<close>.
\<close>

record reply =
  result :: uint64
  lastError :: uint32
  overlapped :: "nat option"
  numOfBytes :: uint32
  extension :: uint64
  peer :: SOCKADDR_IN

type_synonym history = "(call \<times> reply) list"  \<comment> \<open>the latest call first\<close>
type_synonym os = "history \<Rightarrow> call \<Rightarrow> reply"

record world =
  hist :: history
  ConnectEx_fn :: uint64
  DisconnectEx_fn :: uint64
  AcceptEx_fn :: uint64

definition sys :: "os \<Rightarrow> call \<Rightarrow> 'a world_scheme \<Rightarrow> reply \<times> 'a world_scheme" where
  "sys os c w = (let r = os (hist w) c in (r, w\<lparr>hist := (c, r) # hist w\<rparr>))"

text \<open>
  The sockets made and not yet given to \<^verbatim>\<open>closesocket\<close>, the events with an operation the
  system has accepted and not yet handed back, and whether every \<^verbatim>\<open>closesocket\<close> was on a
  socket still unclosed.
\<close>

fun unclosed :: "history \<Rightarrow> SOCKET set" where
  "unclosed [] = {}"
| "unclosed ((WSASocket af ty pr fl, r) # h) =
     (if result r = INVALID_SOCKET then unclosed h else insert (result r) (unclosed h))"
| "unclosed ((sock_socket af ty pr, r) # h) =
     (if result r = INVALID_SOCKET then unclosed h else insert (result r) (unclosed h))"
| "unclosed ((closesocket s, r) # h) = unclosed h - {s}"
| "unclosed (_ # h) = unclosed h"

definition accepted_by_system :: "reply \<Rightarrow> bool" where
  "accepted_by_system r \<longleftrightarrow> result r \<noteq> 0 \<or> lastError r = ERROR_IO_PENDING"

fun pending :: "history \<Rightarrow> nat set" where
  "pending [] = {}"
| "pending ((AcceptEx ls cs len l1 l2 e, r) # h) =
     (if accepted_by_system r then insert e (pending h) else pending h)"
| "pending ((GetQueuedCompletionStatus p t, r) # h) =
     (case overlapped r of None \<Rightarrow> pending h | Some e \<Rightarrow> pending h - {e})"
| "pending (_ # h) = pending h"

fun closes_ok :: "history \<Rightarrow> bool" where
  "closes_ok [] \<longleftrightarrow> True"
| "closes_ok ((closesocket s, r) # h) \<longleftrightarrow> s \<in> unclosed h \<and> closes_ok h"
| "closes_ok (_ # h) \<longleftrightarrow> closes_ok h"

text \<open>
  What the documentation promises: a new socket is none that is still in use; a function pointer
  obtained is not null; a dequeued completion belongs to an operation that was pending, a successful
  dequeue has one and a timeout has none.
\<close>

definition sockets_fresh :: "os \<Rightarrow> bool" where
  "sockets_fresh os \<longleftrightarrow> (\<forall>h af ty pr fl. result (os h (WSASocket af ty pr fl)) \<notin> unclosed h \<and>
     result (os h (sock_socket af ty pr)) \<notin> unclosed h)"

definition extensions_set :: "os \<Rightarrow> bool" where
  "extensions_set os \<longleftrightarrow> (\<forall>h s g. result (os h (WSAIoctl s g)) \<noteq> SOCKET_ERROR \<longrightarrow>
     extension (os h (WSAIoctl s g)) \<noteq> 0)"

definition completions_pending :: "os \<Rightarrow> bool" where
  "completions_pending os \<longleftrightarrow> (\<forall>h p t. let r = os h (GetQueuedCompletionStatus p t) in
     case overlapped r of None \<Rightarrow> result r = 0
     | Some e \<Rightarrow> e \<in> pending h \<and> (result r = 0 \<longrightarrow> lastError r \<noteq> WAIT_TIMEOUT))"

definition os_ok :: "os \<Rightarrow> bool" where
  "os_ok os \<longleftrightarrow> sockets_fresh os \<and> extensions_set os \<and> completions_pending os"

lemma os_ok_socket:
  "os_ok os \<Longrightarrow> result (os h (WSASocket af ty pr fl)) \<notin> unclosed h"
  "os_ok os \<Longrightarrow> result (os h (sock_socket af ty pr)) \<notin> unclosed h"
  by (simp_all add: os_ok_def sockets_fresh_def)

lemma os_ok_extension:
  "os_ok os \<Longrightarrow> result (os h (WSAIoctl s g)) \<noteq> SOCKET_ERROR \<Longrightarrow> extension (os h (WSAIoctl s g)) \<noteq> 0"
  by (simp add: os_ok_def extensions_set_def)

lemma os_ok_dequeue:
  assumes "os_ok os" "r = os h (GetQueuedCompletionStatus p t)"
  shows "case overlapped r of None \<Rightarrow> result r = 0
     | Some e \<Rightarrow> e \<in> pending h \<and> (result r = 0 \<longrightarrow> lastError r \<noteq> WAIT_TIMEOUT)"
  using assms(1) unfolding assms(2) by (simp only: os_ok_def completions_pending_def Let_def)

lemma unclosed_valid [simp]: "INVALID_SOCKET \<notin> unclosed h"
  by (induction h rule: unclosed.induct) auto

text \<open>Calls that neither make nor close a socket.\<close>

fun socket_call :: "call \<Rightarrow> bool" where
  "socket_call (WSASocket af ty pr fl) \<longleftrightarrow> True"
| "socket_call (sock_socket af ty pr) \<longleftrightarrow> True"
| "socket_call (closesocket s) \<longleftrightarrow> True"
| "socket_call _ \<longleftrightarrow> False"

lemma unclosed_cons_other [simp]: "\<not> socket_call c \<Longrightarrow> unclosed ((c, r) # h) = unclosed h"
  by (cases c) auto

lemma closes_cons_other [simp]: "\<not> socket_call c \<Longrightarrow> closes_ok ((c, r) # h) = closes_ok h"
  by (cases c) auto

lemma sys_simps [net_simps]:
  "fst (sys os c w) = os (hist w) c"
  "snd (sys os c w) = w\<lparr>hist := (c, os (hist w) c) # hist w\<rparr>"
  by (simp_all add: sys_def Let_def)

section \<open>Actions that may not return\<close>

text \<open>
  \<open>RegisterAccept\<close> calls itself for as long as the system refuses, so the handlers above it have a
  third result beside a value and a failure: \<open>None\<close>, they do not return.
\<close>

type_synonym 'a run = "'a outcome option"

definition run_then :: "'a run \<Rightarrow> ('a \<Rightarrow> 'b run) \<Rightarrow> 'b run" where
  "run_then m f = (case m of
     None \<Rightarrow> None
   | Some (Inl e) \<Rightarrow> Some (Inl e)
   | Some (Inr a) \<Rightarrow> f a)"

lemma run_then_simps [simp, outcome_simps]:
  "run_then None f = None"
  "run_then (Some (Inl e)) f = Some (Inl e)"
  "run_then (Some (Inr a)) f = f a"
  by (simp_all add: run_then_def)

lemma run_then_Inr_iff [outcome_simps]:
  "run_then m f = Some (Inr b) \<longleftrightarrow> (\<exists>a. m = Some (Inr a) \<and> f a = Some (Inr b))"
  by (auto simp: run_then_def split: option.splits sum.splits)

lemma run_then_Inl_iff [outcome_simps]:
  "run_then m f = Some (Inl e) \<longleftrightarrow> m = Some (Inl e) \<or> (\<exists>a. m = Some (Inr a) \<and> f a = Some (Inl e))"
  by (auto simp: run_then_def split: option.splits sum.splits)

lemma run_then_None_iff [outcome_simps]:
  "run_then m f = None \<longleftrightarrow> m = None \<or> (\<exists>a. m = Some (Inr a) \<and> f a = None)"
  by (auto simp: run_then_def split: option.splits sum.splits)

end
