(* ===== verification/Socket_Utils.thy ===== *)
theory Socket_Utils
  imports Net_Api
begin

text \<open>
  \<^verbatim>\<open>ServerCore/NetAddress.h/.cpp\<close> and \<^verbatim>\<open>ServerCore/SocketUtils.h/.cpp\<close>. The conversions
  between text, host and network byte order are functions of the system, kept together in the
  record \<open>inet\<close>. A local variable that the code leaves uninitialised starts with an argument
  \<open>garbage\<close>. A pointer to which a function writes is the update of what it points to, and a
  reference parameter is returned.
\<close>

section \<open>Addresses\<close>

record inet =
  InetPton :: "string \<Rightarrow> uint32 option"  \<comment> \<open>\<open>None\<close>: not an IPv4 address, nothing is written\<close>
  InetNtop :: "uint32 \<Rightarrow> string"
  htons :: "uint16 \<Rightarrow> uint16"
  ntohs :: "uint16 \<Rightarrow> uint16"
  htonl :: "uint32 \<Rightarrow> uint32"

definition inet_ok :: "inet \<Rightarrow> bool" where
  "inet_ok net \<longleftrightarrow> (\<forall>p. ntohs net (htons net p) = p) \<and> (\<forall>a. InetPton net (InetNtop net a) = Some a)"

definition NetAddress_default :: SOCKADDR_IN where
  "NetAddress_default = \<lparr>sin_family = 0, sin_port = 0, sin_addr = 0, sin_zero = 0\<rparr>"

definition NetAddress_of :: "SOCKADDR_IN \<Rightarrow> SOCKADDR_IN" where
  "NetAddress_of sockAddr = sockAddr"

definition Ip2Address :: "inet \<Rightarrow> uint32 \<Rightarrow> string \<Rightarrow> uint32" where
  "Ip2Address net garbage ip = (case InetPton net ip of None \<Rightarrow> garbage | Some address \<Rightarrow> address)"

definition NetAddress_ctor :: "inet \<Rightarrow> uint32 \<Rightarrow> string \<Rightarrow> uint16 \<Rightarrow> SOCKADDR_IN" where
  "NetAddress_ctor net garbage ip port =
     NetAddress_default
       \<lparr>sin_family := AF_INET, sin_addr := Ip2Address net garbage ip, sin_port := htons net port\<rparr>"

definition GetIpAddress :: "inet \<Rightarrow> SOCKADDR_IN \<Rightarrow> string" where
  "GetIpAddress net sockAddr = InetNtop net (sin_addr sockAddr)"

definition GetPort :: "inet \<Rightarrow> SOCKADDR_IN \<Rightarrow> uint16" where
  "GetPort net sockAddr = ntohs net (sin_port sockAddr)"

section \<open>Making and closing sockets\<close>

definition CreateSocket :: "os \<Rightarrow> 'a world_scheme \<Rightarrow> SOCKET \<times> 'a world_scheme" where
  "CreateSocket os w =
     (let (r, w) = sys os (WSASocket AF_INET SOCK_STREAM IPPROTO_TCP WSA_FLAG_OVERLAPPED) w
      in (result r, w))"

definition Close :: "os \<Rightarrow> SOCKET \<Rightarrow> 'a world_scheme \<Rightarrow> SOCKET \<times> 'a world_scheme" where
  "Close os socket w =
     (let w = (if socket \<noteq> INVALID_SOCKET then snd (sys os (closesocket socket) w) else w)
      in (INVALID_SOCKET, w))"

section \<open>Start and end of WinSock\<close>

text \<open>\<open>fn\<close> writes the variable that the function's last argument points to.\<close>

definition BindWindowsFunction ::
  "os \<Rightarrow> SOCKET \<Rightarrow> GUID \<Rightarrow> (uint64 \<Rightarrow> 'a world_scheme \<Rightarrow> 'a world_scheme) \<Rightarrow> 'a world_scheme \<Rightarrow>
     bool \<times> 'a world_scheme" where
  "BindWindowsFunction os socket guid fn w =
     (let (r, w) = sys os (WSAIoctl socket guid) w
      in if result r \<noteq> SOCKET_ERROR then (True, fn (extension r) w) else (False, w))"

definition bind_or_crash ::
  "os \<Rightarrow> SOCKET \<Rightarrow> GUID \<Rightarrow> (uint64 \<Rightarrow> 'a world_scheme \<Rightarrow> 'a world_scheme) \<Rightarrow> 'a world_scheme \<Rightarrow>
     'a world_scheme outcome" where
  "bind_or_crash os socket guid fn w =
     (let (bound, w) = BindWindowsFunction os socket guid fn w
      in and_then (ASSERT_CRASH bound) (\<lambda>_. Inr w))"

definition SocketUtils_Init :: "os \<Rightarrow> 'a world_scheme \<Rightarrow> 'a world_scheme outcome" where
  "SocketUtils_Init os w =
     (let (r, w) = sys os (WSAStartup 0x0202) w
      in and_then (ASSERT_CRASH (result r = 0)) (\<lambda>_.
        let (dummySocket, w) = CreateSocket os w
        in and_then (bind_or_crash os dummySocket WSAID_CONNECTEX (\<lambda>f. ConnectEx_fn_update (\<lambda>_. f)) w) (\<lambda>w.
           and_then (bind_or_crash os dummySocket WSAID_DISCONNECTEX (\<lambda>f. DisconnectEx_fn_update (\<lambda>_. f)) w) (\<lambda>w.
           and_then (bind_or_crash os dummySocket WSAID_ACCEPTEX (\<lambda>f. AcceptEx_fn_update (\<lambda>_. f)) w) (\<lambda>w.
           Inr (snd (Close os dummySocket w)))))))"

definition SocketUtils_Clear :: "os \<Rightarrow> 'a world_scheme \<Rightarrow> 'a world_scheme" where
  "SocketUtils_Clear os w = snd (sys os WSACleanup w)"

section \<open>Options, binding, listening\<close>

definition SetSockOpt ::
  "os \<Rightarrow> SOCKET \<Rightarrow> nat \<Rightarrow> nat \<Rightarrow> optval \<Rightarrow> 'a world_scheme \<Rightarrow> bool \<times> 'a world_scheme" where
  "SetSockOpt os socket level optName optVal w =
     (let (r, w) = sys os (setsockopt socket level optName optVal) w in (result r \<noteq> SOCKET_ERROR, w))"

definition SetLinger :: "os \<Rightarrow> SOCKET \<Rightarrow> uint16 \<Rightarrow> uint16 \<Rightarrow> 'a world_scheme \<Rightarrow> bool \<times> 'a world_scheme" where
  "SetLinger os socket onoff linger = SetSockOpt os socket SOL_SOCKET SO_LINGER (Opt_linger onoff linger)"

definition SetReuseAddress :: "os \<Rightarrow> SOCKET \<Rightarrow> bool \<Rightarrow> 'a world_scheme \<Rightarrow> bool \<times> 'a world_scheme" where
  "SetReuseAddress os socket flag = SetSockOpt os socket SOL_SOCKET SO_REUSEADDR (Opt_bool flag)"

definition SetRecvBufferSize :: "os \<Rightarrow> SOCKET \<Rightarrow> int \<Rightarrow> 'a world_scheme \<Rightarrow> bool \<times> 'a world_scheme" where
  "SetRecvBufferSize os socket sz = SetSockOpt os socket SOL_SOCKET SO_RCVBUF (Opt_int sz)"

definition SetSendBufferSize :: "os \<Rightarrow> SOCKET \<Rightarrow> int \<Rightarrow> 'a world_scheme \<Rightarrow> bool \<times> 'a world_scheme" where
  "SetSendBufferSize os socket sz = SetSockOpt os socket SOL_SOCKET SO_SNDBUF (Opt_int sz)"

definition SetTcpNoDelay :: "os \<Rightarrow> SOCKET \<Rightarrow> bool \<Rightarrow> 'a world_scheme \<Rightarrow> bool \<times> 'a world_scheme" where
  "SetTcpNoDelay os socket flag = SetSockOpt os socket SOL_SOCKET TCP_NODELAY (Opt_bool flag)"

definition SetUpdateAcceptSocket :: "os \<Rightarrow> SOCKET \<Rightarrow> SOCKET \<Rightarrow> 'a world_scheme \<Rightarrow> bool \<times> 'a world_scheme" where
  "SetUpdateAcceptSocket os socket listenSocket =
     SetSockOpt os socket SOL_SOCKET SO_UPDATE_ACCEPT_CONTEXT (Opt_socket listenSocket)"

definition Bind :: "os \<Rightarrow> SOCKET \<Rightarrow> SOCKADDR_IN \<Rightarrow> 'a world_scheme \<Rightarrow> bool \<times> 'a world_scheme" where
  "Bind os socket netAddr w =
     (let (r, w) = sys os (sock_bind socket netAddr) w in (result r \<noteq> SOCKET_ERROR, w))"

definition BindAnyAddress ::
  "os \<Rightarrow> inet \<Rightarrow> uint64 \<Rightarrow> SOCKET \<Rightarrow> uint16 \<Rightarrow> 'a world_scheme \<Rightarrow> bool \<times> 'a world_scheme" where
  "BindAnyAddress os net garbage socket port w =
     (let myAddress = \<lparr>sin_family = AF_INET, sin_port = htons net port,
            sin_addr = htonl net INADDR_ANY, sin_zero = garbage\<rparr>;
          (r, w) = sys os (sock_bind socket myAddress) w
      in (result r \<noteq> SOCKET_ERROR, w))"

definition Listen :: "os \<Rightarrow> SOCKET \<Rightarrow> int \<Rightarrow> 'a world_scheme \<Rightarrow> bool \<times> 'a world_scheme" where
  "Listen os socket backlog w =
     (let (r, w) = sys os (sock_listen socket backlog) w in (result r \<noteq> SOCKET_ERROR, w))"

section \<open>Their effect\<close>

lemmas option_defs = SetLinger_def SetReuseAddress_def SetRecvBufferSize_def SetSendBufferSize_def
  SetTcpNoDelay_def SetUpdateAcceptSocket_def

lemma CreateSocket_eq [net_simps]:
  "CreateSocket os w =
     (let c = WSASocket AF_INET SOCK_STREAM IPPROTO_TCP WSA_FLAG_OVERLAPPED; r = os (hist w) c
      in (result r, w\<lparr>hist := (c, r) # hist w\<rparr>))"
  by (simp add: CreateSocket_def sys_def Let_def)

lemma Close_eq [net_simps]:
  "Close os s w = (INVALID_SOCKET, if s = INVALID_SOCKET then w
     else w\<lparr>hist := (closesocket s, os (hist w) (closesocket s)) # hist w\<rparr>)"
  by (simp add: Close_def sys_def Let_def)

lemma SetSockOpt_eq [net_simps]:
  "SetSockOpt os s l n v w = (let r = os (hist w) (setsockopt s l n v)
     in (result r \<noteq> SOCKET_ERROR, w\<lparr>hist := (setsockopt s l n v, r) # hist w\<rparr>))"
  by (simp add: SetSockOpt_def sys_def Let_def)

lemma Bind_eq [net_simps]:
  "Bind os s a w = (let r = os (hist w) (sock_bind s a)
     in (result r \<noteq> SOCKET_ERROR, w\<lparr>hist := (sock_bind s a, r) # hist w\<rparr>))"
  by (simp add: Bind_def sys_def Let_def)

lemma Listen_eq [net_simps]:
  "Listen os s b w = (let r = os (hist w) (sock_listen s b)
     in (result r \<noteq> SOCKET_ERROR, w\<lparr>hist := (sock_listen s b, r) # hist w\<rparr>))"
  by (simp add: Listen_def sys_def Let_def)

lemma bind_or_crash_Inr:
  "bind_or_crash os s g fn w = Inr w' \<longleftrightarrow>
     result (os (hist w) (WSAIoctl s g)) \<noteq> SOCKET_ERROR \<and>
     w' = fn (extension (os (hist w) (WSAIoctl s g))) (w\<lparr>hist := (WSAIoctl s g, os (hist w) (WSAIoctl s g)) # hist w\<rparr>)"
  by (auto simp: bind_or_crash_def BindWindowsFunction_def sys_def Let_def)

lemma bind_or_crash_cases:
  "bind_or_crash os s g fn w = Inl e \<longleftrightarrow>
     result (os (hist w) (WSAIoctl s g)) = SOCKET_ERROR \<and> e = CRASH ''ASSERT_CRASH''"
  by (auto simp: bind_or_crash_def BindWindowsFunction_def sys_def Let_def)

text \<open>Closing twice closes once.\<close>

lemma close_idempotent:
  "Close os s w = (s', w') \<Longrightarrow> s' = INVALID_SOCKET \<and> Close os s' w' = (s', w')"
  by (auto simp: Close_eq)

text \<open>The address object gives back the port, and the text of an address that could be read.\<close>

lemma net_address_round_trip:
  assumes "inet_ok net"
  shows "GetPort net (NetAddress_ctor net g ip p) = p"
    "GetIpAddress net (NetAddress_ctor net g (InetNtop net a) p) = InetNtop net a"
  using assms by (simp_all add: GetPort_def GetIpAddress_def NetAddress_ctor_def Ip2Address_def inet_ok_def)

text \<open>Text that is not an address yields whatever the local variable held.\<close>

lemma bad_address_is_garbage:
  "InetPton net ip = None \<Longrightarrow> sin_addr (NetAddress_ctor net garbage ip p) = garbage"
  by (simp add: NetAddress_ctor_def Ip2Address_def)

text \<open>At the level \<^verbatim>\<open>SOL_SOCKET\<close> the number of \<^verbatim>\<open>TCP_NODELAY\<close> is that of \<^verbatim>\<open>SO_DEBUG\<close>.\<close>

lemma no_delay_sets_debug:
  "SetTcpNoDelay os s flag = SetSockOpt os s SOL_SOCKET SO_DEBUG (Opt_bool flag)"
  by (simp add: SetTcpNoDelay_def TCP_NODELAY_def SO_DEBUG_def)

end
