(* ===== verification/Iocp.thy ===== *)
theory Iocp
  imports Socket_Utils
begin

text \<open>
  \<^verbatim>\<open>ServerCore/IocpEvent.h/.cpp\<close> and the completion port of
  \<^verbatim>\<open>ServerCore/IocpCore.h/.cpp\<close>, without \<^verbatim>\<open>IocpCore::Dispatch\<close>, which calls the handlers
  of theory \<open>Listener\<close> and stands in theory \<open>Game_Server\<close>. Objects behind pointers are numbers.
\<close>

section \<open>Events\<close>

datatype EventType = Connect | Accept | Recv | Send

text \<open>The enumeration has the underlying type \<^verbatim>\<open>uint8\<close> and its order.\<close>

fun EventType_value :: "EventType \<Rightarrow> 8 word" where
  "EventType_value Connect = 0"
| "EventType_value Accept = 1"
| "EventType_value Recv = 2"
| "EventType_value Send = 3"

lemma EventType_value_inject [simp]: "EventType_value a = EventType_value b \<longleftrightarrow> a = b"
  by (cases a; cases b) simp_all

instantiation EventType :: linorder
begin

definition less_eq_EventType :: "EventType \<Rightarrow> EventType \<Rightarrow> bool" where
  "a \<le> b \<longleftrightarrow> EventType_value a \<le> EventType_value b"

definition less_EventType :: "EventType \<Rightarrow> EventType \<Rightarrow> bool" where
  "a < b \<longleftrightarrow> EventType_value a < EventType_value b"

instance
  by standard (auto simp: less_eq_EventType_def less_EventType_def less_le
      dest: order.antisym)

end

text \<open>What a \<^verbatim>\<open>shared_ptr<IocpObject>\<close> points to.\<close>

datatype IocpObject = Listener_object nat | Session_object nat

record IocpEvent =
  hEvent :: HANDLE
  Internal :: uint64
  InternalHigh :: uint64
  Offset :: uint32
  OffsetHigh :: uint32
  eventType :: EventType
  owner :: "IocpObject option"

record AcceptEvent = IocpEvent +
  session :: "nat option"

definition IocpEvent_Init :: "'a IocpEvent_scheme \<Rightarrow> 'a IocpEvent_scheme" where
  "IocpEvent_Init e =
     e\<lparr>hEvent := 0, Internal := 0, InternalHigh := 0, Offset := 0, OffsetHigh := 0\<rparr>"

text \<open>
  The constructor leaves nothing of the \<^verbatim>\<open>OVERLAPPED\<close> part, here \<open>raw\<close>, as it was; the
  members start as null pointers.
\<close>

definition IocpEvent_ctor :: "EventType \<Rightarrow> IocpEvent \<Rightarrow> IocpEvent" where
  "IocpEvent_ctor type raw = IocpEvent_Init (raw\<lparr>eventType := type, owner := None\<rparr>)"

definition AcceptEvent_ctor :: "IocpEvent \<Rightarrow> AcceptEvent" where
  "AcceptEvent_ctor raw = IocpEvent.extend (IocpEvent_ctor Accept raw) (AcceptEvent.fields None)"

definition ConnectEvent_ctor :: "IocpEvent \<Rightarrow> IocpEvent" where
  "ConnectEvent_ctor = IocpEvent_ctor Connect"

definition RecvEvent_ctor :: "IocpEvent \<Rightarrow> IocpEvent" where
  "RecvEvent_ctor = IocpEvent_ctor Recv"

definition SendEvent_ctor :: "IocpEvent \<Rightarrow> IocpEvent" where
  "SendEvent_ctor = IocpEvent_ctor Send"

lemma IocpEvent_Init_simps [simp]:
  "eventType (IocpEvent_Init e) = eventType e"
  "owner (IocpEvent_Init e) = owner e"
  "session (IocpEvent_Init a) = session a"
  by (simp_all add: IocpEvent_Init_def)

lemma AcceptEvent_ctor_eq:
  "AcceptEvent_ctor raw = \<lparr>hEvent = 0, Internal = 0, InternalHigh = 0, Offset = 0, OffsetHigh = 0,
     eventType = Accept, owner = None, session = None\<rparr>"
  by (simp add: AcceptEvent_ctor_def IocpEvent_ctor_def IocpEvent_Init_def IocpEvent.defs
      AcceptEvent.defs)

section \<open>The completion port\<close>

definition IocpCore_ctor :: "os \<Rightarrow> 'a world_scheme \<Rightarrow> (HANDLE \<times> 'a world_scheme) outcome" where
  "IocpCore_ctor os w =
     (let (r, w) = sys os (CreateIoCompletionPort INVALID_HANDLE_VALUE 0) w; iocpHandle = result r
      in and_then (ASSERT_CRASH (iocpHandle \<noteq> INVALID_HANDLE_VALUE)) (\<lambda>_. Inr (iocpHandle, w)))"

definition IocpCore_dtor :: "os \<Rightarrow> HANDLE \<Rightarrow> 'a world_scheme \<Rightarrow> 'a world_scheme" where
  "IocpCore_dtor os iocpHandle w = snd (sys os (CloseHandle iocpHandle) w)"

text \<open>\<open>handle\<close> is what \<^verbatim>\<open>iocpObject->GetHandle()\<close> gives; the port's handle converts to bool.\<close>

definition IocpCore_Register :: "os \<Rightarrow> HANDLE \<Rightarrow> HANDLE \<Rightarrow> 'a world_scheme \<Rightarrow> bool \<times> 'a world_scheme" where
  "IocpCore_Register os iocpHandle handle w =
     (let (r, w) = sys os (CreateIoCompletionPort handle iocpHandle) w in (result r \<noteq> 0, w))"

lemma IocpCore_Register_eq [net_simps]:
  "IocpCore_Register os p s w = (let r = os (hist w) (CreateIoCompletionPort s p)
     in (result r \<noteq> 0, w\<lparr>hist := (CreateIoCompletionPort s p, r) # hist w\<rparr>))"
  by (simp add: IocpCore_Register_def sys_def Let_def)

text \<open>
  \<^verbatim>\<open>CreateIoCompletionPort\<close> fails with a null handle, which the constructor's test lets pass.
\<close>

lemma failed_port_passes:
  assumes "result (os (hist w) (CreateIoCompletionPort INVALID_HANDLE_VALUE 0)) = 0"
  shows "\<exists>w'. IocpCore_ctor os w = Inr (0, w')"
  using assms by (simp add: IocpCore_ctor_def sys_def Let_def INVALID_HANDLE_VALUE_def)

end
