(* ===== verification/Session_Service.thy ===== *)
theory Session_Service
  imports Iocp
begin

text \<open>
  \<^verbatim>\<open>ServerCore/Session.h/.cpp\<close> and \<^verbatim>\<open>ServerCore/Service.h/.cpp\<close>, without
  \<^verbatim>\<open>ServerService::Start\<close>, which needs the listener (theory \<open>Game_Server\<close>).

  Sessions live behind \<^verbatim>\<open>shared_ptr\<close>: a session is a number, a \<^verbatim>\<open>SessionRef\<close> a number or
  null, and the store of sessions keeps the number of references beside each of them. Dropping the
  last one runs the destructor. What a session never touches (its receive buffer, its unused flag's
  atomicity) is left out.
\<close>

section \<open>Sessions\<close>

record Session =
  sess_socket :: SOCKET
  sess_netAddress :: SOCKADDR_IN
  conneted :: bool

record net = world +
  sessions :: "nat \<Rightarrow> (Session \<times> nat) option"  \<comment> \<open>with the number of references\<close>
  sessions_made :: nat

definition Session_ctor :: "os \<Rightarrow> 'a world_scheme \<Rightarrow> Session \<times> 'a world_scheme" where
  "Session_ctor os w =
     (let (socket, w) = CreateSocket os w
      in (\<lparr>sess_socket = socket, sess_netAddress = NetAddress_default, conneted = False\<rparr>, w))"

definition Session_dtor :: "os \<Rightarrow> Session \<Rightarrow> 'a world_scheme \<Rightarrow> 'a world_scheme" where
  "Session_dtor os se w = snd (Close os (sess_socket se) w)"

definition Session_GetHandle :: "Session \<Rightarrow> HANDLE" where
  "Session_GetHandle se = sess_socket se"

definition Session_Dispatch :: "nat \<Rightarrow> uint32 \<Rightarrow> 'a \<Rightarrow> 'a" where
  "Session_Dispatch iocpEvent bytes w = w"

definition SetNetAddress :: "SOCKADDR_IN \<Rightarrow> Session \<Rightarrow> Session" where
  "SetNetAddress netAddress se = se\<lparr>sess_netAddress := netAddress\<rparr>"

section \<open>References to sessions\<close>

definition make_shared_session :: "os \<Rightarrow> net \<Rightarrow> (nat option \<times> net) outcome" where
  "make_shared_session os n =
     (let (se, n) = Session_ctor os n; sid = sessions_made n
      in Inr (Some sid, n\<lparr>sessions := (sessions n)(sid \<mapsto> (se, 1)), sessions_made := sid + 1\<rparr>))"

text \<open>Following a \<^verbatim>\<open>SessionRef\<close>; null and a destroyed session are undefined behaviour.\<close>

definition the_session :: "nat option \<Rightarrow> net \<Rightarrow> (nat \<times> Session) outcome" where
  "the_session ref n = (case ref of
     None \<Rightarrow> Inl (UB ''null SessionRef'')
   | Some sid \<Rightarrow> (case sessions n sid of
       None \<Rightarrow> Inl (UB ''destroyed session'')
     | Some (se, k) \<Rightarrow> Inr (sid, se)))"

definition session_copy :: "nat option \<Rightarrow> net \<Rightarrow> net outcome" where
  "session_copy ref n = (case ref of
     None \<Rightarrow> Inr n
   | Some sid \<Rightarrow> (case sessions n sid of
       None \<Rightarrow> Inl (UB ''destroyed session'')
     | Some (se, k) \<Rightarrow> Inr (n\<lparr>sessions := (sessions n)(sid \<mapsto> (se, k + 1))\<rparr>)))"

definition session_drop :: "os \<Rightarrow> nat option \<Rightarrow> net \<Rightarrow> net outcome" where
  "session_drop os ref n = (case ref of
     None \<Rightarrow> Inr n
   | Some sid \<Rightarrow> (case sessions n sid of
       None \<Rightarrow> Inl (UB ''destroyed session'')
     | Some (se, k) \<Rightarrow>
         if k = 1 then let n = Session_dtor os se n in Inr (n\<lparr>sessions := (sessions n)(sid := None)\<rparr>)
         else Inr (n\<lparr>sessions := (sessions n)(sid \<mapsto> (se, k - 1))\<rparr>)))"

definition set_session :: "nat \<Rightarrow> (Session \<Rightarrow> Session) \<Rightarrow> net \<Rightarrow> net" where
  "set_session sid f n =
     n\<lparr>sessions := (sessions n)(sid := map_option (apfst f) (sessions n sid))\<rparr>"

section \<open>The service\<close>

datatype ServiceType = Server | Client

text \<open>
  A \<^verbatim>\<open>SessionFactory\<close> is a function on the network state; an empty \<^verbatim>\<open>std::function\<close> is
  \<open>None\<close>, and calling it throws.
\<close>

type_synonym SessionFactory = "(net \<Rightarrow> (nat option \<times> net) outcome) option"

record service =
  service_type :: ServiceType
  netAddress :: SOCKADDR_IN
  iocpCore :: HANDLE
  svc_sessions :: "nat option set"
  sessionCount :: int
  maxSessionCount :: int
  sessionFactory :: SessionFactory

record server_service = service +
  listener_ref :: "nat option"  \<comment> \<open>\<open>ServerService::_listener\<close>\<close>

definition Service_ctor ::
  "ServiceType \<Rightarrow> SOCKADDR_IN \<Rightarrow> HANDLE \<Rightarrow> SessionFactory \<Rightarrow> int \<Rightarrow> service" where
  "Service_ctor type address core factory maxCount =
     \<lparr>service_type = type, netAddress = address, iocpCore = core, svc_sessions = {}, sessionCount = 0,
      maxSessionCount = maxCount, sessionFactory = factory\<rparr>"

definition ClientService_ctor :: "SOCKADDR_IN \<Rightarrow> HANDLE \<Rightarrow> SessionFactory \<Rightarrow> int \<Rightarrow> service" where
  "ClientService_ctor targetAddress core factory maxCount =
     Service_ctor Client targetAddress core factory maxCount"

definition ServerService_ctor :: "SOCKADDR_IN \<Rightarrow> HANDLE \<Rightarrow> SessionFactory \<Rightarrow> int \<Rightarrow> server_service" where
  "ServerService_ctor address core factory maxCount =
     service.extend (Service_ctor Server address core factory maxCount) (server_service.fields None)"

definition CanStart :: "'a service_scheme \<Rightarrow> bool" where
  "CanStart svc \<longleftrightarrow> sessionFactory svc \<noteq> None"

definition SetSessionFactory :: "SessionFactory \<Rightarrow> 'a service_scheme \<Rightarrow> 'a service_scheme" where
  "SetSessionFactory func svc = svc\<lparr>sessionFactory := func\<rparr>"

definition Service_CloseService :: "'a service_scheme \<Rightarrow> 'a service_scheme" where
  "Service_CloseService svc = svc"

definition ServerService_CloseService :: "'a service_scheme \<Rightarrow> 'a service_scheme" where
  "ServerService_CloseService svc = Service_CloseService svc"

definition ClientService_Start :: "service \<Rightarrow> bool" where
  "ClientService_Start svc \<longleftrightarrow> True"

definition CreateSession :: "os \<Rightarrow> 'a service_scheme \<Rightarrow> net \<Rightarrow> (nat option \<times> net) outcome" where
  "CreateSession os svc n = (case sessionFactory svc of
     None \<Rightarrow> Inl (CRASH ''bad_function_call'')
   | Some factory \<Rightarrow>
       and_then (factory n) (\<lambda>(ref, n).
       and_then (the_session ref n) (\<lambda>(sid, se).
         let (registered, n) = IocpCore_Register os (iocpCore svc) (Session_GetHandle se) n
         in if \<not> registered then and_then (session_drop os ref n) (\<lambda>n. Inr (None, n))
            else Inr (ref, n))))"

text \<open>
  The two methods run under the service's write lock. The set holds a reference of its own; the
  caller keeps the argument's.
\<close>

definition AddSession :: "nat option \<Rightarrow> 'a service_scheme \<Rightarrow> net \<Rightarrow> ('a service_scheme \<times> net) outcome" where
  "AddSession ref svc n =
     (if sessionCount svc = 2 ^ 31 - 1 then Inl (UB ''int32 overflow'')
      else let svc = svc\<lparr>sessionCount := sessionCount svc + 1\<rparr>
        in if ref \<in> svc_sessions svc then Inr (svc, n)
           else and_then (session_copy ref n) (\<lambda>n.
             Inr (svc\<lparr>svc_sessions := insert ref (svc_sessions svc)\<rparr>, n)))"

definition ReleaseSession ::
  "os \<Rightarrow> nat option \<Rightarrow> 'a service_scheme \<Rightarrow> net \<Rightarrow> ('a service_scheme \<times> net) outcome" where
  "ReleaseSession os ref svc n =
     and_then (ASSERT_CRASH (ref \<in> svc_sessions svc)) (\<lambda>_.
     and_then (session_drop os ref n) (\<lambda>n.
       Inr (svc\<lparr>svc_sessions := svc_sessions svc - {ref}, sessionCount := sessionCount svc - 1\<rparr>, n)))"

definition GetCurrentSessionCount :: "'a service_scheme \<Rightarrow> int" where
  "GetCurrentSessionCount svc = sessionCount svc"

definition GetMaxSessionCount :: "'a service_scheme \<Rightarrow> int" where
  "GetMaxSessionCount svc = maxSessionCount svc"

definition GetServiceType :: "'a service_scheme \<Rightarrow> ServiceType" where
  "GetServiceType svc = service_type svc"

definition GetNetAddress :: "'a service_scheme \<Rightarrow> SOCKADDR_IN" where
  "GetNetAddress svc = netAddress svc"

definition GetIocpCore :: "'a service_scheme \<Rightarrow> HANDLE" where
  "GetIocpCore svc = iocpCore svc"

end
