(* ===== verification/Listener.thy ===== *)
theory Listener
  imports Session_Service
begin

text \<open>
  \<^verbatim>\<open>ServerCore/Listener.h/.cpp\<close>, on the state of a server: the network state with its
  sessions, the listeners and accept events the program has allocated, and the one service. As for
  sessions, a listener is kept with the number of \<^verbatim>\<open>shared_ptr\<close>s to it; temporaries that a
  statement makes and drops are not counted, the reference that an event's \<^verbatim>\<open>owner\<close> and the
  dispatcher's local variable hold are. A handler is one
  function here; theory \<open>Worker_Steps\<close> cuts it into the steps of a worker among others.
\<close>

section \<open>The state\<close>

record listener =
  listen_socket :: SOCKET
  acceptEvents :: "nat list"
  has_service :: bool  \<comment> \<open>\<open>_service\<close> is not null\<close>

record server =
  srv_net :: net
  listeners :: "nat \<Rightarrow> (listener \<times> nat) option"
  listeners_made :: nat
  events :: "nat \<Rightarrow> AcceptEvent option"
  events_made :: nat
  svc :: server_service

definition new_listener :: listener where
  "new_listener = \<lparr>listen_socket = INVALID_SOCKET, acceptEvents = [], has_service = False\<rparr>"

definition on_net :: "(net \<Rightarrow> 'a \<times> net) \<Rightarrow> server \<Rightarrow> 'a \<times> server" where
  "on_net f s = (case f (srv_net s) of (a, n) \<Rightarrow> (a, s\<lparr>srv_net := n\<rparr>))"

definition try_net :: "(net \<Rightarrow> net outcome) \<Rightarrow> server \<Rightarrow> server outcome" where
  "try_net f s = and_then (f (srv_net s)) (\<lambda>n. Inr (s\<lparr>srv_net := n\<rparr>))"

definition the_listener :: "nat \<Rightarrow> server \<Rightarrow> listener outcome" where
  "the_listener lid s = (case listeners s lid of
     None \<Rightarrow> Inl (UB ''destroyed listener'') | Some (l, k) \<Rightarrow> Inr l)"

definition the_event :: "nat \<Rightarrow> server \<Rightarrow> AcceptEvent outcome" where
  "the_event e s = (case events s e of
     None \<Rightarrow> Inl (UB ''destroyed event'') | Some ev \<Rightarrow> Inr ev)"

definition set_listener :: "nat \<Rightarrow> (listener \<Rightarrow> listener) \<Rightarrow> server \<Rightarrow> server" where
  "set_listener lid f s =
     s\<lparr>listeners := (listeners s)(lid := map_option (apfst f) (listeners s lid))\<rparr>"

definition listener_refs :: "nat \<Rightarrow> (nat \<Rightarrow> nat) \<Rightarrow> server \<Rightarrow> server" where
  "listener_refs lid f s =
     s\<lparr>listeners := (listeners s)(lid := map_option (apsnd f) (listeners s lid))\<rparr>"

section \<open>Registering an accept\<close>

text \<open>The assignment \<^verbatim>\<open>acceptEvent->session = session\<close>, after \<^verbatim>\<open>Init\<close>.\<close>

definition attach_session :: "os \<Rightarrow> nat \<Rightarrow> nat option \<Rightarrow> server \<Rightarrow> server outcome" where
  "attach_session os e ref s =
     and_then (the_event e s) (\<lambda>ev.
     let s = s\<lparr>events := (events s)(e \<mapsto> (IocpEvent_Init ev)\<lparr>session := ref\<rparr>)\<rparr>
     in and_then (try_net (session_copy ref) s) (\<lambda>s. try_net (session_drop os (session ev)) s))"

text \<open>
  The body of \<^verbatim>\<open>RegisterAccept\<close> up to the test of its error code: whether to try again, and
  the local \<^verbatim>\<open>session\<close>.
\<close>

definition RegisterAccept_try :: "os \<Rightarrow> nat \<Rightarrow> nat \<Rightarrow> server \<Rightarrow> ((bool \<times> nat option) \<times> server) outcome" where
  "RegisterAccept_try os lid acceptEvent s =
     and_then (the_listener lid s) (\<lambda>l.
     if \<not> has_service l then Inl (UB ''null ServerServiceRef'')
     else and_then (CreateSession os (svc s) (srv_net s)) (\<lambda>(ref, n).
       and_then (attach_session os acceptEvent ref (s\<lparr>srv_net := n\<rparr>)) (\<lambda>s.
       and_then (the_session ref (srv_net s)) (\<lambda>(sid, se).
       if AcceptEx_fn (srv_net s) = 0 then Inl (UB ''null AcceptEx'')
       else let (r, s) = on_net (sys os (AcceptEx (listen_socket l) (sess_socket se) 0
                  (16 + 16) (16 + 16) acceptEvent)) s
         in Inr ((result r = 0 \<and> lastError r \<noteq> ERROR_IO_PENDING, ref), s)))))"

text \<open>The local \<^verbatim>\<open>session\<close> of each call is dropped when that call returns.\<close>

partial_function (option) RegisterAccept :: "os \<Rightarrow> nat \<Rightarrow> nat \<Rightarrow> server \<Rightarrow> server run" where
  "RegisterAccept os lid acceptEvent s = (case RegisterAccept_try os lid acceptEvent s of
     Inl x \<Rightarrow> Some (Inl x)
   | Inr ((again, ref), s) \<Rightarrow>
       if \<not> again then Some (try_net (session_drop os ref) s)
       else Option.bind (RegisterAccept os lid acceptEvent s)
         (\<lambda>res. Some (and_then res (try_net (session_drop os ref)))))"

section \<open>Completed accepts\<close>

definition ProcessAccept :: "os \<Rightarrow> nat \<Rightarrow> nat \<Rightarrow> server \<Rightarrow> server run" where
  "ProcessAccept os lid acceptEvent s =
     run_then (Some (the_event acceptEvent s)) (\<lambda>ev.
     let ref = session ev;
         done_with = (\<lambda>s. run_then (RegisterAccept os lid acceptEvent s)
           (\<lambda>s. Some (try_net (session_drop os ref) s)))
     in run_then (Some (try_net (session_copy ref) s)) (\<lambda>s.
        run_then (Some (the_session ref (srv_net s))) (\<lambda>(sid, se).
        run_then (Some (the_listener lid s)) (\<lambda>l.
        let (updated, s) = on_net (SetUpdateAcceptSocket os (sess_socket se) (listen_socket l)) s
        in if \<not> updated then done_with s
           else let (r, s) = on_net (sys os (getpeername (sess_socket se))) s
             in if result r = SOCKET_ERROR then done_with s
                else let s = s\<lparr>srv_net := set_session sid (SetNetAddress (NetAddress_of (peer r))) (srv_net s)\<rparr>;
                         (r, s) = on_net (sys os (print ''Client Connected!'')) s
                  in done_with s))))"

definition Listener_Dispatch :: "os \<Rightarrow> nat \<Rightarrow> nat \<Rightarrow> uint32 \<Rightarrow> server \<Rightarrow> server run" where
  "Listener_Dispatch os lid iocpEvent bytes s =
     run_then (Some (the_event iocpEvent s)) (\<lambda>ev.
     run_then (Some (ASSERT_CRASH (eventType ev = Accept))) (\<lambda>_.
     ProcessAccept os lid iocpEvent s))"

definition Listener_GetHandle :: "nat \<Rightarrow> server \<Rightarrow> HANDLE outcome" where
  "Listener_GetHandle lid s = and_then (the_listener lid s) (\<lambda>l. Inr (listen_socket l))"

section \<open>Starting and stopping\<close>

text \<open>One turn of the loop at the end of \<^verbatim>\<open>StartAccept\<close>.\<close>

definition add_accept :: "os \<Rightarrow> nat \<Rightarrow> server \<Rightarrow> server run" where
  "add_accept os lid s =
     (let acceptEvent = events_made s;
          ev = AcceptEvent_ctor (IocpEvent.make 0 0 0 0 0 Accept None);
          s = s\<lparr>events := (events s)(acceptEvent \<mapsto> ev), events_made := acceptEvent + 1\<rparr>;
          s = s\<lparr>events := (events s)(acceptEvent \<mapsto> ev\<lparr>owner := Some (Listener_object lid)\<rparr>)\<rparr>;
          s = listener_refs lid Suc s;
          s = set_listener lid (\<lambda>l. l\<lparr>acceptEvents := acceptEvents l @ [acceptEvent]\<rparr>) s
      in RegisterAccept os lid acceptEvent s)"

fun accept_loop :: "nat \<Rightarrow> os \<Rightarrow> nat \<Rightarrow> server \<Rightarrow> server run" where
  "accept_loop 0 os lid s = Some (Inr s)"
| "accept_loop (Suc k) os lid s = run_then (add_accept os lid s) (accept_loop k os lid)"

text \<open>
  \<open>service\<close> says whether the argument is the service or null. The calls after each other up to
  \<^verbatim>\<open>Listen\<close>; the boolean is that of the early return.
\<close>

definition StartAccept_socket :: "os \<Rightarrow> nat \<Rightarrow> bool \<Rightarrow> server \<Rightarrow> bool \<times> server" where
  "StartAccept_socket os lid service s =
     (let s = set_listener lid (\<lambda>l. l\<lparr>has_service := service\<rparr>) s
      in if \<not> service then (False, s)
      else let (socket, s) = on_net (CreateSocket os) s;
               s = set_listener lid (\<lambda>l. l\<lparr>listen_socket := socket\<rparr>) s
        in if socket = INVALID_SOCKET then (False, s)
        else let (b, s) = on_net (IocpCore_Register os (GetIocpCore (svc s)) socket) s
          in if \<not> b then (False, s)
        else let (b, s) = on_net (SetReuseAddress os socket True) s
          in if \<not> b then (False, s)
        else let (b, s) = on_net (SetLinger os socket 0 0) s
          in if \<not> b then (False, s)
        else let (b, s) = on_net (Bind os socket (GetNetAddress (svc s))) s
          in if \<not> b then (False, s)
        else on_net (Listen os socket SOMAXCONN) s)"

definition StartAccept :: "os \<Rightarrow> nat \<Rightarrow> bool \<Rightarrow> server \<Rightarrow> (bool \<times> server) run" where
  "StartAccept os lid service s =
     (let (ok, s) = StartAccept_socket os lid service s
      in if \<not> ok then Some (Inr (False, s))
         else run_then (accept_loop (nat (GetMaxSessionCount (svc s))) os lid s)
           (\<lambda>s. Some (Inr (True, s))))"

definition CloseSocket :: "os \<Rightarrow> nat \<Rightarrow> server \<Rightarrow> server outcome" where
  "CloseSocket os lid s =
     and_then (the_listener lid s) (\<lambda>l.
     let (socket, s) = on_net (Close os (listen_socket l)) s
     in Inr (set_listener lid (\<lambda>l. l\<lparr>listen_socket := socket\<rparr>) s))"

text \<open>
  \<^verbatim>\<open>xdelete\<close> of an accept event drops the two references of its members. The listener's own
  destructor runs when its count is 0, so that an event that still owns it cannot exist; the model
  would stop there.
\<close>

definition delete_event :: "os \<Rightarrow> nat \<Rightarrow> server \<Rightarrow> server outcome" where
  "delete_event os e s =
     and_then (the_event e s) (\<lambda>ev.
     and_then (try_net (session_drop os (session ev)) s) (\<lambda>s.
     if owner ev \<noteq> None then Inl (UB ''reference to a destroyed object'')
     else Inr (s\<lparr>events := (events s)(e := None)\<rparr>)))"

fun delete_events :: "os \<Rightarrow> nat list \<Rightarrow> server \<Rightarrow> server outcome" where
  "delete_events os [] s = Inr s"
| "delete_events os (e # es) s = and_then (delete_event os e s) (delete_events os es)"

definition Listener_dtor :: "os \<Rightarrow> nat \<Rightarrow> server \<Rightarrow> server outcome" where
  "Listener_dtor os lid s =
     and_then (the_listener lid s) (\<lambda>l.
     and_then (CloseSocket os lid s) (\<lambda>s.
     and_then (delete_events os (acceptEvents l) s) (\<lambda>s.
       Inr (s\<lparr>listeners := (listeners s)(lid := None)\<rparr>))))"

definition listener_drop :: "os \<Rightarrow> nat \<Rightarrow> server \<Rightarrow> server outcome" where
  "listener_drop os lid s = (case listeners s lid of
     None \<Rightarrow> Inl (UB ''destroyed listener'')
   | Some (l, k) \<Rightarrow> if k = 1 then Listener_dtor os lid s else Inr (listener_refs lid (\<lambda>k. k - 1) s))"

end
