(* ===== verification/Game_Server.thy ===== *)
theory Game_Server
  imports Listener
begin

text \<open>
  \<^verbatim>\<open>IocpCore::Dispatch\<close> of \<^verbatim>\<open>ServerCore/IocpCore.cpp\<close>,
  \<^verbatim>\<open>ServerService::Start\<close> of \<^verbatim>\<open>ServerCore/Service.cpp\<close> and the server's side of
  \<^verbatim>\<open>GameServer/GameServer.cpp\<close>. The worker threads all call \<^verbatim>\<open>Dispatch\<close>; here it
  is one function, in theory \<open>Worker_Steps\<close> the workers run it at the same time.
\<close>

section \<open>Dispatching\<close>

definition object_copy :: "IocpObject \<Rightarrow> server \<Rightarrow> server outcome" where
  "object_copy obj s = (case obj of
     Listener_object lid \<Rightarrow> and_then (the_listener lid s) (\<lambda>l. Inr (listener_refs lid Suc s))
   | Session_object sid \<Rightarrow> try_net (session_copy (Some sid)) s)"

definition object_drop :: "os \<Rightarrow> IocpObject \<Rightarrow> server \<Rightarrow> server outcome" where
  "object_drop os obj s = (case obj of
     Listener_object lid \<Rightarrow> listener_drop os lid s
   | Session_object sid \<Rightarrow> try_net (session_drop os (Some sid)) s)"

text \<open>The virtual call \<^verbatim>\<open>iocpObject->Dispatch(iocpEvent, numOfBytes)\<close>.\<close>

definition object_Dispatch :: "os \<Rightarrow> IocpObject \<Rightarrow> nat \<Rightarrow> uint32 \<Rightarrow> server \<Rightarrow> server run" where
  "object_Dispatch os obj iocpEvent bytes s = (case obj of
     Listener_object lid \<Rightarrow> Listener_Dispatch os lid iocpEvent bytes s
   | Session_object sid \<Rightarrow> Some (Inr (Session_Dispatch iocpEvent bytes s)))"

text \<open>
  The two statements that stand in both branches: the local \<^verbatim>\<open>iocpObject\<close> is a reference of
  its own, and \<^verbatim>\<open>iocpEvent\<close> may be null.
\<close>

definition dispatch_event :: "os \<Rightarrow> nat option \<Rightarrow> uint32 \<Rightarrow> server \<Rightarrow> server run" where
  "dispatch_event os iocpEvent bytes s = (case iocpEvent of
     None \<Rightarrow> Some (Inl (UB ''null IocpEvent''))
   | Some e \<Rightarrow> run_then (Some (the_event e s)) (\<lambda>ev. case owner ev of
         None \<Rightarrow> Some (Inl (UB ''null IocpObjectRef''))
       | Some obj \<Rightarrow>
           run_then (Some (object_copy obj s)) (\<lambda>s.
           run_then (object_Dispatch os obj e bytes s) (\<lambda>s.
           Some (object_drop os obj s)))))"

definition IocpCore_Dispatch :: "os \<Rightarrow> HANDLE \<Rightarrow> uint32 \<Rightarrow> server \<Rightarrow> (bool \<times> server) run" where
  "IocpCore_Dispatch os iocpHandle timeoutMs s =
     (let (r, s) = on_net (sys os (GetQueuedCompletionStatus iocpHandle timeoutMs)) s
      in if result r \<noteq> 0
         then run_then (dispatch_event os (overlapped r) (numOfBytes r) s) (\<lambda>s. Some (Inr (True, s)))
         else if lastError r = WAIT_TIMEOUT then Some (Inr (False, s))
         else run_then (dispatch_event os (overlapped r) (numOfBytes r) s) (\<lambda>s. Some (Inr (True, s))))"

section \<open>Starting a server\<close>

definition ServerService_Start :: "os \<Rightarrow> server \<Rightarrow> (bool \<times> server) run" where
  "ServerService_Start os s =
     (if \<not> CanStart (svc s) then Some (Inr (False, s))
      else let lid = listeners_made s; old = listener_ref (svc s);
               s = s\<lparr>listeners := (listeners s)(lid \<mapsto> (new_listener, 1)), listeners_made := lid + 1,
                 svc := (svc s)\<lparr>listener_ref := Some lid\<rparr>\<rparr>
        in run_then (case old of None \<Rightarrow> Some (Inr s) | Some l \<Rightarrow> Some (listener_drop os l s)) (\<lambda>s.
           StartAccept os lid True s))"

text \<open>
  \<^verbatim>\<open>main\<close> up to the launch of the threads, and one call of a worker's loop. \<open>w\<close> is the
  world after the constructor of \<^verbatim>\<open>CoreGlobal\<close>.
\<close>

definition new_net :: "world \<Rightarrow> net" where
  "new_net w = world.extend w (net.fields (\<lambda>_. None) 0)"

definition new_server :: "net \<Rightarrow> server_service \<Rightarrow> server" where
  "new_server n sv = \<lparr>srv_net = n, listeners = (\<lambda>_. None), listeners_made = 0,
     events = (\<lambda>_. None), events_made = 0, svc = sv\<rparr>"

definition game_server_start :: "os \<Rightarrow> inet \<Rightarrow> uint32 \<Rightarrow> world \<Rightarrow> server run" where
  "game_server_start os net garbage w =
     run_then (Some (IocpCore_ctor os w)) (\<lambda>(core, w).
     let sv = ServerService_ctor (NetAddress_ctor net garbage ''127.0.0.1'' 7777) core
           (Some (make_shared_session os)) 100
     in run_then (ServerService_Start os (new_server (new_net w) sv)) (\<lambda>(ok, s).
        run_then (Some (ASSERT_CRASH ok)) (\<lambda>_. Some (Inr s))))"

definition worker_turn :: "os \<Rightarrow> server \<Rightarrow> server run" where
  "worker_turn os s =
     run_then (IocpCore_Dispatch os (GetIocpCore (svc s)) INFINITE s) (\<lambda>(b, s). Some (Inr s))"

end
