(* ===== verification/Session_Factory.thy ===== *)
theory Session_Factory
  imports Session_Service
begin

text \<open>
  The invariant of the network state, and the interface between a service and the factory of its
  sessions: the locale \<open>session_factory\<close> says what a listener needs of it, and
  \<^verbatim>\<open>MakeShared<Session>\<close>, the factory of the game server, provides it.
\<close>

section \<open>Histories that leave the completion port alone\<close>

fun completes :: "call \<Rightarrow> bool" where
  "completes (AcceptEx ls cs len l1 l2 e) \<longleftrightarrow> True"
| "completes (GetQueuedCompletionStatus p t) \<longleftrightarrow> True"
| "completes _ \<longleftrightarrow> False"

definition quiet :: "history \<Rightarrow> history \<Rightarrow> bool" where
  "quiet h h' \<longleftrightarrow> (\<exists>new. h' = new @ h \<and> (\<forall>(c, r) \<in> set new. \<not> completes c))"

text \<open>How often in a row the system has refused \<^verbatim>\<open>AcceptEx\<close> for an event.\<close>

fun refusals :: "nat \<Rightarrow> history \<Rightarrow> nat" where
  "refusals e [] = 0"
| "refusals e ((AcceptEx ls cs len l1 l2 x, r) # h) =
     (if x = e then if accepted_by_system r then 0 else Suc (refusals e h) else refusals e h)"
| "refusals e (_ # h) = refusals e h"

lemma quiet_refl [simp, intro]: "quiet h h"
  by (auto simp: quiet_def)

lemma quiet_cons [simp, intro]: "quiet h h' \<Longrightarrow> \<not> completes c \<Longrightarrow> quiet h ((c, r) # h')"
  by (auto simp: quiet_def intro: exI [of _ "(c, r) # _"])

lemma quiet_trans [trans]: "quiet a b \<Longrightarrow> quiet b c \<Longrightarrow> quiet a c"
  unfolding quiet_def by (metis (no_types, lifting) append_assoc set_append Un_iff)

lemma pending_cons_quiet [simp]: "\<not> completes c \<Longrightarrow> pending ((c, r) # h) = pending h"
  by (cases c) auto

lemma refusals_cons_quiet [simp]: "\<not> completes c \<Longrightarrow> refusals e ((c, r) # h) = refusals e h"
  by (cases c) auto

lemma quiet_same:
  assumes "quiet h h'"
  shows "pending h' = pending h" "refusals e h' = refusals e h"
proof -
  obtain new where new: "h' = new @ h" "\<forall>(c, r) \<in> set new. \<not> completes c"
    using assms by (auto simp: quiet_def)
  from new(2) have "pending (new @ h) = pending h \<and> refusals e (new @ h) = refusals e h"
    by (induction new) auto
  then show "pending h' = pending h" "refusals e h' = refusals e h" using new(1) by auto
qed

section \<open>The sockets of sessions\<close>

definition sess_sock :: "net \<Rightarrow> nat \<Rightarrow> SOCKET option" where
  "sess_sock n sid = (case sessions n sid of
     None \<Rightarrow> None
   | Some (se, k) \<Rightarrow> if sess_socket se = INVALID_SOCKET then None else Some (sess_socket se))"

text \<open>
  \<open>X\<close> are the sockets that somebody else than a session has open. Every open socket has exactly
  one owner, and no socket was ever closed that was not open.
\<close>

definition net_inv :: "SOCKET set \<Rightarrow> net \<Rightarrow> bool" where
  "net_inv X n \<longleftrightarrow>
     unclosed (hist n) = X \<union> ran (sess_sock n) \<and> X \<inter> ran (sess_sock n) = {} \<and>
     inj_on (sess_sock n) (dom (sess_sock n)) \<and> closes_ok (hist n) \<and>
     (\<forall>sid \<ge> sessions_made n. sessions n sid = None)"

definition dec_ref :: "nat option \<Rightarrow> (nat \<Rightarrow> (Session \<times> nat) option) \<Rightarrow> nat \<Rightarrow> (Session \<times> nat) option" where
  "dec_ref ref m = (case ref of
     None \<Rightarrow> m | Some sid \<Rightarrow> m(sid := map_option (apsnd (\<lambda>k. k - 1)) (m sid)))"

lemma sess_sock_same:
  assumes "\<And>x. map_option (sess_socket \<circ> fst) (sessions n' x) = map_option (sess_socket \<circ> fst) (sessions n x)"
  shows "sess_sock n' = sess_sock n"
proof
  fix x show "sess_sock n' x = sess_sock n x"
    using assms [of x] by (cases "sessions n x"; cases "sessions n' x") (auto simp: sess_sock_def)
qed

lemma net_inv_call:
  assumes "net_inv X n" "\<not> socket_call c"
  shows "net_inv X (n\<lparr>hist := (c, r) # hist n\<rparr>)"
proof -
  have "sess_sock (n\<lparr>hist := (c, r) # hist n\<rparr>) = sess_sock n" by (rule sess_sock_same) simp
  then show ?thesis using assms by (simp add: net_inv_def)
qed

lemma net_inv_refs:
  assumes "net_inv X n"
    and "\<And>x. map_option (sess_socket \<circ> fst) (m x) = map_option (sess_socket \<circ> fst) (sessions n x)"
  shows "net_inv X (n\<lparr>sessions := m\<rparr>)"
proof -
  have "sess_sock (n\<lparr>sessions := m\<rparr>) = sess_sock n" by (rule sess_sock_same) (simp add: assms(2))
  moreover have "m x = None" if "sessions n x = None" for x using assms(2) [of x] that by simp
  ultimately show ?thesis using assms(1) by (simp add: net_inv_def)
qed

lemma net_inv_drop:
  assumes inv: "net_inv X n" and se: "sessions n sid = Some (se, k)"
    and m: "m = (sessions n)(sid := None)"
  shows "net_inv X (Session_dtor os se n\<lparr>sessions := m\<rparr>)"
proof -
  define n' where "n' = Session_dtor os se n\<lparr>sessions := m\<rparr>"
  have sock: "sess_sock n' = (sess_sock n)(sid := None)"
    by (rule ext) (simp add: sess_sock_def n'_def m)
  have ran: "ran ((sess_sock n)(sid := None)) = ran (sess_sock n) - set_option (sess_sock n sid)"
    using inv by (auto simp: net_inv_def ran_def dom_def inj_on_def; metis)
  have rest: "inj_on ((sess_sock n)(sid := None)) (dom ((sess_sock n)(sid := None)))"
    using inv by (auto simp: net_inv_def inj_on_def dom_def)
  have mine: "sess_sock n sid = (if sess_socket se = INVALID_SOCKET then None else Some (sess_socket se))"
    using se by (simp add: sess_sock_def)
  have made: "sessions_made n' = sessions_made n" and sess: "sessions n' = m"
    by (simp_all add: n'_def Session_dtor_def Close_eq)
  show ?thesis
  proof (cases "sess_socket se = INVALID_SOCKET")
    case True
    then have "hist n' = hist n" by (simp add: n'_def Session_dtor_def Close_eq)
    then show ?thesis unfolding n'_def [symmetric]
      using inv True mine ran rest by (auto simp: net_inv_def sock made sess m)
  next
    case False
    define r where "r = os (hist n) (closesocket (sess_socket se))"
    have hist: "hist n' = (closesocket (sess_socket se), r) # hist n"
      using False by (simp add: n'_def Session_dtor_def Close_eq r_def)
    have "sess_socket se \<in> ran (sess_sock n)" using mine False by (auto intro: ranI)
    then have "sess_socket se \<in> unclosed (hist n)" "sess_socket se \<notin> X"
      using inv by (auto simp: net_inv_def)
    then show ?thesis unfolding n'_def [symmetric]
      using inv False mine ran rest by (auto simp: net_inv_def sock made sess m hist)
  qed
qed

lemma net_inv_make:
  assumes inv: "net_inv X n" and ok: "os_ok os" and mk: "make_shared_session os n = Inr (ref, n')"
  obtains se where "ref = Some (sessions_made n)" "sessions n' = (sessions n)(sessions_made n \<mapsto> (se, 1))"
    "net_inv X n'" "quiet (hist n) (hist n')" "AcceptEx_fn n' = AcceptEx_fn n"
proof -
  define c where "c = WSASocket AF_INET SOCK_STREAM IPPROTO_TCP WSA_FLAG_OVERLAPPED"
  define r where "r = os (hist n) c"
  define se where "se = \<lparr>sess_socket = result r, sess_netAddress = NetAddress_default, conneted = False\<rparr>"
  define sid where "sid = sessions_made n"
  have n': "n' = n\<lparr>hist := (c, r) # hist n, sessions := (sessions n)(sid \<mapsto> (se, 1)), sessions_made := sid + 1\<rparr>"
    and ref: "ref = Some sid"
    using mk by (auto simp: make_shared_session_def Session_ctor_def CreateSocket_eq Let_def c_def r_def
        se_def sid_def)
  have fresh: "sessions n sid = None" using inv by (simp add: net_inv_def sid_def)
  have sock: "sess_sock n' = (sess_sock n)(sid := if result r = INVALID_SOCKET then None else Some (result r))"
    by (rule ext) (simp add: sess_sock_def n' se_def)
  have none: "sess_sock n sid = None" using fresh by (simp add: sess_sock_def)
  have new: "result r \<notin> X \<union> ran (sess_sock n)"
    using os_ok_socket(1) [OF ok, of "hist n"] inv by (simp add: r_def c_def net_inv_def)
  have upd: "(sess_sock n)(sid := None) = sess_sock n" using none by (auto simp: fun_eq_iff)
  have "net_inv X n'"
  proof (cases "result r = INVALID_SOCKET")
    case True
    then have "sess_sock n' = sess_sock n" using sock upd by simp
    then show ?thesis using inv True by (simp add: net_inv_def n' c_def sid_def)
  next
    case False
    have ran: "ran (sess_sock n') = insert (result r) (ran (sess_sock n))"
      using False none by (simp add: sock ran_map_upd)
    have inj: "inj_on (sess_sock n') (dom (sess_sock n'))"
      using inv False new by (auto simp: net_inv_def sock inj_on_def ran_def dom_def)
    have h: "unclosed (hist n') = insert (result r) (unclosed (hist n))" "closes_ok (hist n') = closes_ok (hist n)"
      "\<forall>x \<ge> sessions_made n'. sessions n' x = None"
      using False inv by (simp_all add: n' c_def net_inv_def sid_def)
    show ?thesis unfolding net_inv_def
      using inv new inj h by (auto simp: net_inv_def ran)
  qed
  moreover have "quiet (hist n) (hist n')" by (simp add: n' c_def quiet_cons)
  moreover have "AcceptEx_fn n' = AcceptEx_fn n" by (simp add: n')
  ultimately show thesis using that [of se] by (simp add: ref n' sid_def)
qed

section \<open>References\<close>

lemma the_session_simps [simp]:
  "the_session None n = Inl (UB ''null SessionRef'')"
  "sessions n sid = Some (se, k) \<Longrightarrow> the_session (Some sid) n = Inr (sid, se)"
  by (simp_all add: the_session_def)

lemma session_copy_Some [simp]:
  "sessions n sid = Some (se, k) \<Longrightarrow>
     session_copy (Some sid) n = Inr (n\<lparr>sessions := (sessions n)(sid \<mapsto> (se, k + 1))\<rparr>)"
  "session_copy None n = Inr n"
  by (simp_all add: session_copy_def)

lemma session_drop_more:
  assumes "\<And>sid. ref = Some sid \<Longrightarrow> \<exists>se k. sessions n sid = Some (se, k) \<and> 2 \<le> k"
  shows "session_drop os ref n = Inr (n\<lparr>sessions := dec_ref ref (sessions n)\<rparr>)"
  using assms by (cases ref) (auto simp: session_drop_def dec_ref_def)

lemma session_drop_last:
  assumes "sessions n sid = Some (se, 1)"
  shows "session_drop os (Some sid) n =
    Inr (Session_dtor os se n\<lparr>sessions := (sessions n)(sid := None)\<rparr>)"
proof -
  have "sessions (Session_dtor os se n) = sessions n" by (simp add: Session_dtor_def Close_eq)
  then show ?thesis using assms by (simp add: session_drop_def Let_def)
qed

lemma Session_dtor_frame [simp]:
  "sessions (Session_dtor os se n) = sessions n"
  "AcceptEx_fn (Session_dtor os se n) = AcceptEx_fn n"
  "quiet (hist n) (hist (Session_dtor os se n))"
  by (auto simp: Session_dtor_def Close_eq)

section \<open>The interface\<close>

locale session_factory =
  fixes make :: "os \<Rightarrow> net \<Rightarrow> (nat option \<times> net) outcome"
  assumes makes_session: "os_ok os \<Longrightarrow> net_inv X n \<Longrightarrow>
    \<exists>sid se n'. make os n = Inr (Some sid, n') \<and> sessions n sid = None \<and>
      sessions n' = (sessions n)(sid \<mapsto> (se, 1)) \<and> net_inv X n' \<and> quiet (hist n) (hist n') \<and>
      AcceptEx_fn n' = AcceptEx_fn n"

context session_factory begin

text \<open>\<^verbatim>\<open>CreateSession\<close> gives a registered session, or null after destroying the new one.\<close>

lemma create_session:
  assumes "os_ok os" "net_inv X n" "sessionFactory sv = Some (make os)"
  obtains ref n' where "CreateSession os sv n = Inr (ref, n')" "net_inv X n'"
    "quiet (hist n) (hist n')" "AcceptEx_fn n' = AcceptEx_fn n"
    "case ref of None \<Rightarrow> sessions n' = sessions n \<and>
        (\<exists>h s. result (os h (CreateIoCompletionPort s (iocpCore sv))) = 0)
      | Some sid \<Rightarrow> sessions n sid = None \<and> (\<exists>se. sessions n' = (sessions n)(sid \<mapsto> (se, 1)))"
proof -
  obtain sid se n1 where mk: "make os n = Inr (Some sid, n1)" "sessions n sid = None"
      "sessions n1 = (sessions n)(sid \<mapsto> (se, 1))" "net_inv X n1" "quiet (hist n) (hist n1)"
      "AcceptEx_fn n1 = AcceptEx_fn n"
    using makes_session [OF assms(1,2)] by blast
  define c where "c = CreateIoCompletionPort (sess_socket se) (iocpCore sv)"
  define r where "r = os (hist n1) c"
  define n2 where "n2 = n1\<lparr>hist := (c, r) # hist n1\<rparr>"
  have the_s: "the_session (Some sid) n1 = Inr (sid, se)" using mk(3) by simp
  have reg: "IocpCore_Register os (iocpCore sv) (Session_GetHandle se) n1 = (result r \<noteq> 0, n2)"
    by (simp add: IocpCore_Register_eq Session_GetHandle_def Let_def n2_def r_def c_def)
  have create: "CreateSession os sv n =
      (if result r = 0 then and_then (session_drop os (Some sid) n2) (\<lambda>n. Inr (None, n)) else Inr (Some sid, n2))"
    by (simp add: CreateSession_def assms(3) mk(1) the_s reg)
  have inv2: "net_inv X n2" unfolding n2_def by (rule net_inv_call [OF mk(4)]) (simp add: c_def)
  have quiet2: "quiet (hist n) (hist n2)" using mk(5) by (auto simp: n2_def c_def)
  show thesis
  proof (cases "result r = 0")
    case False
    then show thesis using that [of "Some sid" n2] create mk inv2 quiet2 by (auto simp: n2_def)
  next
    case True
    define n3 where "n3 = Session_dtor os se n2\<lparr>sessions := (sessions n2)(sid := None)\<rparr>"
    have sess2: "sessions n2 sid = Some (se, 1)" using mk(3) by (simp add: n2_def)
    have drop: "session_drop os (Some sid) n2 = Inr n3"
      unfolding n3_def by (rule session_drop_last [OF sess2])
    have "net_inv X n3" unfolding n3_def by (rule net_inv_drop [OF inv2 sess2 refl])
    moreover have "quiet (hist n) (hist n3)"
      using quiet2 by (auto simp: n3_def intro: quiet_trans)
    moreover have "sessions n3 = sessions n"
      using mk(2,3) by (auto simp: n3_def n2_def)
    moreover have "AcceptEx_fn n3 = AcceptEx_fn n" using mk(6) by (simp add: n3_def n2_def)
    moreover have "result (os (hist n1) (CreateIoCompletionPort (sess_socket se) (iocpCore sv))) = 0"
      using True by (simp add: r_def c_def)
    then have "\<exists>h s. result (os h (CreateIoCompletionPort s (iocpCore sv))) = 0" by blast
    ultimately show thesis using that [of None n3] create True drop by auto
  qed
qed

end

interpretation shared_session: session_factory make_shared_session
proof
  fix os X n assume ok: "os_ok os" "net_inv X n"
  obtain ref n' where mk: "make_shared_session os n = Inr (ref, n')"
    by (auto simp: make_shared_session_def Session_ctor_def CreateSocket_eq Let_def)
  obtain se where "ref = Some (sessions_made n)" "sessions n' = (sessions n)(sessions_made n \<mapsto> (se, 1))"
      "net_inv X n'" "quiet (hist n) (hist n')" "AcceptEx_fn n' = AcceptEx_fn n"
    using net_inv_make [OF ok(2,1) mk] by blast
  moreover have "sessions n (sessions_made n) = None" using ok(2) by (simp add: net_inv_def)
  ultimately show "\<exists>sid se n'. make_shared_session os n = Inr (Some sid, n') \<and> sessions n sid = None \<and>
      sessions n' = (sessions n)(sid \<mapsto> (se, 1)) \<and> net_inv X n' \<and> quiet (hist n) (hist n') \<and>
      AcceptEx_fn n' = AcceptEx_fn n"
    using mk by blast
qed

end
