(* ===== verification/Accept_Steps.thy ===== *)
theory Accept_Steps
  imports Listener Session_Factory
begin

text \<open>
  What \<^verbatim>\<open>RegisterAccept\<close> does to the state of a server, for any factory that keeps the laws of
  \<open>session_factory\<close>: if it returns, the event waits with a new session that only the event
  refers to, and the reference to its former session is gone.
\<close>

section \<open>Frames\<close>

definition same_objects :: "server \<Rightarrow> server \<Rightarrow> bool" where
  "same_objects s s' \<longleftrightarrow> listeners s' = listeners s \<and> listeners_made s' = listeners_made s \<and>
     events_made s' = events_made s \<and> svc s' = svc s"

lemma same_objects_refl [simp]: "same_objects s s"
  by (simp add: same_objects_def)

lemma same_objects_trans [trans]:
  "same_objects s t \<Longrightarrow> same_objects t u \<Longrightarrow> same_objects s u"
  by (simp add: same_objects_def)

lemma try_net_Inr [simp]: "f (srv_net s) = Inr n \<Longrightarrow> try_net f s = Inr (s\<lparr>srv_net := n\<rparr>)"
  by (simp add: try_net_def)

lemma the_listener_Some [simp]: "listeners s lid = Some (l, k) \<Longrightarrow> the_listener lid s = Inr l"
  by (simp add: the_listener_def)

lemma the_event_Some [simp]: "events s e = Some ev \<Longrightarrow> the_event e s = Inr ev"
  by (simp add: the_event_def)

lemma dec_ref_None [simp]: "dec_ref None m = m"
  by (simp add: dec_ref_def)

lemma dec_ref_twice:
  "dec_ref (Some sid) (m(sid \<mapsto> (se, k + 1))) = m(sid \<mapsto> (se, k))"
  by (simp add: dec_ref_def fun_eq_iff)

lemma dec_ref_other:
  "ref \<noteq> Some sid \<Longrightarrow> dec_ref ref (m(sid \<mapsto> v)) = (dec_ref ref m)(sid \<mapsto> v)"
  by (auto simp: dec_ref_def fun_eq_iff split: option.splits)

lemma dec_ref_sockets:
  "map_option (sess_socket \<circ> fst) (dec_ref ref m x) = map_option (sess_socket \<circ> fst) (m x)"
  by (cases ref; cases "m x") (auto simp: dec_ref_def)

section \<open>Registering\<close>

definition registering :: "SOCKET set \<Rightarrow> nat \<Rightarrow> nat \<Rightarrow> nat option \<Rightarrow> server \<Rightarrow> bool" where
  "registering X lid e ref s \<longleftrightarrow>
     (\<exists>l k. listeners s lid = Some (l, k) \<and> has_service l) \<and>
     (\<exists>ev. events s e = Some ev \<and> session ev = ref) \<and>
     (\<forall>sid. ref = Some sid \<longrightarrow> (\<exists>se k. sessions (srv_net s) sid = Some (se, k) \<and> 2 \<le> k)) \<and>
     net_inv X (srv_net s) \<and> AcceptEx_fn (srv_net s) \<noteq> 0"

definition attached :: "nat \<Rightarrow> nat \<Rightarrow> server \<Rightarrow> server \<Rightarrow> bool" where
  "attached e sid s s' \<longleftrightarrow> sessions (srv_net s) sid = None \<and>
     events s' = (events s)(e := map_option (\<lambda>ev. (IocpEvent_Init ev)\<lparr>session := Some sid\<rparr>) (events s e))"

definition registered :: "SOCKET set \<Rightarrow> nat \<Rightarrow> nat option \<Rightarrow> server \<Rightarrow> server \<Rightarrow> bool" where
  "registered X e ref s s' \<longleftrightarrow> same_objects s s' \<and> net_inv X (srv_net s') \<and>
     AcceptEx_fn (srv_net s') = AcceptEx_fn (srv_net s) \<and>
     pending (hist (srv_net s')) = insert e (pending (hist (srv_net s))) \<and>
     (\<exists>sid se. attached e sid s s' \<and>
        sessions (srv_net s') = (dec_ref ref (sessions (srv_net s)))(sid \<mapsto> (se, 1)))"

text \<open>What one turn of \<^verbatim>\<open>RegisterAccept\<close> leaves when it does not stop.\<close>

definition tried :: "SOCKET set \<Rightarrow> nat \<Rightarrow> nat option \<Rightarrow> bool \<Rightarrow> nat \<Rightarrow> server \<Rightarrow> server \<Rightarrow> bool" where
  "tried X e ref again sid s s' \<longleftrightarrow> same_objects s s' \<and> net_inv X (srv_net s') \<and>
     AcceptEx_fn (srv_net s') = AcceptEx_fn (srv_net s) \<and>
     pending (hist (srv_net s')) =
       (if again then pending (hist (srv_net s)) else insert e (pending (hist (srv_net s)))) \<and>
     refusals e (hist (srv_net s')) = (if again then Suc (refusals e (hist (srv_net s))) else 0) \<and>
     attached e sid s s' \<and>
     (\<exists>se. sessions (srv_net s') = (dec_ref ref (sessions (srv_net s)))(sid \<mapsto> (se, 2)))"

lemma attach_session_ok:
  assumes ev: "events s e = Some ev"
    and new: "sessions (srv_net s) sid = Some (se, 1)" "session ev \<noteq> Some sid"
    and old: "\<And>a. session ev = Some a \<Longrightarrow> \<exists>se k. sessions (srv_net s) a = Some (se, k) \<and> 2 \<le> k"
  shows "attach_session os e (Some sid) s =
    Inr (s\<lparr>events := (events s)(e \<mapsto> (IocpEvent_Init ev)\<lparr>session := Some sid\<rparr>),
      srv_net := (srv_net s)\<lparr>sessions :=
        (dec_ref (session ev) (sessions (srv_net s)))(sid \<mapsto> (se, 2))\<rparr>\<rparr>)"
proof -
  define n1 where "n1 = (srv_net s)\<lparr>sessions := (sessions (srv_net s))(sid \<mapsto> (se, 2))\<rparr>"
  have copy: "session_copy (Some sid) (srv_net s) = Inr n1"
    using new by (simp add: n1_def numeral_2_eq_2)
  have drop: "session_drop os (session ev) n1 = Inr (n1\<lparr>sessions := dec_ref (session ev) (sessions n1)\<rparr>)"
    by (rule session_drop_more) (use old new in \<open>auto simp: n1_def\<close>)
  have "dec_ref (session ev) (sessions n1) = (dec_ref (session ev) (sessions (srv_net s)))(sid \<mapsto> (se, 2))"
    using dec_ref_other [OF new(2)] by (simp add: n1_def)
  with drop have drop': "session_drop os (session ev) n1 = Inr ((srv_net s)\<lparr>sessions :=
        (dec_ref (session ev) (sessions (srv_net s)))(sid \<mapsto> (se, 2))\<rparr>)"
    by (simp add: n1_def)
  show ?thesis
    using ev copy drop' by (simp add: attach_session_def Let_def try_net_def)
qed

lemma attach_null:
  assumes ev: "events s e = Some ev"
    and old: "\<And>a. session ev = Some a \<Longrightarrow> \<exists>se k. sessions (srv_net s) a = Some (se, k) \<and> 2 \<le> k"
  shows "\<exists>s'. attach_session os e None s = Inr s'"
proof -
  have "session_drop os (session ev) (srv_net s) =
      Inr ((srv_net s)\<lparr>sessions := dec_ref (session ev) (sessions (srv_net s))\<rparr>)"
    by (rule session_drop_more) (use old in auto)
  then show ?thesis using ev by (simp add: attach_session_def Let_def try_net_def)
qed

text \<open>The state in which \<^verbatim>\<open>AcceptEx\<close> is called.\<close>

definition attached_state :: "nat \<Rightarrow> AcceptEvent \<Rightarrow> nat \<Rightarrow> Session \<Rightarrow> server \<Rightarrow> net \<Rightarrow> server" where
  "attached_state e ev sid se s n = s\<lparr>events := (events s)(e \<mapsto> (IocpEvent_Init ev)\<lparr>session := Some sid\<rparr>),
     srv_net := n\<lparr>sessions := (dec_ref (session ev) (sessions (srv_net s)))(sid \<mapsto> (se, 2))\<rparr>\<rparr>"

lemma attach_new:
  assumes ev: "events s e = Some ev" and neq: "session ev \<noteq> Some sid"
    and sess: "sessions n = (sessions (srv_net s))(sid \<mapsto> (se, 1))"
    and old: "\<And>a. session ev = Some a \<Longrightarrow> \<exists>se k. sessions (srv_net s) a = Some (se, k) \<and> 2 \<le> k"
  shows "attach_session os e (Some sid) (s\<lparr>srv_net := n\<rparr>) = Inr (attached_state e ev sid se s n)"
proof -
  let ?s = "s\<lparr>srv_net := n\<rparr>"
  have "attach_session os e (Some sid) ?s =
    Inr (?s\<lparr>events := (events ?s)(e \<mapsto> (IocpEvent_Init ev)\<lparr>session := Some sid\<rparr>),
      srv_net := (srv_net ?s)\<lparr>sessions := (dec_ref (session ev) (sessions (srv_net ?s)))(sid \<mapsto> (se, 2))\<rparr>\<rparr>)"
    by (rule attach_session_ok) (use ev neq sess old in auto)
  then show ?thesis using dec_ref_other [OF neq] sess by (simp add: attached_state_def)
qed

lemma attached_tried:
  assumes ev: "events s e = Some ev" and fresh: "sessions (srv_net s) sid = None"
    and sess: "sessions n = (sessions (srv_net s))(sid \<mapsto> (se, 1))"
    and n: "net_inv X n" "quiet (hist (srv_net s)) (hist n)" "AcceptEx_fn n = AcceptEx_fn (srv_net s)"
    and c: "c = AcceptEx ls (sess_socket se) 0 (16 + 16) (16 + 16) e"
    and again: "again = (\<not> accepted_by_system r)"
    and s': "s' = snd (on_net (\<lambda>n. (r, n\<lparr>hist := (c, r) # hist n\<rparr>)) (attached_state e ev sid se s n))"
  shows "tried X e (session ev) again sid s s'"
proof -
  define n2 where "n2 = n\<lparr>sessions := (dec_ref (session ev) (sessions (srv_net s)))(sid \<mapsto> (se, 2))\<rparr>"
  define n3 where "n3 = n2\<lparr>hist := (c, r) # hist n2\<rparr>"
  have eq: "s' = (attached_state e ev sid se s n)\<lparr>srv_net := n3\<rparr>"
    by (simp add: s' on_net_def attached_state_def n3_def n2_def)
  have "net_inv X n2"
    unfolding n2_def
  proof (rule net_inv_refs [OF n(1)])
    fix x show "map_option (sess_socket \<circ> fst) (((dec_ref (session ev) (sessions (srv_net s)))(sid \<mapsto> (se, 2))) x) =
        map_option (sess_socket \<circ> fst) (sessions n x)"
      by (simp add: sess dec_ref_sockets)
  qed
  then have inv3: "net_inv X n3" unfolding n3_def by (rule net_inv_call) (simp add: c)
  have pend: "pending (hist n3) =
      (if again then pending (hist (srv_net s)) else insert e (pending (hist (srv_net s))))"
    using quiet_same(1) [OF n(2)] by (simp add: n3_def n2_def c again)
  have refu: "refusals e (hist n3) = (if again then Suc (refusals e (hist (srv_net s))) else 0)"
    using quiet_same(2) [OF n(2)] by (simp add: n3_def n2_def c again)
  show ?thesis
    unfolding tried_def attached_def same_objects_def eq
    using inv3 pend refu fresh ev n(3)
    by (intro conjI exI [of _ se]) (simp_all add: attached_state_def n3_def n2_def)
qed

context session_factory begin

lemma register_try:
  assumes ok: "os_ok os" and pre: "registering X lid e ref s"
    and fac: "sessionFactory (svc s) = Some (make os)"
  shows "RegisterAccept_try os lid e s = Inl (UB ''null SessionRef'') \<and>
      (\<exists>h x. result (os h (CreateIoCompletionPort x (iocpCore (svc s)))) = 0) \<or>
    (\<exists>again sid s' h ls cs. RegisterAccept_try os lid e s = Inr ((again, Some sid), s') \<and>
      tried X e ref again sid s s' \<and> refusals e h = refusals e (hist (srv_net s)) \<and>
      again = (\<not> accepted_by_system (os h (AcceptEx ls cs 0 (16 + 16) (16 + 16) e))))"
proof -
  obtain l k ev where l: "listeners s lid = Some (l, k)" "has_service l" and ev: "events s e = Some ev" "session ev = ref"
    using pre by (auto simp: registering_def)
  have old: "\<exists>se k. sessions (srv_net s) a = Some (se, k) \<and> 2 \<le> k" if "session ev = Some a" for a
    using pre that ev by (auto simp: registering_def)
  have inv: "net_inv X (srv_net s)" and fn: "AcceptEx_fn (srv_net s) \<noteq> 0"
    using pre by (auto simp: registering_def)
  obtain nref n1 where create: "CreateSession os (svc s) (srv_net s) = Inr (nref, n1)" "net_inv X n1"
      "quiet (hist (srv_net s)) (hist n1)" "AcceptEx_fn n1 = AcceptEx_fn (srv_net s)"
      "case nref of None \<Rightarrow> sessions n1 = sessions (srv_net s) \<and>
          (\<exists>h x. result (os h (CreateIoCompletionPort x (iocpCore (svc s)))) = 0)
      | Some sid \<Rightarrow> sessions (srv_net s) sid = None \<and> (\<exists>se. sessions n1 = (sessions (srv_net s))(sid \<mapsto> (se, 1)))"
    using create_session [OF ok inv fac] by blast
  define s1 where "s1 = s\<lparr>srv_net := n1\<rparr>"
  have start: "RegisterAccept_try os lid e s =
      and_then (attach_session os e nref s1) (\<lambda>s.
       and_then (the_session nref (srv_net s)) (\<lambda>(sid, se).
       if AcceptEx_fn (srv_net s) = 0 then Inl (UB ''null AcceptEx'')
       else let (r, s) = on_net (sys os (AcceptEx (listen_socket l) (sess_socket se) 0
                  (16 + 16) (16 + 16) e)) s
         in Inr ((result r = 0 \<and> lastError r \<noteq> ERROR_IO_PENDING, nref), s)))"
    using l create(1) by (simp add: RegisterAccept_try_def s1_def)
  show ?thesis
  proof (cases nref)
    case None
    then obtain s2 where "attach_session os e None s1 = Inr s2"
      using attach_null [of s1 e ev] old ev create(5) by (auto simp: s1_def)
    then show ?thesis using start None create(5) by simp
  next
    case (Some sid)
    obtain se where fresh: "sessions (srv_net s) sid = None"
        and sess: "sessions n1 = (sessions (srv_net s))(sid \<mapsto> (se, 1))"
      using create(5) Some by auto
    have neq: "session ev \<noteq> Some sid" using old fresh by auto
    define s2 where "s2 = attached_state e ev sid se s n1"
    have at2: "hist (srv_net s2) = hist n1" "AcceptEx_fn (srv_net s2) \<noteq> 0"
        "the_session (Some sid) (srv_net s2) = Inr (sid, se)"
      using fn create(4) by (simp_all add: s2_def attached_state_def)
    define c where "c = AcceptEx (listen_socket l) (sess_socket se) 0 (16 + 16) (16 + 16) e"
    define r where "r = os (hist n1) c"
    define again where "again \<longleftrightarrow> \<not> accepted_by_system r"
    define s3 where "s3 = snd (on_net (\<lambda>n. (r, n\<lparr>hist := (c, r) # hist n\<rparr>)) s2)"
    have "attach_session os e nref s1 = Inr s2"
      using attach_new [OF ev(1) neq sess old] Some by (simp add: s1_def s2_def)
    moreover have "on_net (sys os c) s2 = (r, s3)"
      by (simp add: s3_def r_def on_net_def sys_def Let_def at2(1))
    moreover have "result r = 0 \<and> lastError r \<noteq> ERROR_IO_PENDING \<longleftrightarrow> again"
      by (auto simp: again_def accepted_by_system_def)
    ultimately have res: "RegisterAccept_try os lid e s = Inr ((again, Some sid), s3)"
      using start Some at2(2,3) unfolding c_def by simp
    have "tried X e ref again sid s s3"
      using attached_tried [OF ev(1) fresh sess create(2,3,4) c_def again_def, of s3] ev(2)
      by (simp add: s3_def s2_def)
    moreover have "refusals e (hist n1) = refusals e (hist (srv_net s))"
      by (rule quiet_same(2) [OF create(3)])
    moreover have "again = (\<not> accepted_by_system (os (hist n1)
        (AcceptEx (listen_socket l) (sess_socket se) 0 (16 + 16) (16 + 16) e)))"
      by (simp add: again_def r_def c_def)
    ultimately show ?thesis using res by blast
  qed
qed

lemma tried_again:
  assumes "registering X lid e ref s" "tried X e ref True sid s s'"
  shows "registering X lid e (Some sid) s'"
  using assms by (auto simp: registering_def tried_def same_objects_def attached_def)

text \<open>The outer call's session is destroyed when the inner call has returned.\<close>

lemma registered_again:
  assumes pre: "registering X lid e ref s" and first: "tried X e ref True sid s s1"
    and inner: "registered X e (Some sid) s1 s2"
  shows "\<exists>s3. try_net (session_drop os (Some sid)) s2 = Inr s3 \<and> registered X e ref s s3"
proof -
  obtain se where sess1: "sessions (srv_net s1) = (dec_ref ref (sessions (srv_net s)))(sid \<mapsto> (se, 2))"
      and att1: "attached e sid s s1"
    using first by (auto simp: tried_def)
  obtain sid2 se2 where att2: "attached e sid2 s1 s2"
      and sess2: "sessions (srv_net s2) = (dec_ref (Some sid) (sessions (srv_net s1)))(sid2 \<mapsto> (se2, 1))"
    using inner by (auto simp: registered_def)
  have neq: "sid2 \<noteq> sid" using att2 sess1 by (auto simp: attached_def)
  have sess2': "sessions (srv_net s2) =
      ((dec_ref ref (sessions (srv_net s)))(sid \<mapsto> (se, 1)))(sid2 \<mapsto> (se2, 1))"
    using sess2 sess1 dec_ref_twice [of sid _ se 1] by (simp add: numeral_2_eq_2)
  have gone: "dec_ref ref (sessions (srv_net s)) sid = None"
    using att1 by (auto simp: attached_def dec_ref_def split: option.splits)
  have here: "sessions (srv_net s2) sid = Some (se, 1)" using sess2' neq by simp
  define n3 where "n3 = Session_dtor os se (srv_net s2)\<lparr>sessions := (sessions (srv_net s2))(sid := None)\<rparr>"
  have drop: "try_net (session_drop os (Some sid)) s2 = Inr (s2\<lparr>srv_net := n3\<rparr>)"
    using session_drop_last [OF here] by (simp add: n3_def)
  have "net_inv X (srv_net s2)" using inner by (simp add: registered_def)
  then have inv3: "net_inv X n3" unfolding n3_def by (rule net_inv_drop [OF _ here refl])
  have pend: "pending (hist n3) = insert e (pending (hist (srv_net s)))"
    using inner first quiet_same(1) [OF Session_dtor_frame(3), of os se "srv_net s2"]
    by (simp add: registered_def tried_def n3_def)
  have "sessions n3 = (dec_ref ref (sessions (srv_net s)))(sid2 \<mapsto> (se2, 1))"
    using sess2' neq gone by (auto simp: n3_def fun_eq_iff)
  moreover have "sessions (srv_net s) sid2 = None"
  proof -
    have "dec_ref ref (sessions (srv_net s)) sid2 = None"
      using att2 sess1 neq by (simp add: attached_def)
    then show ?thesis by (auto simp: dec_ref_def split: option.splits if_splits)
  qed
  moreover have "events s2 = (events s)(e := map_option (\<lambda>ev. (IocpEvent_Init ev)\<lparr>session := Some sid2\<rparr>) (events s e))"
    using att1 att2 by (cases "events s e") (auto simp: attached_def IocpEvent_Init_def)
  ultimately have att3: "attached e sid2 s (s2\<lparr>srv_net := n3\<rparr>)"
    and sess3: "sessions n3 = (dec_ref ref (sessions (srv_net s)))(sid2 \<mapsto> (se2, 1))"
    by (simp_all add: attached_def)
  have "same_objects s (s2\<lparr>srv_net := n3\<rparr>)" "AcceptEx_fn n3 = AcceptEx_fn (srv_net s)"
    using inner first by (auto simp: registered_def tried_def same_objects_def n3_def)
  then have "registered X e ref s (s2\<lparr>srv_net := n3\<rparr>)"
    unfolding registered_def using inv3 pend att3 sess3
    by (intro conjI exI [of _ sid2] exI [of _ se2]) simp_all
  then show ?thesis using drop by blast
qed

lemma registered_first:
  assumes "tried X e ref False sid s s1"
  shows "\<exists>s2. try_net (session_drop os (Some sid)) s1 = Inr s2 \<and> registered X e ref s s2"
proof -
  obtain se where sess1: "sessions (srv_net s1) = (dec_ref ref (sessions (srv_net s)))(sid \<mapsto> (se, 2))"
    using assms by (auto simp: tried_def)
  define n2 where "n2 = (srv_net s1)\<lparr>sessions := dec_ref (Some sid) (sessions (srv_net s1))\<rparr>"
  have "session_drop os (Some sid) (srv_net s1) = Inr n2"
    unfolding n2_def by (rule session_drop_more) (simp add: sess1)
  then have drop: "try_net (session_drop os (Some sid)) s1 = Inr (s1\<lparr>srv_net := n2\<rparr>)" by simp
  have sess2: "sessions n2 = (dec_ref ref (sessions (srv_net s)))(sid \<mapsto> (se, 1))"
    using dec_ref_twice [of sid _ se 1] by (simp add: n2_def sess1 numeral_2_eq_2)
  have inv2: "net_inv X n2" unfolding n2_def
    by (rule net_inv_refs) (use assms in \<open>simp_all add: tried_def dec_ref_sockets\<close>)
  have "registered X e ref s (s1\<lparr>srv_net := n2\<rparr>)"
    unfolding registered_def using assms inv2 sess2
    by (auto simp: tried_def same_objects_def attached_def n2_def)
  then show ?thesis using drop by blast
qed

text \<open>If \<^verbatim>\<open>RegisterAccept\<close> returns, it has registered the event; it fails on a null session only.\<close>

lemma register_accept:
  assumes "RegisterAccept os lid e s = Some res"
    and "os_ok os" "registering X lid e ref s" "sessionFactory (svc s) = Some (make os)"
  shows "case res of
      Inl x \<Rightarrow> x = UB ''null SessionRef'' \<and>
        (\<exists>h c. result (os h (CreateIoCompletionPort c (iocpCore (svc s)))) = 0)
    | Inr s' \<Rightarrow> registered X e ref s s'"
  using assms
proof (induction arbitrary: ref rule: RegisterAccept.raw_induct [rotated, consumes 1, case_names step])
  case (step f os lid e s res)
  note ok = \<open>os_ok os\<close> and pre = \<open>registering X lid e ref s\<close> and fac = \<open>sessionFactory (svc s) = Some (make os)\<close>
  note body = step(2)
  consider (null) "RegisterAccept_try os lid e s = Inl (UB ''null SessionRef'')"
        "\<exists>h c. result (os h (CreateIoCompletionPort c (iocpCore (svc s)))) = 0"
    | (go) again sid s1 where "RegisterAccept_try os lid e s = Inr ((again, Some sid), s1)"
        "tried X e ref again sid s s1"
    using register_try [OF ok pre fac] by blast
  then show ?case
  proof cases
    case null
    then have "res = Inl (UB ''null SessionRef'')" using body by simp
    then show ?thesis using null(2) by simp
  next
    case go
    show ?thesis
    proof (cases again)
      case False
      obtain s2 where drop: "try_net (session_drop os (Some sid)) s1 = Inr s2"
          and reg: "registered X e ref s s2"
        using registered_first [of X e ref sid s s1 os] go(2) False by auto
      have "res = Inr s2" using body go(1) False drop by simp
      then show ?thesis using reg by simp
    next
      case True
      then have first: "tried X e ref True sid s s1" using go(2) by simp
      obtain r1 where inner: "f os lid e s1 = Some r1"
          and res: "res = and_then r1 (try_net (session_drop os (Some sid)))"
        using body go(1) True by (auto simp: Option.bind_eq_Some_conv)
      have fac1: "sessionFactory (svc s1) = Some (make os)"
        using first fac by (simp add: tried_def same_objects_def)
      have same: "svc s1 = svc s" using first by (simp add: tried_def same_objects_def)
      have IH: "case r1 of
          Inl x \<Rightarrow> x = UB ''null SessionRef'' \<and>
            (\<exists>h c. result (os h (CreateIoCompletionPort c (iocpCore (svc s1)))) = 0)
        | Inr s' \<Rightarrow> registered X e (Some sid) s1 s'"
        by (rule step(1) [OF inner ok tried_again [OF pre first] fac1])
      show ?thesis
      proof (cases r1)
        case (Inl x)
        then show ?thesis using IH res same by simp
      next
        case (Inr s2)
        then have "registered X e (Some sid) s1 s2" using IH by simp
        then obtain s3 where "try_net (session_drop os (Some sid)) s2 = Inr s3" "registered X e ref s s3"
          using registered_again [OF pre first] by blast
        then show ?thesis using res Inr by simp
      qed
    qed
  qed
qed

text \<open>It returns if the system accepts the event after a bounded number of refusals in a row.\<close>

lemma register_returns:
  assumes ok: "os_ok os"
    and patience: "\<And>h ls cs len l1 l2. N \<le> refusals e h \<Longrightarrow> accepted_by_system (os h (AcceptEx ls cs len l1 l2 e))"
  shows "registering X lid e ref s \<Longrightarrow> sessionFactory (svc s) = Some (make os) \<Longrightarrow>
    RegisterAccept os lid e s \<noteq> None"
proof (induction "N - refusals e (hist (srv_net s))" arbitrary: s ref rule: less_induct)
  case less
  note pre = \<open>registering X lid e ref s\<close> and fac = \<open>sessionFactory (svc s) = Some (make os)\<close>
  consider (null) "RegisterAccept_try os lid e s = Inl (UB ''null SessionRef'')"
    | (go) again sid s1 h ls cs where "RegisterAccept_try os lid e s = Inr ((again, Some sid), s1)"
        "tried X e ref again sid s s1" "refusals e h = refusals e (hist (srv_net s))"
        "again = (\<not> accepted_by_system (os h (AcceptEx ls cs 0 (16 + 16) (16 + 16) e)))"
    using register_try [OF ok pre fac] by blast
  then show ?case
  proof cases
    case null
    then show ?thesis by (simp add: RegisterAccept.simps)
  next
    case go
    show ?thesis
    proof (cases again)
      case False
      then show ?thesis using go(1) by (simp add: RegisterAccept.simps)
    next
      case True
      then have first: "tried X e ref True sid s s1" using go(2) by simp
      have "refusals e (hist (srv_net s)) < N"
        using patience [of h ls cs 0 "16 + 16" "16 + 16"] go(3,4) True by linarith
      moreover have "refusals e (hist (srv_net s1)) = Suc (refusals e (hist (srv_net s)))"
        using first by (simp add: tried_def)
      ultimately have "N - refusals e (hist (srv_net s1)) < N - refusals e (hist (srv_net s))" by simp
      moreover have "sessionFactory (svc s1) = Some (make os)"
        using first fac by (simp add: tried_def same_objects_def)
      ultimately have "RegisterAccept os lid e s1 \<noteq> None"
        using less(1) [OF _ tried_again [OF pre first]] by blast
      then show ?thesis using go(1) True by (subst RegisterAccept.simps) auto
    qed
  qed
qed

text \<open>It calls itself for ever if the system never accepts.\<close>

lemma register_diverges:
  assumes "RegisterAccept os lid e s = Some res"
    and "os_ok os" "registering X lid e ref s" "sessionFactory (svc s) = Some (make os)"
    and "\<And>h ls cs len l1 l2. \<not> accepted_by_system (os h (AcceptEx ls cs len l1 l2 e))"
    and "\<And>h x. result (os h (CreateIoCompletionPort x (iocpCore (svc s)))) \<noteq> 0"
  shows False
  using assms
proof (induction arbitrary: ref rule: RegisterAccept.raw_induct [rotated, consumes 1, case_names step])
  case (step f os lid e s res)
  note ok = step(3) and pre = step(4) and fac = step(5) and never = step(6) and port = step(7)
  obtain sid s1 where go: "RegisterAccept_try os lid e s = Inr ((True, Some sid), s1)"
      "tried X e ref True sid s s1"
    using register_try [OF ok pre fac] never port by auto
  obtain r1 where inner: "f os lid e s1 = Some r1"
    using step(2) go(1) by (auto simp: Option.bind_eq_Some_conv)
  have same: "svc s1 = svc s" using go(2) by (simp add: tried_def same_objects_def)
  show ?case
    by (rule step(1) [OF inner ok tried_again [OF pre go(2)]]) (use fac never port same in auto)
qed

end

end
