(* ===== verification/Serving.thy ===== *)
theory Serving
  imports Game_Server Accept_Steps
begin

text \<open>
  The states of a server that waits for clients, and why every operation leads from one to another:
  the loop of \<^verbatim>\<open>StartAccept\<close> adds an event with its session, a dispatch replaces the session
  of the completed event by a new one.
\<close>

section \<open>The invariant\<close>

definition event_session :: "server \<Rightarrow> nat \<Rightarrow> nat option" where
  "event_session s e = Option.bind (events s e) session"

definition event_ok :: "nat \<Rightarrow> server \<Rightarrow> nat \<Rightarrow> bool" where
  "event_ok lid s e \<longleftrightarrow>
     (\<exists>ev sid se. events s e = Some ev \<and> eventType ev = Accept \<and> owner ev = Some (Listener_object lid) \<and>
        session ev = Some sid \<and> sessions (srv_net s) sid = Some (se, 1))"

text \<open>
  One listener with \<open>k\<close> references; each of its events has a session of its own, which only the
  event refers to; there are no other events and no other sessions.
\<close>

definition serving :: "nat \<Rightarrow> listener \<Rightarrow> nat \<Rightarrow> server \<Rightarrow> bool" where
  "serving lid l k s \<longleftrightarrow>
     listeners s = [lid \<mapsto> (l, k)] \<and> has_service l \<and> listen_socket l \<noteq> INVALID_SOCKET \<and>
     distinct (acceptEvents l) \<and> dom (events s) = set (acceptEvents l) \<and>
     (\<forall>e \<in> set (acceptEvents l). e < events_made s \<and> event_ok lid s e) \<and>
     inj_on (event_session s) (set (acceptEvents l)) \<and>
     dom (sessions (srv_net s)) = {sid. \<exists>e \<in> set (acceptEvents l). event_session s e = Some sid} \<and>
     net_inv {listen_socket l} (srv_net s) \<and> AcceptEx_fn (srv_net s) \<noteq> 0"

lemma event_okD:
  assumes "event_ok lid s e"
  obtains ev sid se where "events s e = Some ev" "eventType ev = Accept"
    "owner ev = Some (Listener_object lid)" "session ev = Some sid"
    "event_session s e = Some sid" "sessions (srv_net s) sid = Some (se, 1)"
  using assms by (auto simp: event_ok_def event_session_def)

lemma event_session_upd:
  "events s' = (events s)(e \<mapsto> ev) \<Longrightarrow>
     event_session s' = (event_session s)(e := session ev)"
  by (auto simp: event_session_def fun_eq_iff)

lemma event_ok_frame:
  assumes "event_ok lid s e" "events s' e = events s e"
    and "\<And>x. event_session s e = Some x \<Longrightarrow> sessions (srv_net s') x = sessions (srv_net s) x"
  shows "event_ok lid s' e"
  using assms(1) by (rule event_okD) (use assms(2,3) in \<open>auto simp: event_ok_def\<close>)

lemma serving_fresh:
  assumes "serving lid l k s" "e \<in> set (acceptEvents l)" "sessions (srv_net s) sid = None"
  shows "event_session s e \<noteq> Some sid"
proof
  assume "event_session s e = Some sid"
  then have "sid \<in> dom (sessions (srv_net s))" using assms(1,2) by (auto simp: serving_def)
  then show False using assms(3) by auto
qed

text \<open>The event \<open>e\<close>, new or waiting with session \<open>a\<close>, gets the fresh session \<open>sid\<close>.\<close>

lemma serving_attach:
  assumes s: "serving lid l k s" and e: "e \<in> set (acceptEvents l)" "event_session s e = Some a"
    and same: "listeners s' = listeners s" "events_made s' = events_made s"
    and ev: "events s' = (events s)(e \<mapsto> ev)" "eventType ev = Accept"
      "owner ev = Some (Listener_object lid)" "session ev = Some sid"
    and sess: "sessions (srv_net s) sid = None"
      "sessions (srv_net s') = ((sessions (srv_net s))(a := None))(sid \<mapsto> (se, 1))"
    and inv: "net_inv {listen_socket l} (srv_net s')" "AcceptEx_fn (srv_net s') \<noteq> 0"
  shows "serving lid l k s'"
proof -
  have upd: "event_session s' = (event_session s)(e \<mapsto> sid)"
    using event_session_upd [OF ev(1)] ev(4) by simp
  note fresh = serving_fresh [OF s _ sess(1)]
  have only: "event_session s x \<noteq> Some a" if "x \<in> set (acceptEvents l)" "x \<noteq> e" for x
  proof -
    have inj: "inj_on (event_session s) (set (acceptEvents l))" using s by (simp add: serving_def)
    show ?thesis
    proof
      assume "event_session s x = Some a"
      then have "x = e" using inj_onD [OF inj, of x e] that(1) e by simp
      then show False using that(2) by simp
    qed
  qed
  have ok: "event_ok lid s' x" if x: "x \<in> set (acceptEvents l)" for x
  proof (cases "x = e")
    case True
    then show ?thesis using ev sess(2) by (auto simp: event_ok_def)
  next
    case False
    have "sessions (srv_net s') y = sessions (srv_net s) y" if "event_session s x = Some y" for y
      using only [OF x False] fresh [OF x] that by (auto simp: sess(2))
    moreover have "event_ok lid s x" using s x by (simp add: serving_def)
    moreover have "events s' x = events s x" using ev(1) False by simp
    ultimately show ?thesis by (rule event_ok_frame [rotated -1])
  qed
  have inj: "inj_on (event_session s') (set (acceptEvents l))"
  proof (rule inj_onI)
    fix x y assume xy: "x \<in> set (acceptEvents l)" "y \<in> set (acceptEvents l)"
      "event_session s' x = event_session s' y"
    show "x = y"
    proof (rule ccontr)
      assume "x \<noteq> y"
      have "inj_on (event_session s) (set (acceptEvents l))" using s by (simp add: serving_def)
      then show False
        using xy \<open>x \<noteq> y\<close> fresh [OF xy(1)] fresh [OF xy(2)]
        by (auto simp: upd dest: inj_onD split: if_splits)
    qed
  qed
  have dom_s: "dom (sessions (srv_net s)) = {sid. \<exists>e \<in> set (acceptEvents l). event_session s e = Some sid}"
    using s by (simp add: serving_def)
  have "dom (sessions (srv_net s')) = insert sid (dom (sessions (srv_net s)) - {a})"
    by (auto simp: sess(2))
  also have "\<dots> = {x. \<exists>e \<in> set (acceptEvents l). event_session s' e = Some x}"
    using e only by (auto simp: dom_s upd) (metis option.inject)
  finally have dom_s': "dom (sessions (srv_net s')) = {x. \<exists>e \<in> set (acceptEvents l). event_session s' e = Some x}" .
  have "dom (events s') = set (acceptEvents l)" using s e by (auto simp: ev(1) serving_def)
  then show ?thesis
    unfolding serving_def using s same ok inj dom_s' inv by (simp add: serving_def)
qed

lemma serving_add:
  assumes s: "serving lid l k s" and e: "e = events_made s" "l' = l\<lparr>acceptEvents := acceptEvents l @ [e]\<rparr>"
    and same: "listeners s' = [lid \<mapsto> (l', k + 1)]" "events_made s' = e + 1"
    and ev: "events s' = (events s)(e \<mapsto> ev)" "eventType ev = Accept"
      "owner ev = Some (Listener_object lid)" "session ev = Some sid"
    and sess: "sessions (srv_net s) sid = None"
      "sessions (srv_net s') = (sessions (srv_net s))(sid \<mapsto> (se, 1))"
    and inv: "net_inv {listen_socket l} (srv_net s')" "AcceptEx_fn (srv_net s') \<noteq> 0"
  shows "serving lid l' (k + 1) s'"
proof -
  have upd: "event_session s' = (event_session s)(e \<mapsto> sid)"
    using event_session_upd [OF ev(1)] ev(4) by simp
  have new: "e \<notin> set (acceptEvents l)" using s e by (auto simp: serving_def)
  note fresh = serving_fresh [OF s _ sess(1)]
  have ok: "event_ok lid s' x" if x: "x \<in> set (acceptEvents l')" for x
  proof (cases "x = e")
    case True
    then show ?thesis using ev sess(2) by (auto simp: event_ok_def)
  next
    case False
    then have x': "x \<in> set (acceptEvents l)" using x e by simp
    have "sessions (srv_net s') y = sessions (srv_net s) y" if "event_session s x = Some y" for y
      using fresh [OF x'] that by (auto simp: sess(2))
    moreover have "event_ok lid s x" using s x' by (simp add: serving_def)
    moreover have "events s' x = events s x" using ev(1) False by simp
    ultimately show ?thesis by (rule event_ok_frame [rotated -1])
  qed
  have inj0: "inj_on (event_session s) (set (acceptEvents l))" using s by (simp add: serving_def)
  have fresh': "Some sid \<noteq> event_session s x" if "x \<in> set (acceptEvents l)" for x
    using fresh [OF that] by simp
  have "inj_on (event_session s') (set (acceptEvents l'))"
    using inj0 new fresh fresh' unfolding e(2) by (auto simp: upd inj_on_def)
  moreover have "dom (sessions (srv_net s')) = {x. \<exists>e \<in> set (acceptEvents l'). event_session s' e = Some x}"
    using s new unfolding e(2) by (auto simp: sess(2) upd serving_def)
  moreover have "dom (events s') = set (acceptEvents l')"
    using s unfolding e(2) by (auto simp: ev(1) serving_def)
  moreover have "\<forall>x \<in> set (acceptEvents l'). x < events_made s'"
    using s e same(2) by (auto simp: serving_def)
  ultimately show ?thesis
    unfolding serving_def using s same ok inv e(2) new by (simp add: serving_def)
qed

text \<open>Calls and reference counts that the invariant does not depend on.\<close>

lemma serving_net:
  assumes "serving lid l k s" "sessions n = sessions (srv_net s)" "net_inv {listen_socket l} n"
    "AcceptEx_fn n \<noteq> 0"
  shows "serving lid l k (s\<lparr>srv_net := n\<rparr>)"
proof -
  have "event_session (s\<lparr>srv_net := n\<rparr>) = event_session s" by (simp add: event_session_def fun_eq_iff)
  moreover have "event_ok lid (s\<lparr>srv_net := n\<rparr>) e = event_ok lid s e" for e
    using assms(2) by (simp add: event_ok_def)
  ultimately show ?thesis using assms by (simp add: serving_def)
qed

lemma serving_refs:
  assumes "serving lid l k s"
  shows "serving lid l (f k) (listener_refs lid f s)"
proof -
  have "listeners (listener_refs lid f s) = [lid \<mapsto> (l, f k)]"
    using assms by (simp add: serving_def listener_refs_def fun_eq_iff)
  moreover have "event_session (listener_refs lid f s) = event_session s"
    by (simp add: event_session_def listener_refs_def fun_eq_iff)
  moreover have "event_ok lid (listener_refs lid f s) e = event_ok lid s e" for e
    by (simp add: event_ok_def listener_refs_def)
  ultimately show ?thesis using assms by (simp add: serving_def listener_refs_def)
qed

lemma listener_refs_frame [simp]:
  "srv_net (listener_refs lid f s) = srv_net s" "events (listener_refs lid f s) = events s"
  "svc (listener_refs lid f s) = svc s" "listeners_made (listener_refs lid f s) = listeners_made s"
  "events_made (listener_refs lid f s) = events_made s"
  "event_session (listener_refs lid f s) = event_session s"
  by (simp_all add: listener_refs_def event_session_def fun_eq_iff)

end
