(* ===== verification/Accept_Loop.thy ===== *)
theory Accept_Loop
  imports Serving
begin

text \<open>
  The handlers of theories \<open>Listener\<close> and \<open>Game_Server\<close> keep the invariant \<open>serving\<close>,
  again for any factory with the laws of \<open>session_factory\<close>.
\<close>

text \<open>What a handler may end with: not at all, with a null session, or in a good state.\<close>

definition ends_well :: "os \<Rightarrow> HANDLE \<Rightarrow> 'a run \<Rightarrow> ('a \<Rightarrow> bool) \<Rightarrow> bool" where
  "ends_well os core r good \<longleftrightarrow> (case r of
     None \<Rightarrow> True
   | Some (Inl x) \<Rightarrow> x = UB ''null SessionRef'' \<and>
       (\<exists>h c. result (os h (CreateIoCompletionPort c core)) = 0)
   | Some (Inr a) \<Rightarrow> good a)"

lemma ends_well_simps [simp]:
  "ends_well os core (Some (Inr a)) good \<longleftrightarrow> good a"
  "ends_well os core None good"
  by (simp_all add: ends_well_def)

lemma ends_well_mono:
  "ends_well os core r P \<Longrightarrow> (\<And>a. P a \<Longrightarrow> Q a) \<Longrightarrow> ends_well os core r Q"
  by (auto simp: ends_well_def split: option.splits sum.splits)

lemma ends_well_then:
  assumes "ends_well os core r P" "\<And>a. P a \<Longrightarrow> ends_well os core (f a) Q"
  shows "ends_well os core (run_then r f) Q"
proof (cases r)
  case (Some res)
  then show ?thesis using assms by (cases res) (simp_all add: ends_well_def)
qed simp

lemma ends_well_InlD:
  "ends_well os core (Some (Inl x)) good \<Longrightarrow> x = UB ''null SessionRef'' \<and>
     (\<exists>h c. result (os h (CreateIoCompletionPort c core)) = 0)"
  by (simp add: ends_well_def)

text \<open>
  The state after the completed event \<open>e\<close>, whose session was \<open>a\<close>, has been served: that session
  is destroyed, its socket closed by the last call made.
\<close>

definition served :: "nat \<Rightarrow> listener \<Rightarrow> nat \<Rightarrow> server \<Rightarrow> nat \<Rightarrow> nat \<Rightarrow> server \<Rightarrow> bool" where
  "served lid l k s e a s' \<longleftrightarrow> serving lid l k s' \<and> pending (hist (srv_net s')) = set (acceptEvents l) \<and>
     svc s' = svc s \<and> listeners_made s' = listeners_made s \<and>
     sessions (srv_net s') a = None \<and>
     (\<forall>se. sess_sock (srv_net s) a = Some se \<longrightarrow>
        (\<exists>r rest. hist (srv_net s') = (closesocket se, r) # rest))"

context session_factory begin

lemma register_ends_well:
  assumes "os_ok os" "registering X lid e ref s" "sessionFactory (svc s) = Some (make os)"
  shows "ends_well os (iocpCore (svc s)) (RegisterAccept os lid e s) (registered X e ref s)"
proof (cases "RegisterAccept os lid e s")
  case (Some res)
  then show ?thesis using register_accept [OF Some assms] by (cases res) (simp_all add: ends_well_def)
qed simp

lemma finish_accept:
  assumes ok: "os_ok os" and fac: "sessionFactory (svc s) = Some (make os)"
    and s: "serving lid l k s" and e: "e \<in> set (acceptEvents l)" "event_session s e = Some a"
    and pend: "pending (hist (srv_net s)) = set (acceptEvents l) - {e}"
    and n1: "sessions n1 = (sessions (srv_net s))(a \<mapsto> (se1, 2))"
      "sessions (srv_net s) a = Some (se, 1)" "sess_socket se1 = sess_socket se"
      "quiet (hist (srv_net s)) (hist n1)" "net_inv {listen_socket l} n1"
      "AcceptEx_fn n1 = AcceptEx_fn (srv_net s)"
  shows "ends_well os (iocpCore (svc s))
    (run_then (RegisterAccept os lid e (s\<lparr>srv_net := n1\<rparr>)) (\<lambda>s. Some (try_net (session_drop os (Some a)) s)))
    (served lid l k s e a)"
proof -
  define s1 where "s1 = s\<lparr>srv_net := n1\<rparr>"
  have okE: "event_ok lid s e" using s e by (simp add: serving_def)
  obtain ev where ev: "events s e = Some ev" "eventType ev = Accept"
      "owner ev = Some (Listener_object lid)" "session ev = Some a"
    using okE e(2) by (auto simp: event_ok_def event_session_def)
  have pre: "registering {listen_socket l} lid e (Some a) s1"
    using s ev n1 by (auto simp: registering_def s1_def serving_def)
  have "ends_well os (iocpCore (svc s1)) (RegisterAccept os lid e s1) (registered {listen_socket l} e (Some a) s1)"
    by (rule register_ends_well [OF ok pre]) (simp add: s1_def fac)
  then have reg: "ends_well os (iocpCore (svc s)) (RegisterAccept os lid e s1)
      (registered {listen_socket l} e (Some a) s1)" by (simp add: s1_def)
  show ?thesis unfolding s1_def [symmetric]
  proof (rule ends_well_then [OF reg])
    fix s2 assume two: "registered {listen_socket l} e (Some a) s1 s2"
    obtain sid sx where att: "attached e sid s1 s2"
        and sess2: "sessions (srv_net s2) = (dec_ref (Some a) (sessions (srv_net s1)))(sid \<mapsto> (sx, 1))"
      using two by (auto simp: registered_def)
    have neq: "sid \<noteq> a" and fresh: "sessions (srv_net s) sid = None"
      using att n1(1) by (auto simp: attached_def s1_def split: if_splits)
    have sess2': "sessions (srv_net s2) = ((sessions (srv_net s))(a \<mapsto> (se1, 1)))(sid \<mapsto> (sx, 1))"
      using sess2 dec_ref_twice [of a _ se1 1] by (simp add: s1_def n1(1) numeral_2_eq_2)
    have here: "sessions (srv_net s2) a = Some (se1, 1)" using sess2' neq by simp
    define n3 where "n3 = Session_dtor os se1 (srv_net s2)\<lparr>sessions := (sessions (srv_net s2))(a := None)\<rparr>"
    define s3 where "s3 = s2\<lparr>srv_net := n3\<rparr>"
    have drop: "try_net (session_drop os (Some a)) s2 = Inr s3"
      using session_drop_last [OF here] by (simp add: s3_def n3_def)
    have inv2: "net_inv {listen_socket l} (srv_net s2)" using two by (simp add: registered_def)
    have inv3: "net_inv {listen_socket l} n3"
      unfolding n3_def by (rule net_inv_drop [OF inv2 here refl])
    have same: "listeners s3 = listeners s" "events_made s3 = events_made s" "svc s3 = svc s"
        "listeners_made s3 = listeners_made s"
      using two by (simp_all add: registered_def same_objects_def s1_def s3_def)
    define ev' where "ev' = (IocpEvent_Init ev)\<lparr>session := Some sid\<rparr>"
    have evs: "events s3 = (events s)(e \<mapsto> ev')"
      using att ev by (simp add: attached_def s1_def s3_def ev'_def)
    have sess3: "sessions (srv_net s3) = ((sessions (srv_net s))(a := None))(sid \<mapsto> (sx, 1))"
      using sess2' neq by (auto simp: s3_def n3_def fun_eq_iff)
    have fn: "AcceptEx_fn (srv_net s3) \<noteq> 0"
      using two n1(6) s by (simp add: registered_def s1_def s3_def n3_def serving_def)
    have serv: "serving lid l k s3"
      by (rule serving_attach [OF s e same(1,2) evs _ _ _ fresh sess3 _ fn])
        (use ev inv3 in \<open>simp_all add: ev'_def s3_def IocpEvent_Init_def\<close>)
    have "pending (hist n3) = insert e (pending (hist n1))"
      using two quiet_same(1) [OF Session_dtor_frame(3), of os se1 "srv_net s2"]
      by (simp add: registered_def n3_def s1_def)
    then have pend3: "pending (hist (srv_net s3)) = set (acceptEvents l)"
      using pend quiet_same(1) [OF n1(4)] e(1) by (auto simp: s3_def)
    have "\<exists>r rest. hist (srv_net s3) = (closesocket sk, r) # rest"
      if "sess_sock (srv_net s) a = Some sk" for sk
      using that n1(2,3) by (auto simp: sess_sock_def s3_def n3_def Session_dtor_def Close_eq split: if_splits)
    then have "served lid l k s e a s3"
      using serv pend3 same sess3 neq by (simp add: served_def)
    then show "ends_well os (iocpCore (svc s)) (Some (try_net (session_drop os (Some a)) s2)) (served lid l k s e a)"
      by (simp add: drop)
  qed
qed

text \<open>Every branch of \<^verbatim>\<open>ProcessAccept\<close> registers the event again.\<close>

lemma process_steps:
  assumes s: "serving lid l k s" and e: "e \<in> set (acceptEvents l)" "event_session s e = Some a"
    and se: "sessions (srv_net s) a = Some (se, 1)"
  obtains n sx where "ProcessAccept os lid e s = run_then (RegisterAccept os lid e (s\<lparr>srv_net := n\<rparr>))
      (\<lambda>s. Some (try_net (session_drop os (Some a)) s))"
    "sessions n = (sessions (srv_net s))(a \<mapsto> (sx, 2))" "sess_socket sx = sess_socket se"
    "quiet (hist (srv_net s)) (hist n)" "net_inv {listen_socket l} n" "AcceptEx_fn n = AcceptEx_fn (srv_net s)"
proof -
  have "event_ok lid s e" using s e by (simp add: serving_def)
  then obtain ev where ev: "events s e = Some ev" "session ev = Some a"
    using e(2) by (auto simp: event_ok_def event_session_def)
  have l: "listeners s lid = Some (l, k)" using s by (simp add: serving_def)
  define n0 where "n0 = (srv_net s)\<lparr>sessions := (sessions (srv_net s))(a \<mapsto> (se, 2))\<rparr>"
  define after where "after = (\<lambda>n. run_then (RegisterAccept os lid e (s\<lparr>srv_net := n\<rparr>))
    (\<lambda>s. Some (try_net (session_drop os (Some a)) s)))"
  have inv: "net_inv {listen_socket l} (srv_net s)" using s by (simp add: serving_def)
  have inv0: "net_inv {listen_socket l} n0"
    unfolding n0_def by (rule net_inv_refs [OF inv]) (simp add: se)
  define c1 where "c1 = setsockopt (sess_socket se) SOL_SOCKET SO_UPDATE_ACCEPT_CONTEXT (Opt_socket (listen_socket l))"
  define r1 where "r1 = os (hist n0) c1"
  define n1 where "n1 = n0\<lparr>hist := (c1, r1) # hist n0\<rparr>"
  define c2 where "c2 = getpeername (sess_socket se)"
  define r2 where "r2 = os (hist n1) c2"
  define n2 where "n2 = n1\<lparr>hist := (c2, r2) # hist n1\<rparr>"
  define n3 where "n3 = set_session a (SetNetAddress (NetAddress_of (peer r2))) n2"
  define c4 where "c4 = print ''Client Connected!''"
  define n4 where "n4 = n3\<lparr>hist := (c4, os (hist n3) c4) # hist n3\<rparr>"
  have steps: "ProcessAccept os lid e s =
      (if result r1 = SOCKET_ERROR then after n1 else if result r2 = SOCKET_ERROR then after n2 else after n4)"
    using ev se l
    by (simp add: ProcessAccept_def n0_def after_def on_net_def SetUpdateAcceptSocket_def SetSockOpt_eq
        sys_def Let_def n1_def r1_def c1_def n2_def r2_def c2_def n3_def n4_def c4_def
        numeral_2_eq_2)
  define se4 where "se4 = SetNetAddress (NetAddress_of (peer r2)) se"
  have sess: "sessions n1 = (sessions (srv_net s))(a \<mapsto> (se, 2))"
      "sessions n2 = (sessions (srv_net s))(a \<mapsto> (se, 2))"
      "sessions n4 = (sessions (srv_net s))(a \<mapsto> (se4, 2))"
    by (auto simp: n1_def n2_def n4_def n3_def n0_def set_session_def se4_def)
  have sock4: "sess_socket se4 = sess_socket se" by (simp add: se4_def SetNetAddress_def)
  have quiet: "quiet (hist (srv_net s)) (hist n1)" "quiet (hist (srv_net s)) (hist n2)"
      "quiet (hist (srv_net s)) (hist n4)"
    by (auto simp: n1_def n2_def n4_def n3_def n0_def set_session_def c1_def c2_def c4_def)
  have inv1: "net_inv {listen_socket l} n1"
    unfolding n1_def by (rule net_inv_call [OF inv0]) (simp add: c1_def)
  have inv2: "net_inv {listen_socket l} n2"
    unfolding n2_def by (rule net_inv_call [OF inv1]) (simp add: c2_def)
  have inv3: "net_inv {listen_socket l} n3"
    unfolding n3_def set_session_def
    by (rule net_inv_refs [OF inv2]) (simp add: sess(2) SetNetAddress_def)
  have inv4: "net_inv {listen_socket l} n4"
    unfolding n4_def by (rule net_inv_call [OF inv3]) (simp add: c4_def)
  have fns: "AcceptEx_fn n1 = AcceptEx_fn (srv_net s)" "AcceptEx_fn n2 = AcceptEx_fn (srv_net s)"
      "AcceptEx_fn n4 = AcceptEx_fn (srv_net s)"
    by (simp_all add: n1_def n2_def n4_def n3_def n0_def set_session_def)
  consider "ProcessAccept os lid e s = after n1" | "ProcessAccept os lid e s = after n2"
    | "ProcessAccept os lid e s = after n4" using steps by presburger
  then show thesis
  proof cases
    case 1
    then show thesis unfolding after_def by (rule that [OF _ sess(1) refl quiet(1) inv1 fns(1)])
  next
    case 2
    then show thesis unfolding after_def by (rule that [OF _ sess(2) refl quiet(2) inv2 fns(2)])
  next
    case 3
    then show thesis unfolding after_def by (rule that [OF _ sess(3) sock4 quiet(3) inv4 fns(3)])
  qed
qed

lemma completed_session:
  assumes "serving lid l k s" "e \<in> set (acceptEvents l)"
  obtains a se where "event_session s e = Some a" "sessions (srv_net s) a = Some (se, 1)"
  using assms by (auto simp: serving_def event_ok_def event_session_def)

lemma process_accept:
  assumes ok: "os_ok os" and fac: "sessionFactory (svc s) = Some (make os)"
    and s: "serving lid l k s" and e: "e \<in> set (acceptEvents l)" "event_session s e = Some a"
    and pend: "pending (hist (srv_net s)) = set (acceptEvents l) - {e}"
  shows "ends_well os (iocpCore (svc s)) (ProcessAccept os lid e s) (served lid l k s e a)"
proof -
  obtain se where se: "sessions (srv_net s) a = Some (se, 1)"
    using completed_session [OF s e(1)] e(2) by auto
  obtain n sx where n: "ProcessAccept os lid e s = run_then (RegisterAccept os lid e (s\<lparr>srv_net := n\<rparr>))
      (\<lambda>s. Some (try_net (session_drop os (Some a)) s))"
    "sessions n = (sessions (srv_net s))(a \<mapsto> (sx, 2))" "sess_socket sx = sess_socket se"
    "quiet (hist (srv_net s)) (hist n)" "net_inv {listen_socket l} n" "AcceptEx_fn n = AcceptEx_fn (srv_net s)"
    using process_steps [OF s e se] by blast
  show ?thesis unfolding n(1)
    by (rule finish_accept [OF ok fac s e pend n(2) se n(3-6)])
qed

text \<open>Whether it returns depends on the system's patience with the event only.\<close>

lemma process_registering:
  assumes "serving lid l k s" "e \<in> set (acceptEvents l)" "event_session s e = Some a"
    and "sessions n = (sessions (srv_net s))(a \<mapsto> (sx, 2))"
    and "net_inv {listen_socket l} n" "AcceptEx_fn n = AcceptEx_fn (srv_net s)"
  shows "registering {listen_socket l} lid e (Some a) (s\<lparr>srv_net := n\<rparr>)"
  using assms by (auto simp: registering_def serving_def event_session_def bind_eq_Some_conv)

lemma process_returns:
  assumes ok: "os_ok os" and fac: "sessionFactory (svc s) = Some (make os)"
    and s: "serving lid l k s" and e: "e \<in> set (acceptEvents l)"
    and patience: "\<And>h ls cs len l1 l2. N \<le> refusals e h \<Longrightarrow> accepted_by_system (os h (AcceptEx ls cs len l1 l2 e))"
  shows "ProcessAccept os lid e s \<noteq> None"
proof -
  obtain a se where a: "event_session s e = Some a" "sessions (srv_net s) a = Some (se, 1)"
    using completed_session [OF s e] by blast
  obtain n sx where n: "ProcessAccept os lid e s = run_then (RegisterAccept os lid e (s\<lparr>srv_net := n\<rparr>))
      (\<lambda>s. Some (try_net (session_drop os (Some a)) s))"
    "sessions n = (sessions (srv_net s))(a \<mapsto> (sx, 2))" "sess_socket sx = sess_socket se"
    "quiet (hist (srv_net s)) (hist n)" "net_inv {listen_socket l} n" "AcceptEx_fn n = AcceptEx_fn (srv_net s)"
    using process_steps [OF s e a] by blast
  have "RegisterAccept os lid e (s\<lparr>srv_net := n\<rparr>) \<noteq> None"
    by (rule register_returns [OF ok patience process_registering [OF s e a(1) n(2,5,6)]]) (simp_all add: fac)
  then show ?thesis unfolding n(1) by (auto simp: run_then_def split: sum.splits)
qed

lemma process_diverges:
  assumes ok: "os_ok os" and fac: "sessionFactory (svc s) = Some (make os)"
    and s: "serving lid l k s" and e: "e \<in> set (acceptEvents l)"
    and never: "\<And>h ls cs len l1 l2. \<not> accepted_by_system (os h (AcceptEx ls cs len l1 l2 e))"
    and port: "\<And>h x. result (os h (CreateIoCompletionPort x (iocpCore (svc s)))) \<noteq> 0"
  shows "ProcessAccept os lid e s = None"
proof -
  obtain a se where a: "event_session s e = Some a" "sessions (srv_net s) a = Some (se, 1)"
    using completed_session [OF s e] by blast
  obtain n sx where n: "ProcessAccept os lid e s = run_then (RegisterAccept os lid e (s\<lparr>srv_net := n\<rparr>))
      (\<lambda>s. Some (try_net (session_drop os (Some a)) s))"
    "sessions n = (sessions (srv_net s))(a \<mapsto> (sx, 2))" "sess_socket sx = sess_socket se"
    "quiet (hist (srv_net s)) (hist n)" "net_inv {listen_socket l} n" "AcceptEx_fn n = AcceptEx_fn (srv_net s)"
    using process_steps [OF s e a] by blast
  have "RegisterAccept os lid e (s\<lparr>srv_net := n\<rparr>) = None"
  proof (cases "RegisterAccept os lid e (s\<lparr>srv_net := n\<rparr>)")
    case (Some res)
    have False
      by (rule register_diverges [OF Some ok process_registering [OF s e a(1) n(2,5,6)]])
        (use fac never port in auto)
    then show ?thesis ..
  qed simp
  then show ?thesis unfolding n(1) by simp
qed

text \<open>The loop of \<^verbatim>\<open>StartAccept\<close>.\<close>

lemma add_accept_start:
  assumes s: "serving lid l k s" and e: "e = events_made s" "l' = l\<lparr>acceptEvents := acceptEvents l @ [e]\<rparr>"
    and ev: "ev = AcceptEvent_ctor (IocpEvent.make 0 0 0 0 0 Accept None)\<lparr>owner := Some (Listener_object lid)\<rparr>"
    and s1: "s1 = s\<lparr>events_made := e + 1, events := (events s)(e \<mapsto> ev), listeners := [lid \<mapsto> (l', k + 1)]\<rparr>"
  shows "add_accept os lid s = RegisterAccept os lid e s1"
    and "registering {listen_socket l} lid e None s1"
    and "eventType ev = Accept" "owner ev = Some (Listener_object lid)" "session ev = None"
proof -
  have "listeners s = [lid \<mapsto> (l, k)]" using s by (simp add: serving_def)
  then show "add_accept os lid s = RegisterAccept os lid e s1"
    by (simp add: add_accept_def Let_def s1 e ev listener_refs_def set_listener_def)
  show ev: "eventType ev = Accept" "owner ev = Some (Listener_object lid)" "session ev = None"
    by (simp_all add: ev AcceptEvent_ctor_eq)
  show "registering {listen_socket l} lid e None s1"
    using s ev(3) by (auto simp: registering_def s1 e(2) serving_def)
qed

lemma add_accept_ends_well:
  assumes ok: "os_ok os" and fac: "sessionFactory (svc s) = Some (make os)"
    and s: "serving lid l k s" and pend: "pending (hist (srv_net s)) = set (acceptEvents l)"
  shows "ends_well os (iocpCore (svc s)) (add_accept os lid s) (\<lambda>s'. \<exists>l'. serving lid l' (k + 1) s' \<and>
    pending (hist (srv_net s')) = set (acceptEvents l') \<and> length (acceptEvents l') = length (acceptEvents l) + 1 \<and>
    listen_socket l' = listen_socket l \<and> svc s' = svc s \<and> listeners_made s' = listeners_made s)"
proof -
  define e where "e = events_made s"
  define l' where "l' = l\<lparr>acceptEvents := acceptEvents l @ [e]\<rparr>"
  define ev where "ev = AcceptEvent_ctor (IocpEvent.make 0 0 0 0 0 Accept None)\<lparr>owner := Some (Listener_object lid)\<rparr>"
  define s1 where "s1 = s\<lparr>events_made := e + 1, events := (events s)(e \<mapsto> ev), listeners := [lid \<mapsto> (l', k + 1)]\<rparr>"
  note start = add_accept_start [OF s e_def l'_def ev_def s1_def]
  note ev = start(3-5)
  have reg: "ends_well os (iocpCore (svc s1)) (RegisterAccept os lid e s1) (registered {listen_socket l} e None s1)"
    by (rule register_ends_well [OF ok start(2)]) (simp add: s1_def fac)
  have core: "svc s1 = svc s" by (simp add: s1_def)
  show ?thesis unfolding start(1)
  proof (rule ends_well_mono [OF reg [unfolded core]])
    fix s2 assume two: "registered {listen_socket l} e None s1 s2"
    obtain sid sx where att: "attached e sid s1 s2"
        and sess: "sessions (srv_net s2) = (sessions (srv_net s))(sid \<mapsto> (sx, 1))"
      using two by (auto simp: registered_def s1_def)
    define ev' where "ev' = (IocpEvent_Init ev)\<lparr>session := Some sid\<rparr>"
    have evs: "events s2 = (events s)(e \<mapsto> ev')"
      using att by (simp add: attached_def s1_def ev'_def)
    have "serving lid l' (k + 1) s2"
    proof (rule serving_add [OF s e_def l'_def _ _ evs])
      show "sessions (srv_net s) sid = None" using att by (simp add: attached_def s1_def)
      show "AcceptEx_fn (srv_net s2) \<noteq> 0" using two s by (simp add: registered_def s1_def serving_def)
    qed (use two ev sess in \<open>simp_all add: registered_def same_objects_def s1_def ev'_def IocpEvent_Init_def\<close>)
    moreover have "pending (hist (srv_net s2)) = set (acceptEvents l')"
      using two pend by (simp add: registered_def s1_def l'_def)
    ultimately show "\<exists>l'. serving lid l' (k + 1) s2 \<and> pending (hist (srv_net s2)) = set (acceptEvents l') \<and>
        length (acceptEvents l') = length (acceptEvents l) + 1 \<and> listen_socket l' = listen_socket l \<and>
        svc s2 = svc s \<and> listeners_made s2 = listeners_made s"
      using two by (intro exI [of _ l']) (simp add: l'_def registered_def same_objects_def s1_def)
  qed
qed

lemma accept_loop_ends_well:
  assumes ok: "os_ok os"
  shows "sessionFactory (svc s) = Some (make os) \<Longrightarrow> serving lid l k s \<Longrightarrow>
    pending (hist (srv_net s)) = set (acceptEvents l) \<Longrightarrow>
    ends_well os (iocpCore (svc s)) (accept_loop n os lid s) (\<lambda>s'. \<exists>l'. serving lid l' (k + n) s' \<and>
      pending (hist (srv_net s')) = set (acceptEvents l') \<and> length (acceptEvents l') = length (acceptEvents l) + n \<and>
      listen_socket l' = listen_socket l \<and> svc s' = svc s \<and> listeners_made s' = listeners_made s)"
proof (induction n arbitrary: s l k)
  case 0
  then show ?case by auto
next
  case (Suc n)
  show ?case unfolding accept_loop.simps
  proof (rule ends_well_then [OF add_accept_ends_well [OF ok Suc.prems]])
    fix s1 assume "\<exists>l'. serving lid l' (k + 1) s1 \<and>
      pending (hist (srv_net s1)) = set (acceptEvents l') \<and> length (acceptEvents l') = length (acceptEvents l) + 1 \<and>
      listen_socket l' = listen_socket l \<and> svc s1 = svc s \<and> listeners_made s1 = listeners_made s"
    then obtain l1 where l1: "serving lid l1 (k + 1) s1" "pending (hist (srv_net s1)) = set (acceptEvents l1)"
        "length (acceptEvents l1) = length (acceptEvents l) + 1" "listen_socket l1 = listen_socket l"
        "svc s1 = svc s" "listeners_made s1 = listeners_made s" by blast
    have fac: "sessionFactory (svc s1) = Some (make os)" using Suc.prems(1) l1(5) by simp
    show "ends_well os (iocpCore (svc s)) (accept_loop n os lid s1) (\<lambda>s'. \<exists>l'. serving lid l' (k + Suc n) s' \<and>
      pending (hist (srv_net s')) = set (acceptEvents l') \<and> length (acceptEvents l') = length (acceptEvents l) + Suc n \<and>
      listen_socket l' = listen_socket l \<and> svc s' = svc s \<and> listeners_made s' = listeners_made s)"
      using Suc.IH [OF fac l1(1,2)] l1 by simp
  qed
qed

lemma accept_loop_returns:
  assumes ok: "os_ok os"
    and patience: "\<And>e h ls cs len l1 l2. N \<le> refusals e h \<Longrightarrow> accepted_by_system (os h (AcceptEx ls cs len l1 l2 e))"
  shows "sessionFactory (svc s) = Some (make os) \<Longrightarrow> serving lid l k s \<Longrightarrow>
    pending (hist (srv_net s)) = set (acceptEvents l) \<Longrightarrow> accept_loop n os lid s \<noteq> None"
proof (induction n arbitrary: s l k)
  case (Suc n)
  note fac = Suc.prems(1) and s = Suc.prems(2) and pend = Suc.prems(3)
  note start = add_accept_start [OF s refl refl refl refl]
  have "add_accept os lid s \<noteq> None" unfolding start(1)
    by (rule register_returns [OF ok patience start(2)]) (simp_all add: fac)
  moreover have "accept_loop n os lid s1 \<noteq> None" if "add_accept os lid s = Some (Inr s1)" for s1
    using add_accept_ends_well [OF ok fac s pend] that Suc.IH fac by auto
  ultimately show ?case by (auto simp: run_then_None_iff)
qed simp

text \<open>A dispatched completion.\<close>

lemma dispatch_steps:
  assumes s: "serving lid l k s" and e: "e \<in> set (acceptEvents l)"
  shows "dispatch_event os (Some e) bytes s =
      run_then (ProcessAccept os lid e (listener_refs lid Suc s)) (\<lambda>s. Some (listener_drop os lid s))"
proof -
  have "event_ok lid s e" using s e by (simp add: serving_def)
  then obtain ev where "events s e = Some ev" "eventType ev = Accept"
      "owner ev = Some (Listener_object lid)"
    by (auto simp: event_ok_def)
  moreover have "listeners s lid = Some (l, k)" using s by (simp add: serving_def)
  ultimately show ?thesis by (simp add: dispatch_event_def object_copy_def object_Dispatch_def
        object_drop_def Listener_Dispatch_def)
qed

lemma dispatch_event_ends_well:
  assumes ok: "os_ok os" and fac: "sessionFactory (svc s) = Some (make os)"
    and s: "serving lid l k s" "1 \<le> k" and e: "e \<in> set (acceptEvents l)" "event_session s e = Some a"
    and pend: "pending (hist (srv_net s)) = set (acceptEvents l) - {e}"
  shows "ends_well os (iocpCore (svc s)) (dispatch_event os (Some e) bytes s) (served lid l k s e a)"
proof -
  define s1 where "s1 = listener_refs lid Suc s"
  have s1: "serving lid l (Suc k) s1" unfolding s1_def by (rule serving_refs [OF s(1)])
  have proc: "ends_well os (iocpCore (svc s)) (ProcessAccept os lid e s1) (served lid l (Suc k) s1 e a)"
    using process_accept [OF ok _ s1 e(1), of a] fac e(2) pend by (simp add: s1_def)
  show ?thesis unfolding dispatch_steps [OF s(1) e(1)] s1_def [symmetric]
  proof (rule ends_well_then [OF proc])
    fix s2 assume two: "served lid l (Suc k) s1 e a s2"
    then have serv: "serving lid l (Suc k) s2" by (simp add: served_def)
    then have "listener_drop os lid s2 = Inr (listener_refs lid (\<lambda>k. k - 1) s2)"
      using s(2) by (simp add: listener_drop_def serving_def)
    moreover have "serving lid l k (listener_refs lid (\<lambda>k. k - 1) s2)"
      using serving_refs [OF serv, of "\<lambda>k. k - 1"] by simp
    ultimately show "ends_well os (iocpCore (svc s)) (Some (listener_drop os lid s2)) (served lid l k s e a)"
      using two by (simp add: served_def s1_def)
  qed
qed

end

end
