(* ===== verification/Server_Run.thy ===== *)
theory Server_Run
  imports Accept_Loop
begin

text \<open>
  The start of a server and its runs. \<open>server_run\<close> are the states that a server reaches from an
  empty process: \<^verbatim>\<open>SocketUtils::Init\<close>, a completion port, a \<^verbatim>\<open>ServerService\<close> whose factory
  is \<^verbatim>\<open>MakeShared<Session>\<close>, a successful \<^verbatim>\<open>Start\<close>, and then any number of calls of
  \<^verbatim>\<open>IocpCore::Dispatch\<close>.
\<close>

section \<open>Initialisation of WinSock\<close>

definition new_world :: world where
  "new_world = \<lparr>hist = [], ConnectEx_fn = 0, DisconnectEx_fn = 0, AcceptEx_fn = 0\<rparr>"

lemma winsock_init_ok:
  assumes ok: "os_ok os" and init: "SocketUtils_Init os w = Inr w'"
  shows "ConnectEx_fn w' \<noteq> 0 \<and> DisconnectEx_fn w' \<noteq> 0 \<and> AcceptEx_fn w' \<noteq> 0 \<and>
    unclosed (hist w') = unclosed (hist w) \<and> quiet (hist w) (hist w') \<and>
    (closes_ok (hist w) \<longrightarrow> closes_ok (hist w'))"
proof -
  define c0 where "c0 = WSAStartup 0x0202"
  define h0 where "h0 = (c0, os (hist w) c0) # hist w"
  define c1 where "c1 = WSASocket AF_INET SOCK_STREAM IPPROTO_TCP WSA_FLAG_OVERLAPPED"
  define d where "d = result (os h0 c1)"
  define h1 where "h1 = (c1, os h0 c1) # h0"
  define ioctl where "ioctl = (\<lambda>g h. (WSAIoctl d g, os h (WSAIoctl d g)) # h)"
  define h2 where "h2 = ioctl WSAID_CONNECTEX h1"
  define h3 where "h3 = ioctl WSAID_DISCONNECTEX h2"
  define h4 where "h4 = ioctl WSAID_ACCEPTEX h3"
  define h5 where "h5 = (if d = INVALID_SOCKET then h4 else (closesocket d, os h4 (closesocket d)) # h4)"
  have w': "ConnectEx_fn w' \<noteq> 0 \<and> DisconnectEx_fn w' \<noteq> 0 \<and> AcceptEx_fn w' \<noteq> 0 \<and> hist w' = h5"
    using init os_ok_extension [OF ok]
    by (auto simp: SocketUtils_Init_def sys_def Let_def CreateSocket_eq Close_eq bind_or_crash_Inr
        outcome_simps c0_def h0_def c1_def d_def h1_def ioctl_def h2_def h3_def h4_def h5_def)
  have same: "unclosed h4 = unclosed h1" "closes_ok h4 = closes_ok h1" "quiet h0 h4"
    by (simp_all add: h4_def h3_def h2_def h1_def ioctl_def c1_def)
  have first: "unclosed h0 = unclosed (hist w)" "closes_ok h0 = closes_ok (hist w)" "quiet (hist w) h0"
    by (simp_all add: h0_def c0_def)
  have fresh: "d \<notin> unclosed h0" using os_ok_socket(1) [OF ok] by (simp add: d_def c1_def)
  have dummy: "unclosed h1 = (if d = INVALID_SOCKET then unclosed h0 else insert d (unclosed h0))"
      "closes_ok h1 = closes_ok h0"
    by (simp_all add: h1_def c1_def d_def)
  have "unclosed h5 = unclosed (hist w)" "closes_ok h5 = closes_ok (hist w)"
    using same first dummy fresh by (auto simp: h5_def)
  moreover have "quiet (hist w) h5"
    using quiet_trans [OF first(3) same(3)] by (simp add: h5_def)
  ultimately show ?thesis using w' by simp
qed

section \<open>The calls of StartAccept\<close>

text \<open>Calls after each other until one of them fails.\<close>

fun call_all :: "os \<Rightarrow> (call \<times> (reply \<Rightarrow> bool)) list \<Rightarrow> history \<Rightarrow> bool \<times> history" where
  "call_all os [] h = (True, h)"
| "call_all os ((c, good) # cs) h = (let r = os h c; h' = (c, r) # h
     in if good r then call_all os cs h' else (False, h'))"

definition make_socket :: call where
  "make_socket = WSASocket AF_INET SOCK_STREAM IPPROTO_TCP WSA_FLAG_OVERLAPPED"

definition start_calls :: "SOCKET \<Rightarrow> server_service \<Rightarrow> (call \<times> (reply \<Rightarrow> bool)) list" where
  "start_calls sk sv =
     [(make_socket, \<lambda>r. result r \<noteq> INVALID_SOCKET),
      (CreateIoCompletionPort sk (iocpCore sv), \<lambda>r. result r \<noteq> 0),
      (setsockopt sk SOL_SOCKET SO_REUSEADDR (Opt_bool True), \<lambda>r. result r \<noteq> SOCKET_ERROR),
      (setsockopt sk SOL_SOCKET SO_LINGER (Opt_linger 0 0), \<lambda>r. result r \<noteq> SOCKET_ERROR),
      (sock_bind sk (netAddress sv), \<lambda>r. result r \<noteq> SOCKET_ERROR),
      (sock_listen sk SOMAXCONN, \<lambda>r. result r \<noteq> SOCKET_ERROR)]"

lemma set_listener_set:
  "listeners s lid = Some (l, k) \<Longrightarrow> set_listener lid f s = s\<lparr>listeners := (listeners s)(lid \<mapsto> (f l, k))\<rparr>"
  by (simp add: set_listener_def)

lemma start_socket_eq:
  assumes "listeners s lid = Some (l, k)"
    and "sk = result (os (hist (srv_net s)) make_socket)"
    and "(ok, h) = call_all os (start_calls sk (svc s)) (hist (srv_net s))"
  shows "StartAccept_socket os lid True s = (ok, s\<lparr>srv_net := (srv_net s)\<lparr>hist := h\<rparr>,
      listeners := (listeners s)(lid \<mapsto> (l\<lparr>has_service := True, listen_socket := sk\<rparr>, k))\<rparr>) \<and>
    (sk \<noteq> INVALID_SOCKET \<longrightarrow> sk \<in> unclosed h)"
  using assms
  by (simp add: StartAccept_socket_def set_listener_set on_net_def start_calls_def make_socket_def
      CreateSocket_eq IocpCore_Register_eq SetReuseAddress_def SetLinger_def SetSockOpt_eq Bind_eq
      Listen_eq GetIocpCore_def GetNetAddress_def Let_def split: if_splits)

section \<open>A started server\<close>

text \<open>The state of the network before a server is made.\<close>

definition fresh_net :: "net \<Rightarrow> bool" where
  "fresh_net n \<longleftrightarrow> unclosed (hist n) = {} \<and> closes_ok (hist n) \<and> pending (hist n) = {} \<and>
     sessions n = (\<lambda>_. None) \<and> AcceptEx_fn n \<noteq> 0"

lemma call_all_quiet:
  assumes "call_all os cs h = (b, h')" "\<forall>(c, good) \<in> set cs. \<not> completes c"
  shows "quiet h h'"
  using assms
proof (induction cs arbitrary: h)
  case (Cons x cs)
  obtain c good where x: "x = (c, good)" by (cases x) auto
  then have "quiet h ((c, os h c) # h)" using Cons.prems(2) by auto
  moreover have "quiet ((c, os h c) # h) h'" if "good (os h c)"
    using Cons x that by (auto simp: Let_def)
  ultimately show ?case using Cons.prems(1) x quiet_trans by (auto simp: Let_def split: if_splits)
qed auto

lemma call_all_sockets:
  assumes "call_all os cs h = (b, h')" "\<forall>(c, good) \<in> set cs. \<not> socket_call c"
  shows "unclosed h' = unclosed h \<and> closes_ok h' = closes_ok h"
  using assms
proof (induction cs arbitrary: h)
  case (Cons x cs)
  obtain c good where x: "x = (c, good)" by (cases x) auto
  show ?case
  proof (cases "good (os h c)")
    case True
    then show ?thesis using Cons.IH [of "(c, os h c) # h"] Cons.prems x by (auto simp: Let_def)
  next
    case False
    then show ?thesis using Cons.prems x by (auto simp: Let_def)
  qed
qed auto

lemma start_listening:
  assumes ok: "os_ok os" and n: "fresh_net n"
    and h: "(True, h) = call_all os (start_calls sk sv) (hist n)"
    and sk: "sk = result (os (hist n) make_socket)"
  shows "sk \<noteq> INVALID_SOCKET \<and> unclosed h = {sk} \<and> closes_ok h \<and> pending h = {}"
proof -
  define h1 where "h1 = (make_socket, os (hist n) make_socket) # hist n"
  have valid: "sk \<noteq> INVALID_SOCKET" and rest: "call_all os (tl (start_calls sk sv)) h1 = (True, h)"
    using h by (simp_all add: start_calls_def h1_def sk Let_def split: if_splits)
  have "unclosed h = unclosed h1 \<and> closes_ok h = closes_ok h1"
    by (rule call_all_sockets [OF rest]) (simp add: start_calls_def)
  moreover have "unclosed h1 = {sk}" "closes_ok h1"
    using n valid by (simp_all add: fresh_net_def h1_def make_socket_def sk)
  moreover have "quiet (hist n) h"
    by (rule call_all_quiet [OF h [symmetric]]) (simp add: start_calls_def make_socket_def)
  ultimately show ?thesis using valid quiet_same(1) n by (simp add: fresh_net_def)
qed

context session_factory begin

text \<open>\<^verbatim>\<open>Start\<close> of a new server: the six calls, then, if they succeed, the loop.\<close>

lemma start_steps:
  assumes ok: "os_ok os" and n: "fresh_net n"
    and sv: "sessionFactory sv = Some (make os)" "listener_ref sv = None"
    and sk: "sk = result (os (hist n) make_socket)"
    and call: "(b, h) = call_all os (start_calls sk sv) (hist n)"
  obtains s1 l where
    "ServerService_Start os (new_server n sv) = (if \<not> b then Some (Inr (False, s1))
       else run_then (accept_loop (nat (maxSessionCount sv)) os 0 s1) (\<lambda>s. Some (Inr (True, s))))"
    "svc s1 = sv\<lparr>listener_ref := Some 0\<rparr>" "acceptEvents l = []"
    "b \<Longrightarrow> serving 0 l 1 s1" "b \<Longrightarrow> pending (hist (srv_net s1)) = set (acceptEvents l)"
proof -
  define sv' where "sv' = sv\<lparr>listener_ref := Some 0\<rparr>"
  define s0 where "s0 = (new_server n sv)\<lparr>listeners := [0 \<mapsto> (new_listener, 1)], listeners_made := 1, svc := sv'\<rparr>"
  define l where "l = new_listener\<lparr>has_service := True, listen_socket := sk\<rparr>"
  define s1 where "s1 = s0\<lparr>srv_net := (srv_net s0)\<lparr>hist := h\<rparr>, listeners := [0 \<mapsto> (l, 1)]\<rparr>"
  have net0: "srv_net s0 = n" "svc s0 = sv'" by (simp_all add: s0_def new_server_def)
  have call0: "(b, h) = call_all os (start_calls sk (svc s0)) (hist (srv_net s0))"
    using call by (simp add: net0 sv'_def start_calls_def)
  have sk0: "sk = result (os (hist (srv_net s0)) make_socket)" by (simp add: net0 sk)
  have "StartAccept_socket os 0 True s0 = (b, s0\<lparr>srv_net := (srv_net s0)\<lparr>hist := h\<rparr>,
      listeners := (listeners s0)(0 \<mapsto> (new_listener\<lparr>has_service := True, listen_socket := sk\<rparr>, 1))\<rparr>)"
    using start_socket_eq [OF _ sk0 call0, of 0 new_listener 1] by (simp add: s0_def)
  then have sock: "StartAccept_socket os 0 True s0 = (b, s1)"
    by (simp add: s1_def l_def s0_def)
  have svc1: "svc s1 = sv'" by (simp add: s1_def net0)
  have steps: "ServerService_Start os (new_server n sv) = (if \<not> b then Some (Inr (False, s1))
       else run_then (accept_loop (nat (maxSessionCount sv)) os 0 s1) (\<lambda>s. Some (Inr (True, s))))"
  proof -
    have "ServerService_Start os (new_server n sv) = StartAccept os 0 True s0"
      using sv by (simp add: ServerService_Start_def CanStart_def new_server_def s0_def sv'_def Let_def)
    then show ?thesis by (simp add: StartAccept_def sock GetMaxSessionCount_def svc1 sv'_def)
  qed
  have good: "sk \<noteq> INVALID_SOCKET \<and> unclosed h = {sk} \<and> closes_ok h \<and> pending h = {}" if b
    using start_listening [OF ok n, of h sk sv] call that by (simp add: sk)
  have "sess_sock ((srv_net s0)\<lparr>hist := h\<rparr>) = (\<lambda>_. None)"
    using n by (simp add: sess_sock_def net0 fresh_net_def fun_eq_iff)
  then have inv: "net_inv {sk} ((srv_net s0)\<lparr>hist := h\<rparr>)" if b
    using good [OF that] n by (simp add: net_inv_def net0 fresh_net_def)
  have "serving 0 l 1 s1" if b
    using good [OF that] n inv [OF that]
    by (simp add: serving_def s1_def l_def new_listener_def s0_def new_server_def
          fresh_net_def fun_eq_iff)
  moreover have "pending (hist (srv_net s1)) = set (acceptEvents l)" if b
    using good [OF that] by (simp add: s1_def l_def new_listener_def)
  moreover have "acceptEvents l = []" by (simp add: l_def new_listener_def)
  ultimately show thesis using that [OF steps] svc1 by (simp add: sv'_def)
qed

lemma start_ends_well:
  assumes ok: "os_ok os" and n: "fresh_net n"
    and sv: "sessionFactory sv = Some (make os)" "listener_ref sv = None"
    and call: "(c, h) = call_all os (start_calls (result (os (hist n) make_socket)) sv) (hist n)"
  shows "ends_well os (iocpCore sv) (ServerService_Start os (new_server n sv)) (\<lambda>(b, s').
    b = c \<and> (b \<longrightarrow> (\<exists>l. serving 0 l (1 + nat (maxSessionCount sv)) s' \<and>
      pending (hist (srv_net s')) = set (acceptEvents l) \<and>
      length (acceptEvents l) = nat (maxSessionCount sv) \<and> svc s' = sv\<lparr>listener_ref := Some 0\<rparr>)))"
proof (rule start_steps [OF ok n sv refl call])
  fix s1 l
  assume steps: "ServerService_Start os (new_server n sv) = (if \<not> c then Some (Inr (False, s1))
       else run_then (accept_loop (nat (maxSessionCount sv)) os 0 s1) (\<lambda>s. Some (Inr (True, s))))"
    and svc1: "svc s1 = sv\<lparr>listener_ref := Some 0\<rparr>" and l: "acceptEvents l = []"
    and s1: "c \<Longrightarrow> serving 0 l 1 s1" "c \<Longrightarrow> pending (hist (srv_net s1)) = set (acceptEvents l)"
  show ?thesis
  proof (cases c)
    case False
    then show ?thesis by (simp add: steps)
  next
    case True
    have fac: "sessionFactory (svc s1) = Some (make os)" by (simp add: svc1 sv(1))
    have core: "iocpCore (svc s1) = iocpCore sv" by (simp add: svc1)
    note loop = accept_loop_ends_well [OF ok fac s1 [OF True], of "nat (maxSessionCount sv)"]
    have steps': "ServerService_Start os (new_server n sv) =
        run_then (accept_loop (nat (maxSessionCount sv)) os 0 s1) (\<lambda>s. Some (Inr (True, s)))"
      using True by (simp add: steps)
    show ?thesis unfolding steps'
      by (rule ends_well_then [OF loop [unfolded core]]) (auto simp: svc1 l True)
  qed
qed

lemma start_returns:
  assumes ok: "os_ok os" and n: "fresh_net n"
    and sv: "sessionFactory sv = Some (make os)" "listener_ref sv = None"
    and patience: "\<And>e h ls cs len l1 l2. N \<le> refusals e h \<Longrightarrow> accepted_by_system (os h (AcceptEx ls cs len l1 l2 e))"
  shows "ServerService_Start os (new_server n sv) \<noteq> None"
proof -
  obtain c h where call: "(c, h) = call_all os (start_calls (result (os (hist n) make_socket)) sv) (hist n)"
    by (metis surj_pair)
  show ?thesis
  proof (rule start_steps [OF ok n sv refl call])
    fix s1 l
    assume steps: "ServerService_Start os (new_server n sv) = (if \<not> c then Some (Inr (False, s1))
       else run_then (accept_loop (nat (maxSessionCount sv)) os 0 s1) (\<lambda>s. Some (Inr (True, s))))"
      and svc1: "svc s1 = sv\<lparr>listener_ref := Some 0\<rparr>"
      and s1: "c \<Longrightarrow> serving 0 l 1 s1" "c \<Longrightarrow> pending (hist (srv_net s1)) = set (acceptEvents l)"
    have "accept_loop (nat (maxSessionCount sv)) os 0 s1 \<noteq> None" if c
      by (rule accept_loop_returns [OF ok patience _ s1 [OF that]]) (simp_all add: svc1 sv(1))
    then show ?thesis by (auto simp: steps run_then_def split: option.splits sum.splits)
  qed
qed

end

section \<open>Runs\<close>

definition server_of :: "os \<Rightarrow> SOCKADDR_IN \<Rightarrow> HANDLE \<Rightarrow> int \<Rightarrow> server_service" where
  "server_of os addr core maxCount =
     ServerService_ctor addr core (Some (make_shared_session os)) maxCount"

inductive server_run :: "os \<Rightarrow> int \<Rightarrow> server \<Rightarrow> bool" for os maxCount where
  run_start: "SocketUtils_Init os new_world = Inr w \<Longrightarrow> IocpCore_ctor os w = Inr (core, w') \<Longrightarrow>
     ServerService_Start os (new_server (new_net w') (server_of os addr core maxCount)) = Some (Inr (True, s)) \<Longrightarrow>
     server_run os maxCount s"
| run_dispatch: "server_run os maxCount s \<Longrightarrow>
     IocpCore_Dispatch os (GetIocpCore (svc s)) timeoutMs s = Some (Inr (b, s')) \<Longrightarrow>
     server_run os maxCount s'"

text \<open>The game server and its workers are such a run.\<close>

lemma new_world_fresh:
  assumes ok: "os_ok os" and init: "SocketUtils_Init os new_world = Inr w"
    and core: "IocpCore_ctor os w = Inr (core, w')"
  shows "fresh_net (new_net w')"
proof -
  have "hist w' = (CreateIoCompletionPort INVALID_HANDLE_VALUE 0,
      os (hist w) (CreateIoCompletionPort INVALID_HANDLE_VALUE 0)) # hist w" "AcceptEx_fn w' = AcceptEx_fn w"
    using core by (auto simp: IocpCore_ctor_def sys_def Let_def outcome_simps)
  then show ?thesis
    using winsock_init_ok [OF ok init] quiet_same(1) [of "[]" "hist w"]
    by (simp add: fresh_net_def new_net_def world.defs net.defs new_world_def)
qed

definition at_rest :: "os \<Rightarrow> int \<Rightarrow> listener \<Rightarrow> server \<Rightarrow> bool" where
  "at_rest os maxCount l s \<longleftrightarrow> serving 0 l (1 + nat maxCount) s \<and>
     pending (hist (srv_net s)) = set (acceptEvents l) \<and> length (acceptEvents l) = nat maxCount \<and>
     sessionFactory (svc s) = Some (make_shared_session os) \<and>
     svc_sessions (svc s) = {} \<and> sessionCount (svc s) = 0"

lemma rest_after_start:
  assumes ok: "os_ok os" and init: "SocketUtils_Init os new_world = Inr w"
    and core: "IocpCore_ctor os w = Inr (core, w')"
    and start: "ServerService_Start os (new_server (new_net w') (server_of os addr core maxCount)) = Some (Inr (True, s))"
  shows "\<exists>l. at_rest os maxCount l s"
proof -
  have sv: "sessionFactory (server_of os addr core maxCount) = Some (make_shared_session os)"
    "listener_ref (server_of os addr core maxCount) = None"
    "maxSessionCount (server_of os addr core maxCount) = maxCount"
    "svc_sessions (server_of os addr core maxCount) = {}" "sessionCount (server_of os addr core maxCount) = 0"
    by (simp_all add: server_of_def ServerService_ctor_def Service_ctor_def service.defs server_service.defs)
  obtain c h where call: "(c, h) = call_all os (start_calls (result (os (hist (new_net w')) make_socket))
      (server_of os addr core maxCount)) (hist (new_net w'))" by (metis surj_pair)
  show ?thesis
    using shared_session.start_ends_well [OF ok new_world_fresh [OF ok init core] sv(1,2) call] start
    by (auto simp: at_rest_def sv)
qed

text \<open>The state in which the handler of the dequeued completion starts.\<close>

definition dequeued :: "os \<Rightarrow> call \<Rightarrow> server \<Rightarrow> server" where
  "dequeued os c s = s\<lparr>srv_net := (srv_net s)\<lparr>hist := (c, os (hist (srv_net s)) c) # hist (srv_net s)\<rparr>\<rparr>"

lemma IocpCore_Dispatch_eq:
  assumes "c = GetQueuedCompletionStatus p t" "r = os (hist (srv_net s)) c"
  shows "IocpCore_Dispatch os p t s =
    (if result r = 0 \<and> lastError r = WAIT_TIMEOUT then Some (Inr (False, dequeued os c s))
     else run_then (dispatch_event os (overlapped r) (numOfBytes r) (dequeued os c s)) (\<lambda>s. Some (Inr (True, s))))"
  using assms by (simp add: IocpCore_Dispatch_def on_net_def sys_def dequeued_def Let_def)

lemma dequeued_serving:
  assumes "serving lid l k s" "c = GetQueuedCompletionStatus p t"
  shows "serving lid l k (dequeued os c s)" "event_session (dequeued os c s) = event_session s"
proof -
  have "net_inv {listen_socket l} (srv_net s)" "AcceptEx_fn (srv_net s) \<noteq> 0"
    using assms(1) by (simp_all add: serving_def)
  then show "serving lid l k (dequeued os c s)"
    unfolding dequeued_def by (intro serving_net [OF assms(1)] net_inv_call) (simp_all add: assms(2))
  show "event_session (dequeued os c s) = event_session s"
    by (simp add: event_session_def dequeued_def fun_eq_iff)
qed

text \<open>What one call of \<^verbatim>\<open>Dispatch\<close> can do to a server at rest.\<close>

lemma dispatch_at_rest:
  assumes ok: "os_ok os" and rest: "at_rest os maxCount l s"
    and c: "c = GetQueuedCompletionStatus p t" and r: "r = os (hist (srv_net s)) c"
  shows "case overlapped r of
      None \<Rightarrow> IocpCore_Dispatch os p t s =
        (if lastError r = WAIT_TIMEOUT then Some (Inr (False, dequeued os c s))
         else Some (Inl (UB ''null IocpEvent''))) \<and>
        at_rest os maxCount l (dequeued os c s)
    | Some e \<Rightarrow> e \<in> set (acceptEvents l) \<and>
        (\<exists>a. event_session s e = Some a \<and> ends_well os (iocpCore (svc s)) (IocpCore_Dispatch os p t s)
          (\<lambda>(b, s'). b \<and> at_rest os maxCount l s' \<and> served 0 l (1 + nat maxCount) s e a s'))"
proof -
  have s: "serving 0 l (1 + nat maxCount) s" and pend: "pending (hist (srv_net s)) = set (acceptEvents l)"
    and fac: "sessionFactory (svc s) = Some (make_shared_session os)"
    using rest by (simp_all add: at_rest_def)
  note d = dequeued_serving [OF s c, of os]
  have deq: "svc (dequeued os c s) = svc s" "sess_sock (srv_net (dequeued os c s)) = sess_sock (srv_net s)"
    "listeners_made (dequeued os c s) = listeners_made s"
    by (simp_all add: dequeued_def sess_sock_def fun_eq_iff)
  note eq = IocpCore_Dispatch_eq [where os = os and s = s and p = p and t = t, OF c r]
  note os_r = os_ok_dequeue [OF ok, of r "hist (srv_net s)" p t, OF r [unfolded c]]
  show ?thesis
  proof (cases "overlapped r")
    case None
    have "pending (hist (srv_net (dequeued os c s))) = set (acceptEvents l)"
      using pend None r by (simp add: dequeued_def c)
    then have "at_rest os maxCount l (dequeued os c s)"
      using rest d by (simp add: at_rest_def deq)
    then show ?thesis
      using None os_r by (simp add: eq dispatch_event_def)
  next
    case (Some e)
    have e: "e \<in> set (acceptEvents l)" and go: "\<not> (result r = 0 \<and> lastError r = WAIT_TIMEOUT)"
      using Some os_r pend by auto
    obtain a where a: "event_session s e = Some a"
      using shared_session.completed_session [OF s e] by blast
    have pend': "pending (hist (srv_net (dequeued os c s))) = set (acceptEvents l) - {e}"
      using pend Some r by (simp add: dequeued_def c)
    have disp: "ends_well os (iocpCore (svc s)) (dispatch_event os (Some e) (numOfBytes r) (dequeued os c s))
        (served 0 l (1 + nat maxCount) (dequeued os c s) e a)"
      using shared_session.dispatch_event_ends_well [OF ok _ d(1) _ e _ pend'] fac a d(2) by (simp add: deq)
    have "ends_well os (iocpCore (svc s)) (IocpCore_Dispatch os p t s)
          (\<lambda>(b, s'). b \<and> at_rest os maxCount l s' \<and> served 0 l (1 + nat maxCount) s e a s')"
      unfolding eq if_not_P [OF go] Some
    proof (rule ends_well_then [OF disp])
      fix s' assume "served 0 l (1 + nat maxCount) (dequeued os c s) e a s'"
      then show "ends_well os (iocpCore (svc s)) (Some (Inr (True, s')))
          (\<lambda>(b, s'). b \<and> at_rest os maxCount l s' \<and> served 0 l (1 + nat maxCount) s e a s')"
        using rest by (simp add: served_def at_rest_def deq)
    qed
    then show ?thesis using Some e a by auto
  qed
qed

lemma run_at_rest:
  assumes "server_run os maxCount s" "os_ok os"
  shows "\<exists>l. at_rest os maxCount l s"
  using assms
proof (induction rule: server_run.induct)
  case (run_start w core w' addr s)
  then show ?case using rest_after_start by blast
next
  case (run_dispatch s timeoutMs b s')
  then obtain l where l: "at_rest os maxCount l s" by blast
  show ?case
    using dispatch_at_rest [OF run_dispatch.prems l refl refl, of "GetIocpCore (svc s)" timeoutMs]
      run_dispatch.hyps(2)
    by (auto split: option.splits if_splits)
qed

end
