(* ===== verification/Server_Safety.thy ===== *)
theory Server_Safety
  imports Server_Run
begin

text \<open>
  What the runs of a server guarantee, for every behaviour of the system that keeps its
  documentation, and what happens to the clients it accepts. The last section has a small system
  that completes an accept whenever one is pending.
\<close>

section \<open>A small system\<close>

definition example_reply :: reply where
  "example_reply = \<lparr>result = 0, lastError = 0, overlapped = None, numOfBytes = 0, extension = 1,
     peer = NetAddress_default\<rparr>"

fun accept_events :: "history \<Rightarrow> nat list" where
  "accept_events [] = []"
| "accept_events ((AcceptEx ls cs len l1 l2 e, r) # h) = e # accept_events h"
| "accept_events (_ # h) = accept_events h"

definition latest :: "history \<Rightarrow> nat option" where
  "latest h = (case filter (\<lambda>e. e \<in> pending h) (accept_events h) of [] \<Rightarrow> None | e # es \<Rightarrow> Some e)"

lemma latest_pending: "latest h = Some e \<Longrightarrow> e \<in> pending h"
  by (auto simp: latest_def filter_eq_Cons_iff split: list.splits)

lemma pending_accepts: "pending h \<subseteq> set (accept_events h)"
  by (induction h rule: pending.induct) (auto split: option.splits)

lemma latest_Some: "pending h \<noteq> {} \<Longrightarrow> \<exists>e. latest h = Some e"
  using pending_accepts [of h] by (auto simp: latest_def filter_empty_conv split: list.splits)

fun example_os :: os where
  "example_os h (WSASocket af ty pr fl) = example_reply\<lparr>result :=
     (let s = of_nat (length h + 1) in if s \<in> unclosed h then INVALID_SOCKET else s)\<rparr>"
| "example_os h (sock_socket af ty pr) = example_reply\<lparr>result :=
     (let s = of_nat (length h + 1) in if s \<in> unclosed h then INVALID_SOCKET else s)\<rparr>"
| "example_os h (CreateIoCompletionPort f p) = example_reply\<lparr>result := 7\<rparr>"
| "example_os h (AcceptEx ls cs len l1 l2 e) = example_reply\<lparr>lastError := ERROR_IO_PENDING\<rparr>"
| "example_os h (GetQueuedCompletionStatus p t) =
     (case latest h of
        None \<Rightarrow> example_reply\<lparr>lastError := WAIT_TIMEOUT\<rparr>
      | Some e \<Rightarrow> example_reply\<lparr>result := 1, overlapped := Some e\<rparr>)"
| "example_os h _ = example_reply"

lemma example_os_ok: "os_ok example_os"
proof -
  have "sockets_fresh example_os" by (simp add: sockets_fresh_def Let_def example_reply_def)
  moreover have "extensions_set example_os" by (simp add: extensions_set_def example_reply_def)
  moreover have "completions_pending example_os"
    by (auto simp: completions_pending_def example_reply_def latest_pending split: option.splits)
  ultimately show ?thesis by (simp add: os_ok_def)
qed

text \<open>Systems that differ from it in the dequeues only.\<close>

fun dequeues :: "call \<Rightarrow> bool" where
  "dequeues (GetQueuedCompletionStatus p t) \<longleftrightarrow> True"
| "dequeues _ \<longleftrightarrow> False"

definition like_example :: "os \<Rightarrow> bool" where
  "like_example os \<longleftrightarrow> os_ok os \<and> (\<forall>h c. \<not> dequeues c \<longrightarrow> os h c = example_os h c)"

lemma like_exampleD:
  "like_example os \<Longrightarrow> os_ok os"
  "like_example os \<Longrightarrow> \<not> dequeues c \<Longrightarrow> os h c = example_os h c"
  by (simp_all add: like_example_def)

lemma example_like [simp]: "like_example example_os"
  by (simp add: like_example_def example_os_ok)

lemma example_accepts: "accepted_by_system (example_os h (AcceptEx ls cs len l1 l2 e))"
  by (simp add: accepted_by_system_def example_reply_def)

lemma like_example_accepts:
  "like_example os \<Longrightarrow> accepted_by_system (os h (AcceptEx ls cs len l1 l2 e))"
  by (subst like_exampleD(2)) (simp_all only: dequeues.simps not_False_eq_True example_accepts)

section \<open>Starting\<close>

text \<open>
  \<^verbatim>\<open>StartAccept\<close> makes its six system calls in order, stops with false at the first one that
  fails, and changes nothing but the listener's members. A socket that was made stays open when a
  later call fails.
\<close>

theorem start_accept_calls:
  assumes "listeners s lid = Some (l, k)"
    and "sk = result (os (hist (srv_net s)) make_socket)"
    and "(ok, h) = call_all os (start_calls sk (svc s)) (hist (srv_net s))"
  shows "StartAccept_socket os lid True s = (ok, s\<lparr>srv_net := (srv_net s)\<lparr>hist := h\<rparr>,
      listeners := (listeners s)(lid \<mapsto> (l\<lparr>has_service := True, listen_socket := sk\<rparr>, k))\<rparr>) \<and>
    (sk \<noteq> INVALID_SOCKET \<longrightarrow> sk \<in> unclosed h)"
  by (rule start_socket_eq [OF assms])

text \<open>A system on which binding fails: the fifth call is the last, and the socket stays open.\<close>

definition no_bind_os :: os where
  "no_bind_os h c = (case c of sock_bind s a \<Rightarrow> example_reply\<lparr>result := SOCKET_ERROR\<rparr> | _ \<Rightarrow> example_os h c)"

definition unstarted :: server where
  "unstarted = (new_server (new_net new_world) (server_of no_bind_os NetAddress_default 7 1))
     \<lparr>listeners := [0 \<mapsto> (new_listener, 1)]\<rparr>"

theorem start_accept_calls_witness:
  "fst (StartAccept_socket no_bind_os 0 True unstarted) = False \<and>
   length (hist (srv_net (snd (StartAccept_socket no_bind_os 0 True unstarted)))) = 5 \<and>
   1 \<in> unclosed (hist (srv_net (snd (StartAccept_socket no_bind_os 0 True unstarted))))"
proof -
  obtain ok h where call: "(ok, h) = call_all no_bind_os (start_calls 1 (svc unstarted)) (hist (srv_net unstarted))"
    by (metis surj_pair)
  have sk: "1 = result (no_bind_os (hist (srv_net unstarted)) make_socket)"
    by (simp add: unstarted_def new_server_def new_net_def world.defs new_world_def no_bind_os_def
        make_socket_def example_reply_def)
  have len: "\<not> ok \<and> length h = 5"
    using call by (simp add: unstarted_def new_server_def new_net_def world.defs new_world_def no_bind_os_def
        make_socket_def example_reply_def start_calls_def Let_def INVALID_SOCKET_def SOCKET_ERROR_def)
  have lis: "listeners unstarted 0 = Some (new_listener, 1)" by (simp add: unstarted_def)
  show ?thesis
    using start_accept_calls [OF lis sk call] len by (simp add: INVALID_SOCKET_def)
qed

text \<open>
  \<^verbatim>\<open>Start\<close> of a new server ends, if the system accepts an event after a bounded number of
  refusals in a row and registers every session, and returns whether its six system calls succeeded;
  if so, \<^verbatim>\<open>maxSessionCount\<close> accepts are pending.
\<close>

theorem server_start_returns:
  assumes "os_ok os" "SocketUtils_Init os new_world = Inr w" "IocpCore_ctor os w = Inr (core, w')"
    and "(c, h) = call_all os (start_calls (result (os (hist w') make_socket)) (server_of os addr core maxCount)) (hist w')"
    and "\<And>e h ls cs len l1 l2. N \<le> refusals e h \<Longrightarrow> accepted_by_system (os h (AcceptEx ls cs len l1 l2 e))"
    and "\<And>h x. result (os h (CreateIoCompletionPort x core)) \<noteq> 0"
  shows "\<exists>s. ServerService_Start os (new_server (new_net w') (server_of os addr core maxCount)) = Some (Inr (c, s)) \<and>
    (c \<longrightarrow> card (pending (hist (srv_net s))) = nat maxCount)"
proof -
  define sv where "sv = server_of os addr core maxCount"
  have sv: "sessionFactory sv = Some (make_shared_session os)" "listener_ref sv = None"
    "maxSessionCount sv = maxCount" "iocpCore sv = core"
    by (simp_all add: sv_def server_of_def ServerService_ctor_def Service_ctor_def service.defs server_service.defs)
  note n = new_world_fresh [OF assms(1-3)]
  have call: "(c, h) = call_all os (start_calls (result (os (hist (new_net w')) make_socket)) sv) (hist (new_net w'))"
    using assms(4) by (simp add: new_net_def world.defs sv_def)
  note well = shared_session.start_ends_well [OF assms(1) n sv(1,2) call]
  have "ServerService_Start os (new_server (new_net w') sv) \<noteq> None"
    by (rule shared_session.start_returns [OF assms(1) n sv(1,2) assms(5)])
  then obtain res where res: "ServerService_Start os (new_server (new_net w') sv) = Some res" by blast
  have "res \<noteq> Inl x" for x using well assms(6) by (auto simp: res ends_well_def sv(4))
  then obtain b s where bs: "res = Inr (b, s)" by (cases res) auto
  have "b = c" and "c \<longrightarrow> card (pending (hist (srv_net s))) = nat maxCount"
    using well by (auto simp: res bs serving_def sv(3) distinct_card)
  then show ?thesis using res bs by (auto simp: sv_def)
qed

lemma example_init':
  "like_example os \<Longrightarrow> \<exists>w. SocketUtils_Init os new_world = Inr w \<and> length (hist w) = 6"
  by (simp add: like_exampleD SocketUtils_Init_def sys_def Let_def CreateSocket_eq Close_eq bind_or_crash_def
      BindWindowsFunction_def example_reply_def SOCKET_ERROR_def INVALID_SOCKET_def new_world_def)

lemma example_core:
  "like_example os \<Longrightarrow> \<exists>core w'. IocpCore_ctor os w = Inr (core, w') \<and> length (hist w') = Suc (length (hist w))"
  by (simp add: like_exampleD IocpCore_ctor_def sys_def Let_def example_reply_def INVALID_HANDLE_VALUE_def)

lemma example_init:
  assumes "like_example os"
  obtains w core w' where "SocketUtils_Init os new_world = Inr w" "IocpCore_ctor os w = Inr (core, w')"
    "length (hist w') = 7"
proof -
  obtain w where w: "SocketUtils_Init os new_world = Inr w" "length (hist w) = 6"
    using example_init' [OF assms] by blast
  moreover obtain core w' where "IocpCore_ctor os w = Inr (core, w')" "length (hist w') = Suc (length (hist w))"
    using example_core [OF assms] by blast
  ultimately show thesis using that [OF w(1)] by simp
qed

text \<open>
  \<^verbatim>\<open>SocketUtils::Init\<close> stops only with its own ASSERT_CRASH; when it returns, the three
  extension functions can be called, and every socket it made is closed again.
\<close>

theorem socket_utils_init:
  assumes "os_ok os"
  shows "case SocketUtils_Init os w of
      Inl x \<Rightarrow> x = CRASH ''ASSERT_CRASH''
    | Inr w' \<Rightarrow> ConnectEx_fn w' \<noteq> 0 \<and> DisconnectEx_fn w' \<noteq> 0 \<and> AcceptEx_fn w' \<noteq> 0 \<and>
        unclosed (hist w') = unclosed (hist w) \<and> (closes_ok (hist w) \<longrightarrow> closes_ok (hist w'))"
proof (cases "SocketUtils_Init os w")
  case (Inl x)
  then have "x = CRASH ''ASSERT_CRASH''"
    by (auto simp: SocketUtils_Init_def Let_def ASSERT_CRASH_def bind_or_crash_def and_then_def
        split: prod.splits if_splits sum.splits)
  then show ?thesis using Inl by simp
next
  case (Inr w')
  then show ?thesis using winsock_init_ok [OF assms Inr] by simp
qed

theorem socket_utils_init_witness:
  "\<exists>w. SocketUtils_Init example_os new_world = Inr w \<and> AcceptEx_fn w \<noteq> 0 \<and> unclosed (hist w) = {}"
proof -
  obtain w where "SocketUtils_Init example_os new_world = Inr w" using example_init' [OF example_like] by blast
  then show ?thesis using socket_utils_init [OF example_os_ok, of new_world] by (simp add: new_world_def)
qed

lemma example_calls:
  assumes ex: "like_example os" and "unclosed h = {}" "length h = 7"
  shows "\<exists>h'. (True, h') = call_all os (start_calls (result (os h make_socket)) sv) h"
proof -
  have "result (os h make_socket) \<noteq> INVALID_SOCKET"
    using assms by (simp add: like_exampleD make_socket_def example_reply_def INVALID_SOCKET_def)
  then show ?thesis by (simp add: like_exampleD [OF ex] start_calls_def make_socket_def Let_def example_reply_def SOCKET_ERROR_def)
qed

text \<open>A server for two clients on the small system.\<close>

theorem server_start_returns_witness:
  "\<exists>w core w' s. SocketUtils_Init example_os new_world = Inr w \<and> IocpCore_ctor example_os w = Inr (core, w') \<and>
    ServerService_Start example_os (new_server (new_net w') (server_of example_os NetAddress_default core 2)) =
      Some (Inr (True, s)) \<and> card (pending (hist (srv_net s))) = 2"
proof -
  obtain w core w' where w: "SocketUtils_Init example_os new_world = Inr w"
      "IocpCore_ctor example_os w = Inr (core, w')" "length (hist w') = 7" by (rule example_init [OF example_like])
  have "unclosed (hist w') = {}"
    using new_world_fresh [OF example_os_ok w(1,2)] by (simp add: fresh_net_def new_net_def world.defs)
  then obtain h where calls: "(True, h) = call_all example_os
      (start_calls (result (example_os (hist w') make_socket)) (server_of example_os NetAddress_default core 2)) (hist w')"
    using example_calls [OF example_like _ w(3)] by blast
  have "\<exists>s. ServerService_Start example_os (new_server (new_net w') (server_of example_os NetAddress_default core 2)) =
      Some (Inr (True, s)) \<and> (True \<longrightarrow> card (pending (hist (srv_net s))) = nat 2)"
    by (rule server_start_returns [OF example_os_ok w(1,2) calls, of 0])
      (rule example_accepts, simp add: example_reply_def)
  then show ?thesis using w by auto
qed

lemma example_started:
  assumes ex: "like_example os" and w: "SocketUtils_Init os new_world = Inr w" "IocpCore_ctor os w = Inr (core, w')" "length (hist w') = 7"
  shows "\<exists>s. ServerService_Start os (new_server (new_net w') (server_of os addr core n)) = Some (Inr (True, s))"
proof -
  define sv where "sv = server_of os addr core n"
  have sv: "sessionFactory sv = Some (make_shared_session os)" "listener_ref sv = None"
    by (simp_all add: sv_def server_of_def ServerService_ctor_def Service_ctor_def service.defs server_service.defs)
  note fresh = new_world_fresh [OF like_exampleD(1) [OF ex] w(1,2)]
  have "unclosed (hist (new_net w')) = {}" "length (hist (new_net w')) = 7"
    using fresh w(3) by (simp_all add: fresh_net_def new_net_def world.defs)
  then obtain h where calls: "(True, h) = call_all os
      (start_calls (result (os (hist (new_net w')) make_socket)) sv) (hist (new_net w'))"
    using example_calls [OF ex] by blast
  have "ServerService_Start os (new_server (new_net w') sv) \<noteq> None"
    by (rule shared_session.start_returns [OF like_exampleD(1) [OF ex] fresh sv, of 0]) (rule like_example_accepts [OF ex])
  then obtain res where res: "ServerService_Start os (new_server (new_net w') sv) = Some res" by blast
  note well = shared_session.start_ends_well [OF like_exampleD(1) [OF ex] fresh sv calls]
  have "res \<noteq> Inl x" for x using well by (auto simp: res ends_well_def like_exampleD [OF ex] example_reply_def)
  then obtain b s where "res = Inr (b, s)" by (cases res) auto
  moreover from this have b using well by (simp add: res)
  ultimately show ?thesis using res by (auto simp: sv_def)
qed

lemma example_server_run:
  assumes ex: "like_example os"
  shows "\<exists>s. server_run os n s"
proof -
  obtain w core w' where w: "SocketUtils_Init os new_world = Inr w"
      "IocpCore_ctor os w = Inr (core, w')" "length (hist w') = 7" by (rule example_init [OF ex])
  show ?thesis using server_run.run_start [OF w(1,2)] example_started [OF ex w] by blast
qed

section \<open>What runs guarantee\<close>

text \<open>
  At every moment between two calls of \<^verbatim>\<open>Dispatch\<close> a server that was started has exactly
  \<^verbatim>\<open>maxSessionCount\<close> accepts pending, one for each of its accept events, and each of these events
  has a session of its own that nobody else refers to. The events keep the listener alive: its
  reference count is one more than their number.
\<close>

theorem accepts_always_pending:
  assumes "os_ok os" "server_run os maxCount s"
  shows "\<exists>l. listeners s = [0 \<mapsto> (l, 1 + nat maxCount)] \<and>
    distinct (acceptEvents l) \<and> length (acceptEvents l) = nat maxCount \<and>
    pending (hist (srv_net s)) = set (acceptEvents l) \<and>
    (\<forall>e \<in> set (acceptEvents l). \<exists>ev sid se. events s e = Some ev \<and>
       owner ev = Some (Listener_object 0) \<and> session ev = Some sid \<and> sessions (srv_net s) sid = Some (se, 1)) \<and>
    card (dom (sessions (srv_net s))) = nat maxCount"
proof -
  obtain l where rest: "at_rest os maxCount l s" using run_at_rest [OF assms(2,1)] by blast
  then have s: "serving 0 l (1 + nat maxCount) s" by (simp add: at_rest_def)
  have some: "\<exists>a. event_session s e = Some a" if "e \<in> set (acceptEvents l)" for e
    using shared_session.completed_session [OF s that] by metis
  have "dom (sessions (srv_net s)) = {sid. \<exists>e \<in> set (acceptEvents l). event_session s e = Some sid}"
    using s by (simp add: serving_def)
  also have "\<dots> = (the \<circ> event_session s) ` set (acceptEvents l)"
  proof (rule set_eqI, rule iffI)
    fix x assume "x \<in> {sid. \<exists>e \<in> set (acceptEvents l). event_session s e = Some sid}"
    then show "x \<in> (the \<circ> event_session s) ` set (acceptEvents l)" by (auto simp: image_iff intro!: bexI)
  next
    fix x assume "x \<in> (the \<circ> event_session s) ` set (acceptEvents l)"
    then obtain e where "e \<in> set (acceptEvents l)" "x = the (event_session s e)" by auto
    then show "x \<in> {sid. \<exists>e \<in> set (acceptEvents l). event_session s e = Some sid}"
      using some by fastforce
  qed
  finally have dom: "dom (sessions (srv_net s)) = (the \<circ> event_session s) ` set (acceptEvents l)" .
  have inj: "inj_on (event_session s) (set (acceptEvents l))" using s by (simp add: serving_def)
  have "inj_on (the \<circ> event_session s) (set (acceptEvents l))"
  proof (rule inj_onI)
    fix x y assume x: "x \<in> set (acceptEvents l)" and y: "y \<in> set (acceptEvents l)"
      and eq: "(the \<circ> event_session s) x = (the \<circ> event_session s) y"
    have "event_session s x = event_session s y" using some [OF x] some [OF y] eq by auto
    then show "x = y" by (rule inj_onD [OF inj _ x y])
  qed
  then have card: "card (dom (sessions (srv_net s))) = card (set (acceptEvents l))"
    unfolding dom by (rule card_image)
  have own: "\<exists>ev sid se. events s e = Some ev \<and> owner ev = Some (Listener_object 0) \<and>
      session ev = Some sid \<and> sessions (srv_net s) sid = Some (se, 1)" if "e \<in> set (acceptEvents l)" for e
    using s that by (auto simp: serving_def event_ok_def)
  have "listeners s = [0 \<mapsto> (l, 1 + nat maxCount)]" "distinct (acceptEvents l)"
    using s by (simp_all add: serving_def)
  moreover from this have "card (set (acceptEvents l)) = length (acceptEvents l)" by (simp add: distinct_card)
  ultimately show ?thesis
    using rest card own by (intro exI [of _ l]) (simp add: at_rest_def)
qed

theorem accepts_always_pending_witness:
  "\<exists>s l. server_run example_os 2 s \<and> listeners s = [0 \<mapsto> (l, 3)] \<and> length (acceptEvents l) = 2 \<and>
    pending (hist (srv_net s)) = set (acceptEvents l)"
proof -
  obtain s where s: "server_run example_os 2 s" using example_server_run [OF example_like] by blast
  obtain l where "listeners s = [0 \<mapsto> (l, 1 + nat 2)]" "length (acceptEvents l) = nat 2"
      "pending (hist (srv_net s)) = set (acceptEvents l)"
    using accepts_always_pending [OF example_os_ok s] by blast
  then show ?thesis using s by (intro exI [of _ s] exI [of _ l]) (simp add: numeral_3_eq_3)
qed

text \<open>
  No socket is lost and none is closed twice: the sockets made and not yet closed are exactly
  the listening one and those of the sessions, every one of them has a single owner, and
  \<^verbatim>\<open>closesocket\<close> was only ever called on an open socket.
\<close>

theorem open_sockets_accounted:
  assumes "os_ok os" "server_run os maxCount s"
  shows "\<exists>l. listeners s 0 = Some (l, 1 + nat maxCount) \<and> listen_socket l \<noteq> INVALID_SOCKET \<and>
    unclosed (hist (srv_net s)) = insert (listen_socket l) (ran (sess_sock (srv_net s))) \<and>
    listen_socket l \<notin> ran (sess_sock (srv_net s)) \<and>
    inj_on (sess_sock (srv_net s)) (dom (sess_sock (srv_net s))) \<and> closes_ok (hist (srv_net s))"
proof -
  obtain l where "at_rest os maxCount l s" using run_at_rest [OF assms(2,1)] by blast
  then have "listeners s 0 = Some (l, 1 + nat maxCount)" "listen_socket l \<noteq> INVALID_SOCKET"
    "net_inv {listen_socket l} (srv_net s)"
    by (simp_all add: at_rest_def serving_def)
  then show ?thesis by (auto simp: net_inv_def)
qed

theorem open_sockets_accounted_witness:
  "\<exists>s l. server_run example_os 2 s \<and> listeners s 0 = Some (l, 3) \<and> closes_ok (hist (srv_net s)) \<and>
    listen_socket l \<in> unclosed (hist (srv_net s))"
proof -
  obtain s where s: "server_run example_os 2 s" using example_server_run [OF example_like] by blast
  obtain l where "listeners s 0 = Some (l, 1 + nat 2)" "closes_ok (hist (srv_net s))"
      "unclosed (hist (srv_net s)) = insert (listen_socket l) (ran (sess_sock (srv_net s)))"
    using open_sockets_accounted [OF example_os_ok s] by blast
  then show ?thesis using s by (intro exI [of _ s] exI [of _ l]) (simp add: numeral_3_eq_3)
qed

text \<open>
  C9. A client that was accepted does not stay connected: when \<^verbatim>\<open>Dispatch\<close> returns true, the session
  of the completed event no longer exists, the last call made was \<^verbatim>\<open>closesocket\<close> on its socket, and
  the service counts no session, as before.
\<close>

theorem accepted_client_disconnected:
  assumes "os_ok os" "server_run os maxCount s"
    and "c = GetQueuedCompletionStatus (GetIocpCore (svc s)) timeoutMs"
    and "IocpCore_Dispatch os (GetIocpCore (svc s)) timeoutMs s = Some (Inr (True, s'))"
  shows "\<exists>e ev a se. overlapped (os (hist (srv_net s)) c) = Some e \<and> events s e = Some ev \<and>
    session ev = Some a \<and> sessions (srv_net s) a = Some (se, 1) \<and> sessions (srv_net s') a = None \<and>
    (sess_socket se = INVALID_SOCKET \<or> (\<exists>r rest. hist (srv_net s') = (closesocket (sess_socket se), r) # rest)) \<and>
    GetCurrentSessionCount (svc s') = 0"
proof -
  obtain l where rest: "at_rest os maxCount l s" using run_at_rest [OF assms(2,1)] by blast
  note cases = dispatch_at_rest [OF assms(1) rest assms(3) refl]
  obtain e where e: "overlapped (os (hist (srv_net s)) c) = Some e"
  proof (cases "overlapped (os (hist (srv_net s)) c)")
    case None
    then show ?thesis using cases assms(4) by (auto split: if_splits)
  qed
  then obtain a where el: "e \<in> set (acceptEvents l)" and a: "event_session s e = Some a"
    and served: "at_rest os maxCount l s'" "served 0 l (1 + nat maxCount) s e a s'"
    using cases assms(4) by auto
  have s: "serving 0 l (1 + nat maxCount) s" using rest by (simp add: at_rest_def)
  obtain se where se: "sessions (srv_net s) a = Some (se, 1)"
    using shared_session.completed_session [OF s el] a by auto
  obtain ev where ev: "events s e = Some ev" "session ev = Some a"
    using a by (auto simp: event_session_def bind_eq_Some_conv)
  have sock: "sess_socket se = INVALID_SOCKET \<or> sess_sock (srv_net s) a = Some (sess_socket se)"
    using se by (simp add: sess_sock_def)
  show ?thesis
    using e ev se served sock by (auto simp: served_def at_rest_def GetCurrentSessionCount_def)
qed

text \<open>
  What a call of \<^verbatim>\<open>Dispatch\<close> can do: wait again after a timeout (false), serve a completion
  (true), or stop. It stops with a null event exactly when nothing was dequeued for another reason
  than a timeout, and with a null session only if the completion port refuses the new session. It
  does not return only while it serves a completion.
\<close>

theorem dispatch_outcomes:
  assumes "os_ok os" "server_run os maxCount s"
    and "r = os (hist (srv_net s)) (GetQueuedCompletionStatus (GetIocpCore (svc s)) timeoutMs)"
  shows "case IocpCore_Dispatch os (GetIocpCore (svc s)) timeoutMs s of
      None \<Rightarrow> overlapped r \<noteq> None
    | Some (Inl x) \<Rightarrow>
        x = UB ''null IocpEvent'' \<and> overlapped r = None \<and> lastError r \<noteq> WAIT_TIMEOUT \<or>
        x = UB ''null SessionRef'' \<and> overlapped r \<noteq> None \<and>
          (\<exists>h c. result (os h (CreateIoCompletionPort c (GetIocpCore (svc s)))) = 0)
    | Some (Inr (b, s')) \<Rightarrow> server_run os maxCount s' \<and>
        (if b then overlapped r \<noteq> None else overlapped r = None \<and> lastError r = WAIT_TIMEOUT)"
proof -
  obtain l where rest: "at_rest os maxCount l s" using run_at_rest [OF assms(2,1)] by blast
  note cases = dispatch_at_rest [OF assms(1) rest refl assms(3)]
  show ?thesis
  proof (cases "IocpCore_Dispatch os (GetIocpCore (svc s)) timeoutMs s")
    case None
    then show ?thesis using cases by (auto split: option.splits if_splits)
  next
    case (Some res)
    show ?thesis
    proof (cases res)
      case (Inl x)
      then show ?thesis using cases Some
        by (auto simp: ends_well_def GetIocpCore_def split: option.splits if_splits)
    next
      case (Inr bs)
      obtain b s' where bs: "bs = (b, s')" by (cases bs)
      have "server_run os maxCount s'"
        by (rule server_run.run_dispatch [OF assms(2)]) (use Some Inr bs in simp)
      then show ?thesis using cases Some Inr bs by (auto split: option.splits if_splits)
    qed
  qed
qed

text \<open>The call of \<^verbatim>\<open>ProcessAccept\<close> inside a dispatch.\<close>

lemma dispatch_process:
  assumes ok: "os_ok os" and rest: "at_rest os maxCount l s"
    and c: "c = GetQueuedCompletionStatus p timeoutMs" and r: "r = os (hist (srv_net s)) c"
    and over: "overlapped r = Some e"
  obtains s1 where "serving 0 l (Suc (1 + nat maxCount)) s1" "svc s1 = svc s" "e \<in> set (acceptEvents l)"
    "IocpCore_Dispatch os p timeoutMs s = run_then (run_then (ProcessAccept os 0 e s1)
      (\<lambda>s. Some (listener_drop os 0 s))) (\<lambda>s. Some (Inr (True, s)))"
proof -
  have s: "serving 0 l (1 + nat maxCount) s" using rest by (simp add: at_rest_def)
  have e: "e \<in> set (acceptEvents l)" using dispatch_at_rest [OF ok rest c r] over by simp
  define s1 where "s1 = listener_refs 0 Suc (dequeued os c s)"
  have d: "serving 0 l (1 + nat maxCount) (dequeued os c s)" by (rule dequeued_serving(1) [OF s c])
  have s1: "serving 0 l (Suc (1 + nat maxCount)) s1" unfolding s1_def by (rule serving_refs [OF d])
  have "\<not> (result r = 0 \<and> lastError r = WAIT_TIMEOUT)"
    using os_ok_dequeue [OF ok r [unfolded c]] over by simp
  then have "IocpCore_Dispatch os p timeoutMs s =
      run_then (run_then (ProcessAccept os 0 e s1) (\<lambda>s. Some (listener_drop os 0 s))) (\<lambda>s. Some (Inr (True, s)))"
    using IocpCore_Dispatch_eq [where os = os and s = s and p = p and t = timeoutMs, OF c r]
      shared_session.dispatch_steps [OF d e, of os] over by (auto simp: s1_def)
  then show thesis using that [OF s1 _ e] by (simp add: s1_def dequeued_def)
qed

lemma dispatch_returns:
  assumes ok: "os_ok os" and rest: "at_rest os maxCount l s"
    and over: "overlapped (os (hist (srv_net s)) (GetQueuedCompletionStatus p timeoutMs)) = Some e"
    and patience: "\<forall>h ls cs len l1 l2. N \<le> refusals e h \<longrightarrow> accepted_by_system (os h (AcceptEx ls cs len l1 l2 e))"
  shows "IocpCore_Dispatch os p timeoutMs s \<noteq> None"
proof (rule dispatch_process [OF ok rest refl refl over])
  fix s1 assume s1: "serving 0 l (Suc (1 + nat maxCount)) s1" "svc s1 = svc s" "e \<in> set (acceptEvents l)"
    and steps: "IocpCore_Dispatch os p timeoutMs s = run_then (run_then (ProcessAccept os 0 e s1)
      (\<lambda>s. Some (listener_drop os 0 s))) (\<lambda>s. Some (Inr (True, s)))"
  have "ProcessAccept os 0 e s1 \<noteq> None"
    by (rule shared_session.process_returns [OF ok _ s1(1,3), of N]) (use patience rest s1(2) in \<open>auto simp: at_rest_def\<close>)
  then show ?thesis by (auto simp: steps run_then_None_iff)
qed



section \<open>A turn of the small system\<close>

text \<open>A worker of the server for two clients serves the accept that is pending first.\<close>

lemma example_turn:
  obtains s e s' where "server_run example_os 2 s"
    "overlapped (example_os (hist (srv_net s)) (GetQueuedCompletionStatus (GetIocpCore (svc s)) INFINITE)) = Some e"
    "IocpCore_Dispatch example_os (GetIocpCore (svc s)) INFINITE s = Some (Inr (True, s'))"
proof -
  obtain s where s: "server_run example_os 2 s" using example_server_run [OF example_like] by blast
  define p where "p = GetIocpCore (svc s)"
  define c where "c = GetQueuedCompletionStatus p INFINITE"
  define r where "r = example_os (hist (srv_net s)) c"
  obtain l where rest: "at_rest example_os 2 l s" using run_at_rest [OF s example_os_ok] by blast
  then have "pending (hist (srv_net s)) \<noteq> {}" by (auto simp: at_rest_def)
  then obtain e where "latest (hist (srv_net s)) = Some e" using latest_Some by blast
  then have over: "overlapped r = Some e" by (simp add: r_def c_def)
  have "IocpCore_Dispatch example_os p INFINITE s \<noteq> None"
    by (rule dispatch_returns [OF example_os_ok rest over [unfolded r_def c_def], of 0]) (intro allI impI example_accepts)
  then obtain res where res: "IocpCore_Dispatch example_os p INFINITE s = Some res" by blast
  obtain a where well: "ends_well example_os (iocpCore (svc s)) (Some res)
      (\<lambda>(b, s'). b \<and> at_rest example_os 2 l s' \<and> served 0 l (1 + nat 2) s e a s')"
    using dispatch_at_rest [OF example_os_ok rest c_def r_def] over res by auto
  have "res \<noteq> Inl x" for x using well by (auto simp: ends_well_def example_reply_def)
  then obtain b s' where "res = Inr (b, s')" by (cases res) auto
  then show thesis using that [OF s, of e s'] over res well by (simp add: r_def c_def p_def)
qed

theorem accepted_client_disconnected_witness:
  "\<exists>s s' e. server_run example_os 2 s \<and>
    overlapped (example_os (hist (srv_net s)) (GetQueuedCompletionStatus (GetIocpCore (svc s)) INFINITE)) = Some e \<and>
    IocpCore_Dispatch example_os (GetIocpCore (svc s)) INFINITE s = Some (Inr (True, s')) \<and>
    (\<exists>a. event_session s e = Some a \<and> sessions (srv_net s) a \<noteq> None \<and> sessions (srv_net s') a = None) \<and>
    GetCurrentSessionCount (svc s') = 0"
proof (rule example_turn)
  fix s e s' assume s: "server_run example_os 2 s"
    and e: "overlapped (example_os (hist (srv_net s)) (GetQueuedCompletionStatus (GetIocpCore (svc s)) INFINITE)) = Some e"
    and turn: "IocpCore_Dispatch example_os (GetIocpCore (svc s)) INFINITE s = Some (Inr (True, s'))"
  obtain ev a se where "events s e = Some ev" "session ev = Some a" "sessions (srv_net s) a = Some (se, 1)"
      "sessions (srv_net s') a = None" "GetCurrentSessionCount (svc s') = 0"
    using accepted_client_disconnected [OF example_os_ok s refl turn] e by auto
  then show ?thesis using s e turn
    by (intro exI [of _ s] exI [of _ s'] exI [of _ e] conjI exI [of _ a]) (simp_all add: event_session_def)
qed

theorem dispatch_outcomes_witness:
  "\<exists>s s'. server_run example_os 2 s \<and>
    IocpCore_Dispatch example_os (GetIocpCore (svc s)) INFINITE s = Some (Inr (True, s')) \<and>
    server_run example_os 2 s'"
proof (rule example_turn)
  fix s e s' assume s: "server_run example_os 2 s"
    and turn: "IocpCore_Dispatch example_os (GetIocpCore (svc s)) INFINITE s = Some (Inr (True, s'))"
  show ?thesis using dispatch_outcomes [OF example_os_ok s refl, of INFINITE] s turn by auto
qed


end
