(* ===== verification/Core_Global.thy ===== *)
theory Core_Global
  imports Server_Safety Lock_Threads DeadLock_Profiler Memory_Client
begin











end
