(* ===== verification/Shutdown.thy ===== *)
theory Shutdown
  imports Core_Global Memory_Together
begin

text \<open>
  The end of the process: \<^verbatim>\<open>Join\<close> as a function, \<^verbatim>\<open>~ThreadManager\<close> and \<^verbatim>\<open>~CoreGlobal\<close>. The
  destructors run after \<^verbatim>\<open>main\<close>; that of the game server never returns from \<^verbatim>\<open>Join\<close>, since the
  callbacks of its workers are endless loops.
\<close>

section \<open>Joining\<close>








section \<open>Destroying the managers\<close>








end
