(* ===== verification/Worker_Steps.thy ===== *)
theory Worker_Steps
  imports Game_Server
begin

text \<open>
  \<^verbatim>\<open>IocpCore::Dispatch\<close> as the worker threads of \<^verbatim>\<open>GameServer.cpp\<close> run it, all at the same
  time. \<open>worker_step\<close> is the code from \<^verbatim>\<open>GetQueuedCompletionStatus\<close> through the handlers of
  the listener to the end of the call, cut after every system call and every change of a reference
  count that another thread can see; the constructors of \<open>worker_pc\<close> are the places between the
  cuts, with the local variables that are live there. Run by one worker alone, the steps are exactly
  the functions of the theories \<open>Listener\<close> and \<open>Game_Server\<close>.
\<close>

section \<open>The places of a worker\<close>

text \<open>
  \<open>held\<close> are the local \<^verbatim>\<open>SessionRef\<close>s of the calls on the stack, the innermost first:
  \<^verbatim>\<open>session\<close> of the \<^verbatim>\<open>RegisterAccept\<close> calls that called each other and then that of
  \<^verbatim>\<open>ProcessAccept\<close>.
\<close>

datatype worker_pc =
    W_wait                                             \<comment> \<open>before \<open>GetQueuedCompletionStatus\<close>\<close>
  | W_event "nat option" uint32                        \<comment> \<open>before the copy of \<open>iocpEvent->owner\<close>\<close>
  | W_object IocpObject nat uint32                     \<comment> \<open>before \<open>iocpObject->Dispatch\<close>\<close>
  | W_accept nat nat                                   \<comment> \<open>before the copy of \<open>acceptEvent->session\<close>\<close>
  | W_update nat nat "nat option"                      \<comment> \<open>before \<open>SetUpdateAcceptSocket\<close>\<close>
  | W_peer nat nat "nat option"                        \<comment> \<open>before \<open>getpeername\<close>\<close>
  | W_connected nat nat "nat option" SOCKADDR_IN       \<comment> \<open>before \<open>SetNetAddress\<close>\<close>
  | W_print nat nat "nat option"
  | W_create nat nat "nat option list"                 \<comment> \<open>before the session factory\<close>
  | W_register nat nat "nat option list" "nat option"  \<comment> \<open>before \<open>Register\<close>\<close>
  | W_refused nat nat "nat option list" "nat option"   \<comment> \<open>\<open>CreateSession\<close> drops its session\<close>
  | W_attach nat nat "nat option list" "nat option"    \<comment> \<open>before \<open>Init\<close> and the assignment\<close>
  | W_assigned nat nat "nat option list" "nat option" "nat option"
                                                       \<comment> \<open>before the old reference is dropped\<close>
  | W_call nat nat "nat option list" "nat option"      \<comment> \<open>before \<open>AcceptEx\<close>\<close>
  | W_return nat "nat option list"                     \<comment> \<open>the calls return\<close>
  | W_release IocpObject                               \<comment> \<open>before \<open>iocpObject\<close> is dropped\<close>

section \<open>The steps\<close>

fun worker_step :: "os \<Rightarrow> worker_pc \<Rightarrow> server \<Rightarrow> (worker_pc \<times> server) outcome" where
\<comment> \<open>IocpCore::Dispatch\<close>
  "worker_step os W_wait s =
     (let (r, s) = on_net (sys os (GetQueuedCompletionStatus (GetIocpCore (svc s)) INFINITE)) s
      in if result r = 0 \<and> lastError r = WAIT_TIMEOUT then Inr (W_wait, s)
         else Inr (W_event (overlapped r) (numOfBytes r), s))"
| "worker_step os (W_event iocpEvent bytes) s = (case iocpEvent of
     None \<Rightarrow> Inl (UB ''null IocpEvent'')
   | Some e \<Rightarrow> and_then (the_event e s) (\<lambda>ev. case owner ev of
         None \<Rightarrow> Inl (UB ''null IocpObjectRef'')
       | Some obj \<Rightarrow> and_then (object_copy obj s) (\<lambda>s. Inr (W_object obj e bytes, s))))"
| "worker_step os (W_object obj e bytes) s = (case obj of
     Session_object sid \<Rightarrow> Inr (W_release obj, Session_Dispatch e bytes s)
   | Listener_object lid \<Rightarrow> and_then (the_event e s) (\<lambda>ev.
       and_then (ASSERT_CRASH (eventType ev = Accept)) (\<lambda>_. Inr (W_accept lid e, s))))"
\<comment> \<open>Listener::ProcessAccept\<close>
| "worker_step os (W_accept lid e) s = and_then (the_event e s) (\<lambda>ev.
     and_then (try_net (session_copy (session ev)) s) (\<lambda>s. Inr (W_update lid e (session ev), s)))"
| "worker_step os (W_update lid e ref) s =
     and_then (the_session ref (srv_net s)) (\<lambda>(sid, se). and_then (the_listener lid s) (\<lambda>l.
     let (updated, s) = on_net (SetUpdateAcceptSocket os (sess_socket se) (listen_socket l)) s
     in Inr (if \<not> updated then W_create lid e [ref] else W_peer lid e ref, s)))"
| "worker_step os (W_peer lid e ref) s =
     and_then (the_session ref (srv_net s)) (\<lambda>(sid, se).
     let (r, s) = on_net (sys os (getpeername (sess_socket se))) s
     in Inr (if result r = SOCKET_ERROR then W_create lid e [ref] else W_connected lid e ref (peer r), s))"
| "worker_step os (W_connected lid e ref addr) s =
     and_then (the_session ref (srv_net s)) (\<lambda>(sid, se).
     Inr (W_print lid e ref, s\<lparr>srv_net := set_session sid (SetNetAddress (NetAddress_of addr)) (srv_net s)\<rparr>))"
| "worker_step os (W_print lid e ref) s =
     (let (r, s) = on_net (sys os (print ''Client Connected!'')) s in Inr (W_create lid e [ref], s))"
\<comment> \<open>Listener::RegisterAccept and Service::CreateSession\<close>
| "worker_step os (W_create lid e held) s = and_then (the_listener lid s) (\<lambda>l.
     if \<not> has_service l then Inl (UB ''null ServerServiceRef'')
     else (case sessionFactory (svc s) of
         None \<Rightarrow> Inl (CRASH ''bad_function_call'')
       | Some factory \<Rightarrow> and_then (factory (srv_net s)) (\<lambda>(ref, n).
           Inr (W_register lid e held ref, s\<lparr>srv_net := n\<rparr>))))"
| "worker_step os (W_register lid e held ref) s =
     and_then (the_session ref (srv_net s)) (\<lambda>(sid, se).
     let (registered, s) = on_net (IocpCore_Register os (iocpCore (svc s)) (Session_GetHandle se)) s
     in Inr (if \<not> registered then W_refused lid e held ref else W_attach lid e held ref, s))"
| "worker_step os (W_refused lid e held ref) s =
     and_then (try_net (session_drop os ref) s) (\<lambda>s. Inr (W_attach lid e held None, s))"
| "worker_step os (W_attach lid e held ref) s = and_then (the_event e s) (\<lambda>ev.
     let s = s\<lparr>events := (events s)(e \<mapsto> (IocpEvent_Init ev)\<lparr>session := ref\<rparr>)\<rparr>
     in and_then (try_net (session_copy ref) s) (\<lambda>s. Inr (W_assigned lid e held ref (session ev), s)))"
| "worker_step os (W_assigned lid e held ref old) s =
     and_then (try_net (session_drop os old) s) (\<lambda>s. Inr (W_call lid e held ref, s))"
| "worker_step os (W_call lid e held ref) s =
     and_then (the_session ref (srv_net s)) (\<lambda>(sid, se). and_then (the_listener lid s) (\<lambda>l.
     if AcceptEx_fn (srv_net s) = 0 then Inl (UB ''null AcceptEx'')
     else let (r, s) = on_net (sys os (AcceptEx (listen_socket l) (sess_socket se) 0
                (16 + 16) (16 + 16) e)) s
       in Inr (if result r = 0 \<and> lastError r \<noteq> ERROR_IO_PENDING then W_create lid e (ref # held)
               else W_return lid (ref # held), s)))"
| "worker_step os (W_return lid []) s = Inr (W_release (Listener_object lid), s)"
| "worker_step os (W_return lid (ref # held)) s =
     and_then (try_net (session_drop os ref) s) (\<lambda>s. Inr (W_return lid held, s))"
\<comment> \<open>the end of IocpCore::Dispatch\<close>
| "worker_step os (W_release obj) s = and_then (object_drop os obj s) (\<lambda>s. Inr (W_wait, s))"

section \<open>Many workers\<close>

record workers =
  srv :: server
  worker_at :: "nat \<Rightarrow> worker_pc"
  halted :: "failure option"

definition workers_start :: "server \<Rightarrow> workers" where
  "workers_start s = \<lparr>srv = s, worker_at = (\<lambda>_. W_wait), halted = None\<rparr>"

text \<open>A step of worker \<open>t\<close>; a crash of one thread ends the process.\<close>

definition worker_moves :: "os \<Rightarrow> nat \<Rightarrow> workers \<Rightarrow> workers" where
  "worker_moves os t ws = (case worker_step os (worker_at ws t) (srv ws) of
     Inl e \<Rightarrow> ws\<lparr>halted := Some e\<rparr>
   | Inr (p, s) \<Rightarrow> ws\<lparr>srv := s, worker_at := (worker_at ws)(t := p)\<rparr>)"

inductive workers_step :: "os \<Rightarrow> nat set \<Rightarrow> workers \<Rightarrow> workers \<Rightarrow> bool" for os T where
  move: "halted ws = None \<Longrightarrow> t \<in> T \<Longrightarrow> workers_step os T ws (worker_moves os t ws)"

inductive_cases workers_stepE: "workers_step os T ws ws'"

text \<open>From a started server on, with workers \<open>T\<close>, in any order of their steps.\<close>

inductive workers_run :: "os \<Rightarrow> nat set \<Rightarrow> server \<Rightarrow> workers \<Rightarrow> bool" for os T s0 where
  run_begin: "workers_run os T s0 (workers_start s0)"
| run_step: "workers_run os T s0 ws \<Longrightarrow> workers_step os T ws ws' \<Longrightarrow> workers_run os T s0 ws'"

end
