(* ===== verification/Worker_Alone.thy ===== *)
theory Worker_Alone
  imports Worker_Steps
begin

text \<open>
  A worker that runs alone does in its steps exactly what the functions of \<open>Listener\<close> and
  \<open>Game_Server\<close> say, from the same failures to never returning.
\<close>

section \<open>One worker alone\<close>

text \<open>The steps of one worker until it waits again, at most \<open>n\<close> of them.\<close>

fun turn :: "nat \<Rightarrow> os \<Rightarrow> worker_pc \<Rightarrow> server \<Rightarrow> server run" where
  "turn 0 os p s = None"
| "turn (Suc n) os p s = (case worker_step os p s of
     Inl x \<Rightarrow> Some (Inl x)
   | Inr (p', s') \<Rightarrow> if p' = W_wait then Some (Inr s') else turn n os p' s')"

lemma turn_more: "turn n os p s = Some r \<Longrightarrow> n \<le> m \<Longrightarrow> turn m os p s = Some r"
proof (induction n os p s arbitrary: m rule: turn.induct)
  case (2 n os p s)
  then obtain m' where "m = Suc m'" "n \<le> m'" by (cases m) auto
  then show ?case using 2 by (auto split: sum.splits if_splits)
qed simp

text \<open>What a worker alone comes to after one or more steps, before it waits again.\<close>

inductive reaches :: "os \<Rightarrow> worker_pc \<Rightarrow> server \<Rightarrow> (worker_pc \<times> server) outcome \<Rightarrow> bool" for os where
  reach_stop: "worker_step os p s = Inl x \<Longrightarrow> reaches os p s (Inl x)"
| reach_one: "worker_step os p s = Inr (p', s') \<Longrightarrow> p' \<noteq> W_wait \<Longrightarrow> reaches os p s (Inr (p', s'))"
| reach_more: "worker_step os p s = Inr (p', s') \<Longrightarrow> p' \<noteq> W_wait \<Longrightarrow> reaches os p' s' res \<Longrightarrow>
     reaches os p s res"

lemma reaches_turn:
  assumes "reaches os p s res" "turn n os p s = Some r"
  shows "case res of Inl x \<Rightarrow> r = Inl x | Inr (p', s') \<Rightarrow> \<exists>n' < n. turn n' os p' s' = Some r"
  using assms
proof (induction arbitrary: n rule: reaches.induct)
  case (reach_stop p s x)
  then show ?case by (cases n) auto
next
  case (reach_one p s p' s')
  then show ?case by (cases n) auto
next
  case (reach_more p s p' s' res)
  then obtain m where m: "n = Suc m" "turn m os p' s' = Some r" by (cases n) auto
  then have "case res of Inl x \<Rightarrow> r = Inl x | Inr (p', s') \<Rightarrow> \<exists>n' < m. turn n' os p' s' = Some r"
    using reach_more.IH by blast
  then show ?case using m(1) by (auto split: sum.splits intro: less_SucI)
qed

lemma turn_reaches_stop: "reaches os p s res \<Longrightarrow> res = Inl x \<Longrightarrow> \<exists>n. turn n os p s = Some (Inl x)"
proof (induction rule: reaches.induct)
  case (reach_stop p s y)
  then show ?case by (intro exI [of _ "Suc 0"]) simp
next
  case (reach_more p s p' s' res)
  then obtain n where "turn n os p' s' = Some (Inl x)" by blast
  then show ?case using reach_more.hyps by (intro exI [of _ "Suc n"]) simp
qed simp

lemma turn_reaches:
  "reaches os p s res \<Longrightarrow> res = Inr (q, t) \<Longrightarrow> turn m os q t = Some r \<Longrightarrow> \<exists>n. turn n os p s = Some r"
proof (induction rule: reaches.induct)
  case (reach_one p s p' s')
  then show ?case by (intro exI [of _ "Suc m"]) simp
next
  case (reach_more p s p' s' res)
  then obtain n where "turn n os p' s' = Some r" by blast
  then show ?case using reach_more.hyps by (intro exI [of _ "Suc n"]) simp
qed simp

definition ends_in :: "os \<Rightarrow> worker_pc \<Rightarrow> server \<Rightarrow> server outcome \<Rightarrow> bool" where
  "ends_in os p s r \<longleftrightarrow> (\<exists>n. turn n os p s = Some r)"

lemma ends_in_reaches:
  assumes "reaches os p s res"
  shows "ends_in os p s r \<longleftrightarrow> (case res of Inl x \<Rightarrow> r = Inl x | Inr (p', s') \<Rightarrow> ends_in os p' s' r)"
proof (cases res)
  case (Inl x)
  then show ?thesis
    using reaches_turn [OF assms] turn_reaches_stop [OF assms] unfolding ends_in_def by auto
next
  case (Inr b)
  obtain p' s' where b: "b = (p', s')" by force
  show ?thesis
    using reaches_turn [OF assms] turn_reaches [OF assms, of p' s'] Inr b unfolding ends_in_def by fastforce
qed

lemma ends_in_step:
  "worker_step os p s = Inl x \<Longrightarrow> ends_in os p s r \<longleftrightarrow> r = Inl x"
  "worker_step os p s = Inr (W_wait, s') \<Longrightarrow> ends_in os p s r \<longleftrightarrow> r = Inr s'"
  "worker_step os p s = Inr (p', s') \<Longrightarrow> p' \<noteq> W_wait \<Longrightarrow> ends_in os p s r \<longleftrightarrow> ends_in os p' s' r"
proof -
  show "worker_step os p s = Inl x \<Longrightarrow> ends_in os p s r \<longleftrightarrow> r = Inl x"
    using ends_in_reaches [OF reach_stop, of os p s x r] by simp
  show "worker_step os p s = Inr (p', s') \<Longrightarrow> p' \<noteq> W_wait \<Longrightarrow> ends_in os p s r \<longleftrightarrow> ends_in os p' s' r"
    using ends_in_reaches [OF reach_one, of os p s p' s' r] by simp
  assume step: "worker_step os p s = Inr (W_wait, s')"
  have "turn n os p s = Some r \<Longrightarrow> r = Inr s'" for n using step by (cases n) auto
  moreover have "turn (Suc 0) os p s = Some (Inr s')" using step by simp
  ultimately show "ends_in os p s r \<longleftrightarrow> r = Inr s'" unfolding ends_in_def by blast
qed

section \<open>The handlers as functions\<close>

text \<open>The local references are dropped, innermost first, and then \<^verbatim>\<open>iocpObject\<close>.\<close>

fun drop_all :: "os \<Rightarrow> nat option list \<Rightarrow> server \<Rightarrow> server outcome" where
  "drop_all os [] s = Inr s"
| "drop_all os (ref # held) s = and_then (try_net (session_drop os ref) s) (drop_all os held)"

definition unwind :: "os \<Rightarrow> nat \<Rightarrow> nat option list \<Rightarrow> server \<Rightarrow> server outcome" where
  "unwind os lid held s = and_then (drop_all os held s) (object_drop os (Listener_object lid))"

lemma release_ends: "ends_in os (W_release obj) s r \<longleftrightarrow> r = object_drop os obj s"
  by (cases "object_drop os obj s") (simp_all add: ends_in_step)

lemma return_ends: "ends_in os (W_return lid held) s r \<longleftrightarrow> r = unwind os lid held s"
proof (induction held arbitrary: s)
  case Nil
  then show ?case by (simp add: ends_in_step(3) [where p' = "W_release (Listener_object lid)" and s' = s]
      release_ends unwind_def)
next
  case (Cons ref held)
  show ?case
  proof (cases "try_net (session_drop os ref) s")
    case (Inl x)
    then show ?thesis by (simp add: ends_in_step(1) [where x = x] unwind_def)
  next
    case (Inr s')
    then show ?thesis
      by (simp add: ends_in_step(3) [where p' = "W_return lid held" and s' = s'] Cons.IH unwind_def)
  qed
qed

text \<open>One turn of \<^verbatim>\<open>RegisterAccept\<close> is the steps from the factory to \<^verbatim>\<open>AcceptEx\<close>.\<close>

definition accept_call :: "os \<Rightarrow> listener \<Rightarrow> nat \<Rightarrow> nat option \<Rightarrow> server \<Rightarrow> ((bool \<times> nat option) \<times> server) outcome" where
  "accept_call os l e ref s = and_then (the_session ref (srv_net s)) (\<lambda>(sid, se).
       if AcceptEx_fn (srv_net s) = 0 then Inl (UB ''null AcceptEx'')
       else let (r, s) = on_net (sys os (AcceptEx (listen_socket l) (sess_socket se) 0
                  (16 + 16) (16 + 16) e)) s
         in Inr ((result r = 0 \<and> lastError r \<noteq> ERROR_IO_PENDING, ref), s))"

definition after_try ::
  "nat \<Rightarrow> nat \<Rightarrow> nat option list \<Rightarrow> ((bool \<times> nat option) \<times> server) outcome \<Rightarrow> (worker_pc \<times> server) outcome" where
  "after_try lid e held res = and_then res (\<lambda>((again, ref), s).
     Inr (if again then W_create lid e (ref # held) else W_return lid (ref # held), s))"

lemma call_steps:
  assumes "the_listener lid s = Inr l"
  shows "reaches os (W_call lid e held ref) s (after_try lid e held (accept_call os l e ref s))"
proof -
  have eq: "worker_step os (W_call lid e held ref) s = after_try lid e held (accept_call os l e ref s)"
    using assms by (auto simp: after_try_def accept_call_def and_then_def Let_def split: sum.splits prod.splits)
  show ?thesis
  proof (cases "after_try lid e held (accept_call os l e ref s)")
    case (Inl x)
    then show ?thesis using eq reach_stop by metis
  next
    case (Inr ps)
    obtain p' s' where ps: "ps = (p', s')" by force
    have "p' \<noteq> W_wait"
      using Inr ps by (auto simp: after_try_def and_then_def split: sum.splits prod.splits if_splits)
    then show ?thesis using eq Inr ps reach_one by metis
  qed
qed

lemma attach_listeners: "attach_session os e ref s = Inr s' \<Longrightarrow> the_listener lid s' = the_listener lid s"
  by (auto simp: attach_session_def try_net_def the_listener_def outcome_simps Let_def)

lemma attach_steps:
  assumes "the_listener lid s = Inr l"
  shows "reaches os (W_attach lid e held ref) s
    (after_try lid e held (and_then (attach_session os e ref s) (accept_call os l e ref)))"
proof (cases "the_event e s")
  case (Inl x)
  then show ?thesis by (auto simp: attach_session_def after_try_def intro: reach_stop)
next
  case (Inr ev)
  define s1 where "s1 = s\<lparr>events := (events s)(e \<mapsto> (IocpEvent_Init ev)\<lparr>session := ref\<rparr>)\<rparr>"
  show ?thesis
  proof (cases "try_net (session_copy ref) s1")
    case (Inl x)
    then show ?thesis using Inr by (auto simp: attach_session_def after_try_def s1_def intro: reach_stop)
  next
    case copied: (Inr s2)
    then have step: "worker_step os (W_attach lid e held ref) s = Inr (W_assigned lid e held ref (session ev), s2)"
      using Inr by (simp add: s1_def)
    have att: "attach_session os e ref s = try_net (session_drop os (session ev)) s2"
      using Inr copied by (simp add: attach_session_def s1_def)
    show ?thesis
    proof (cases "try_net (session_drop os (session ev)) s2")
      case (Inl x)
      then have "worker_step os (W_assigned lid e held ref (session ev)) s2 = Inl x" by simp
      from reach_more [OF step _ reach_stop [OF this]] show ?thesis
        using Inl by (simp add: att after_try_def)
    next
      case (Inr s3)
      then have step2: "worker_step os (W_assigned lid e held ref (session ev)) s2 = Inr (W_call lid e held ref, s3)"
        by simp
      have "the_listener lid s3 = Inr l" using attach_listeners att Inr assms by metis
      from reach_more [OF step _ reach_more [OF step2 _ call_steps [OF this]]] show ?thesis
        using Inr by (simp add: att)
    qed
  qed
qed

lemma RegisterAccept_try_eq:
  "RegisterAccept_try os lid e s = and_then (the_listener lid s) (\<lambda>l.
     if \<not> has_service l then Inl (UB ''null ServerServiceRef'')
     else and_then (CreateSession os (svc s) (srv_net s)) (\<lambda>(ref, n).
       and_then (attach_session os e ref (s\<lparr>srv_net := n\<rparr>)) (accept_call os l e ref)))"
  by (simp add: RegisterAccept_try_def accept_call_def [abs_def] cong: if_cong)

text \<open>From the registration on, for a session \<open>ref\<close> that the factory has made.\<close>

definition register_made :: "os \<Rightarrow> server_service \<Rightarrow> nat option \<Rightarrow> net \<Rightarrow> (nat option \<times> net) outcome" where
  "register_made os sv ref n = and_then (the_session ref n) (\<lambda>(sid, se).
     let (registered, n) = IocpCore_Register os (iocpCore sv) (Session_GetHandle se) n
     in if \<not> registered then and_then (session_drop os ref n) (\<lambda>n. Inr (None, n)) else Inr (ref, n))"

lemma register_steps:
  assumes "the_listener lid s = Inr l"
  shows "reaches os (W_register lid e held ref) s (after_try lid e held
    (and_then (register_made os (svc s) ref (srv_net s)) (\<lambda>(ref, n).
       and_then (attach_session os e ref (s\<lparr>srv_net := n\<rparr>)) (accept_call os l e ref))))"
proof (cases "the_session ref (srv_net s)")
  case (Inl x)
  then show ?thesis by (auto simp: register_made_def after_try_def intro: reach_stop)
next
  case (Inr sse)
  obtain sid se where se: "sse = (sid, se)" by force
  obtain b n where reg: "IocpCore_Register os (iocpCore (svc s)) (Session_GetHandle se) (srv_net s) = (b, n)"
    by force
  have lis: "the_listener lid (s\<lparr>srv_net := m\<rparr>) = Inr l" for m using assms by (simp add: the_listener_def)
  have step: "worker_step os (W_register lid e held ref) s =
      Inr (if \<not> b then W_refused lid e held ref else W_attach lid e held ref, s\<lparr>srv_net := n\<rparr>)"
    using Inr se reg by (simp add: on_net_def)
  show ?thesis
  proof (cases b)
    case True
    have go: "worker_step os (W_register lid e held ref) s = Inr (W_attach lid e held ref, s\<lparr>srv_net := n\<rparr>)"
      unfolding step using True by simp
    from reach_more [OF go _ attach_steps [OF lis]] show ?thesis
      using Inr se reg True by (simp add: register_made_def)
  next
    case False
    have go: "worker_step os (W_register lid e held ref) s = Inr (W_refused lid e held ref, s\<lparr>srv_net := n\<rparr>)"
      unfolding step using False by simp
    show ?thesis
    proof (cases "session_drop os ref n")
      case (Inl x)
      then have "worker_step os (W_refused lid e held ref) (s\<lparr>srv_net := n\<rparr>) = Inl x" by (simp add: try_net_def)
      from reach_stop [OF this] show ?thesis
        using reach_more [OF go] False \<open>the_session ref (srv_net s) = Inr sse\<close> se reg Inl
        by (simp add: register_made_def after_try_def)
    next
      case (Inr m)
      then have step2: "worker_step os (W_refused lid e held ref) (s\<lparr>srv_net := n\<rparr>) =
          Inr (W_attach lid e held None, s\<lparr>srv_net := m\<rparr>)" by (simp add: try_net_def)
      from reach_more [OF this _ attach_steps [OF lis]] show ?thesis
        using reach_more [OF go] False \<open>the_session ref (srv_net s) = Inr sse\<close> se reg Inr
        by (simp add: register_made_def)
    qed
  qed
qed

lemma register_try_steps:
  "reaches os (W_create lid e held) s (after_try lid e held (RegisterAccept_try os lid e s))"
proof -
  have stop: ?thesis if "worker_step os (W_create lid e held) s = Inl x" "RegisterAccept_try os lid e s = Inl x" for x
    using reach_stop [OF that(1)] that(2) by (simp add: after_try_def)
  show ?thesis
  proof (cases "the_listener lid s")
    case (Inl x)
    then show ?thesis using stop by (simp add: RegisterAccept_try_eq)
  next
    case (Inr l)
    show ?thesis
    proof (cases "has_service l \<and> sessionFactory (svc s) \<noteq> None")
      case False
      then show ?thesis using stop Inr by (auto simp: RegisterAccept_try_eq CreateSession_def)
    next
      case True
      then obtain factory where f: "has_service l" "sessionFactory (svc s) = Some factory" by blast
      show ?thesis
      proof (cases "factory (srv_net s)")
        case (Inl x)
        then show ?thesis using stop Inr f by (simp add: RegisterAccept_try_eq CreateSession_def)
      next
        case made: (Inr rn)
        obtain ref n where rn: "rn = (ref, n)" by force
        have step: "worker_step os (W_create lid e held) s = Inr (W_register lid e held ref, s\<lparr>srv_net := n\<rparr>)"
          using Inr f made rn by simp
        have create: "CreateSession os (svc s) (srv_net s) = register_made os (svc s) ref n"
          using f made rn by (simp add: CreateSession_def register_made_def)
        have lis: "the_listener lid (s\<lparr>srv_net := n\<rparr>) = Inr l" using Inr by (simp add: the_listener_def)
        show ?thesis
          using reach_more [OF step _ register_steps [OF lis]] Inr f(1)
          by (simp add: RegisterAccept_try_eq create)
      qed
    qed
  qed
qed

section \<open>Whole calls\<close>

lemma register_ends_if:
  assumes "RegisterAccept os lid e s = Some q"
  shows "\<forall>held. ends_in os (W_create lid e held) s (and_then q (unwind os lid held))"
  using assms
proof (induction rule: RegisterAccept.raw_induct [rotated, consumes 1, case_names step])
  case (step f os lid e s q)
  show ?case
  proof
    fix held
    note once = ends_in_reaches [OF register_try_steps [of os lid e held s]]
    show "ends_in os (W_create lid e held) s (and_then q (unwind os lid held))"
    proof (cases "RegisterAccept_try os lid e s")
      case (Inl x)
      then have "q = Inl x" using step(2) by simp
      then show ?thesis using Inl by (simp add: once after_try_def)
    next
      case (Inr ars)
      obtain again ref s1 where ars: "ars = ((again, ref), s1)" by (metis surj_pair)
      show ?thesis
      proof (cases again)
        case False
        then have "q = try_net (session_drop os ref) s1" using step(2) Inr ars by simp
        then show ?thesis
          using Inr ars False by (simp add: once after_try_def return_ends unwind_def [abs_def] and_then_assoc)
      next
        case True
        then obtain q1 where q1: "f os lid e s1 = Some q1" "q = and_then q1 (try_net (session_drop os ref))"
          using step(2) Inr ars by (auto simp: Option.bind_eq_Some_conv)
        have "ends_in os (W_create lid e (ref # held)) s1 (and_then q1 (unwind os lid (ref # held)))"
          using step(1) [OF q1(1)] by blast
        moreover have "and_then q1 (unwind os lid (ref # held)) = and_then q (unwind os lid held)"
          by (cases q1) (simp_all add: q1(2) unwind_def [abs_def] and_then_assoc)
        ultimately show ?thesis using Inr ars True by (simp add: once after_try_def)
      qed
    qed
  qed
qed

lemma register_ends_only:
  "turn n os (W_create lid e held) s = Some r \<Longrightarrow> RegisterAccept os lid e s \<noteq> None"
proof (induction n arbitrary: held s rule: less_induct)
  case (less n)
  note once = reaches_turn [OF register_try_steps less.prems]
  show ?case
  proof (cases "RegisterAccept_try os lid e s")
    case (Inl x)
    then show ?thesis by (simp add: RegisterAccept.simps)
  next
    case (Inr ars)
    obtain again ref s1 where ars: "ars = ((again, ref), s1)" by (metis surj_pair)
    show ?thesis
    proof (cases again)
      case False
      then show ?thesis using Inr ars by (simp add: RegisterAccept.simps)
    next
      case True
      then obtain n' where "n' < n" "turn n' os (W_create lid e (ref # held)) s1 = Some r"
        using once Inr ars by (auto simp: after_try_def)
      then have "RegisterAccept os lid e s1 \<noteq> None" by (rule less.IH)
      then show ?thesis using Inr ars True by (subst RegisterAccept.simps) auto
    qed
  qed
qed

lemma turn_unique: "ends_in os p s r \<Longrightarrow> ends_in os p s r' \<Longrightarrow> r = r'"
proof -
  assume "ends_in os p s r" "ends_in os p s r'"
  then obtain n m where n: "turn n os p s = Some r" and m: "turn m os p s = Some r'"
    by (auto simp: ends_in_def)
  have "turn (max n m) os p s = Some r" "turn (max n m) os p s = Some r'"
    by (rule turn_more [OF n], simp, rule turn_more [OF m], simp)
  then show "r = r'" by simp
qed

lemma register_ends:
  "ends_in os (W_create lid e held) s r \<longleftrightarrow>
     run_then (RegisterAccept os lid e s) (\<lambda>s. Some (unwind os lid held s)) = Some r"
proof (cases "RegisterAccept os lid e s")
  case None
  then have "\<not> ends_in os (W_create lid e held) s r"
    using register_ends_only unfolding ends_in_def by blast
  then show ?thesis using None by simp
next
  case (Some q)
  have "ends_in os (W_create lid e held) s (and_then q (unwind os lid held))"
    using register_ends_if [OF Some] by blast
  then have "ends_in os (W_create lid e held) s r \<longleftrightarrow> r = and_then q (unwind os lid held)"
    using turn_unique by blast
  then show ?thesis using Some by (cases q) auto
qed

text \<open>\<^verbatim>\<open>ProcessAccept\<close> with the release of the object that dispatched it.\<close>

lemma done_ends:
  "ends_in os (W_create lid e [ref]) s r \<longleftrightarrow>
     run_then (run_then (RegisterAccept os lid e s) (\<lambda>s. Some (try_net (session_drop os ref) s)))
       (\<lambda>s. Some (object_drop os (Listener_object lid) s)) = Some r"
  unfolding register_ends unwind_def
  by (cases "RegisterAccept os lid e s")
    (auto simp: run_then_def and_then_def split: sum.splits)

lemma ends_in_go:
  assumes "worker_step os p s = Inr (p', s')" "p' \<noteq> W_wait" "ends_in os p' s' r \<longleftrightarrow> P"
  shows "ends_in os p s r \<longleftrightarrow> P"
  using ends_in_step(3) [OF assms(1,2)] assms(3) by simp

text \<open>From \<^verbatim>\<open>SetUpdateAcceptSocket\<close> to the end of \<^verbatim>\<open>ProcessAccept\<close>.\<close>

definition process_rest :: "os \<Rightarrow> nat \<Rightarrow> nat \<Rightarrow> nat option \<Rightarrow> nat \<Rightarrow> Session \<Rightarrow> listener \<Rightarrow> server \<Rightarrow> server run" where
  "process_rest os lid e ref sid se l s =
     (let done_with = (\<lambda>s. run_then (RegisterAccept os lid e s) (\<lambda>s. Some (try_net (session_drop os ref) s)));
          (updated, s) = on_net (SetUpdateAcceptSocket os (sess_socket se) (listen_socket l)) s
        in if \<not> updated then done_with s
           else let (r, s) = on_net (sys os (getpeername (sess_socket se))) s
             in if result r = SOCKET_ERROR then done_with s
                else let s = s\<lparr>srv_net := set_session sid (SetNetAddress (NetAddress_of (peer r))) (srv_net s)\<rparr>;
                         (r, s) = on_net (sys os (print ''Client Connected!'')) s
                  in done_with s)"

lemma update_ends:
  assumes se: "the_session ref (srv_net s) = Inr (sid, se)" and l: "the_listener lid s = Inr l"
  shows "ends_in os (W_update lid e ref) s r \<longleftrightarrow>
    run_then (process_rest os lid e ref sid se l s) (\<lambda>s. Some (object_drop os (Listener_object lid) s)) = Some r"
proof -
  define h where "h = hist (srv_net s)"
  define with_hist where "with_hist = (\<lambda>h. s\<lparr>srv_net := (srv_net s)\<lparr>hist := h\<rparr>\<rparr>)"
  define c1 where "c1 = setsockopt (sess_socket se) SOL_SOCKET SO_UPDATE_ACCEPT_CONTEXT (Opt_socket (listen_socket l))"
  define h1 where "h1 = (c1, os h c1) # h"
  define c2 where "c2 = getpeername (sess_socket se)"
  define h2 where "h2 = (c2, os h1 c2) # h1"
  define s3 where "s3 = (with_hist h2)\<lparr>srv_net := set_session sid (SetNetAddress (NetAddress_of (peer (os h1 c2)))) (srv_net (with_hist h2))\<rparr>"
  define s4 where "s4 = snd (on_net (sys os (print ''Client Connected!'')) s3)"
  define bad1 where "bad1 \<longleftrightarrow> result (os h c1) = SOCKET_ERROR"
  define bad2 where "bad2 \<longleftrightarrow> result (os h1 c2) = SOCKET_ERROR"
  have live: "the_session ref (srv_net (with_hist g)) = Inr (sid, se)" for g
  proof -
    have "sessions (srv_net (with_hist g)) = sessions (srv_net s)" by (simp add: with_hist_def)
    then show ?thesis using se by (simp only: the_session_def)
  qed
  have step1: "worker_step os (W_update lid e ref) s =
      Inr (if bad1 then W_create lid e [ref] else W_peer lid e ref, with_hist h1)"
    using se l by (simp add: on_net_def SetUpdateAcceptSocket_def SetSockOpt_eq Let_def with_hist_def h1_def c1_def
        h_def bad1_def)
  have step2: "worker_step os (W_peer lid e ref) (with_hist h1) =
      Inr (if bad2 then W_create lid e [ref] else W_connected lid e ref (peer (os h1 c2)), with_hist h2)"
    using live [of h1] by (simp add: on_net_def sys_def Let_def with_hist_def h2_def c2_def bad2_def)
  have step3: "worker_step os (W_connected lid e ref (peer (os h1 c2))) (with_hist h2) = Inr (W_print lid e ref, s3)"
    using live [of h2] by (simp add: s3_def)
  have step4: "worker_step os (W_print lid e ref) s3 = Inr (W_create lid e [ref], s4)"
    by (simp add: s4_def on_net_def sys_def Let_def)
  have rest: "process_rest os lid e ref sid se l s =
      run_then (RegisterAccept os lid e (if bad1 then with_hist h1 else if bad2 then with_hist h2 else s4))
        (\<lambda>s. Some (try_net (session_drop os ref) s))"
    by (simp add: process_rest_def on_net_def SetUpdateAcceptSocket_def SetSockOpt_eq sys_def Let_def with_hist_def
        h1_def h2_def c1_def c2_def h_def bad1_def bad2_def s3_def s4_def)
  consider "bad1" | "\<not> bad1" "bad2" | "\<not> bad1" "\<not> bad2" by blast
  then show ?thesis
  proof cases
    case 1
    then have "worker_step os (W_update lid e ref) s = Inr (W_create lid e [ref], with_hist h1)"
      unfolding step1 by simp
    then show ?thesis unfolding rest by (rule ends_in_go) (simp_all add: 1 done_ends)
  next
    case 2
    then have go: "worker_step os (W_update lid e ref) s = Inr (W_peer lid e ref, with_hist h1)"
      "worker_step os (W_peer lid e ref) (with_hist h1) = Inr (W_create lid e [ref], with_hist h2)"
      unfolding step1 step2 by simp_all
    show ?thesis unfolding rest by (intro ends_in_go [OF go(1)] ends_in_go [OF go(2)]) (simp_all add: 2 done_ends)
  next
    case 3
    then have go: "worker_step os (W_update lid e ref) s = Inr (W_peer lid e ref, with_hist h1)"
      "worker_step os (W_peer lid e ref) (with_hist h1) = Inr (W_connected lid e ref (peer (os h1 c2)), with_hist h2)"
      unfolding step1 step2 by simp_all
    show ?thesis unfolding rest
      by (intro ends_in_go [OF go(1)] ends_in_go [OF go(2)] ends_in_go [OF step3] ends_in_go [OF step4])
        (simp_all add: 3 done_ends)
  qed
qed

lemma accept_ends:
  "ends_in os (W_accept lid e) s r \<longleftrightarrow>
     run_then (ProcessAccept os lid e s) (\<lambda>s. Some (object_drop os (Listener_object lid) s)) = Some r"
proof (cases "the_event e s")
  case (Inl x)
  then show ?thesis by (auto simp: ProcessAccept_def ends_in_step(1) [where x = x])
next
  case (Inr ev)
  note ev = Inr
  show ?thesis
  proof (cases "try_net (session_copy (session ev)) s")
    case (Inl x)
    then show ?thesis using ev by (auto simp: ProcessAccept_def ends_in_step(1) [where x = x])
  next
    case (Inr s1)
    note s1 = Inr
    have step1: "worker_step os (W_accept lid e) s = Inr (W_update lid e (session ev), s1)"
      using ev s1 by simp
    show ?thesis
    proof (cases "\<exists>x. the_session (session ev) (srv_net s1) = Inl x \<or> the_listener lid s1 = Inl x")
      case True
      then obtain x where "worker_step os (W_update lid e (session ev)) s1 = Inl x"
          "ProcessAccept os lid e s = Some (Inl x)"
        using ev s1 by (cases "the_session (session ev) (srv_net s1)") (auto simp: ProcessAccept_def)
      then show ?thesis by (intro ends_in_go [OF step1]) (auto simp: ends_in_step(1))
    next
      case False
      then obtain sid se l where se: "the_session (session ev) (srv_net s1) = Inr (sid, se)"
          and l: "the_listener lid s1 = Inr l"
        by (cases "the_session (session ev) (srv_net s1)"; cases "the_listener lid s1") auto
      have "ProcessAccept os lid e s = process_rest os lid e (session ev) sid se l s1"
        using ev s1 se l by (simp add: ProcessAccept_def process_rest_def Let_def)
      then show ?thesis using update_ends [OF se l] by (intro ends_in_go [OF step1]) simp_all
    qed
  qed
qed

text \<open>The rest of \<^verbatim>\<open>Dispatch\<close>.\<close>

lemma object_ends:
  "ends_in os (W_object obj e bytes) s r \<longleftrightarrow>
     run_then (object_Dispatch os obj e bytes s) (\<lambda>s. Some (object_drop os obj s)) = Some r"
proof (cases obj)
  case (Session_object sid)
  have "worker_step os (W_object obj e bytes) s = Inr (W_release obj, s)"
    by (simp add: Session_object Session_Dispatch_def)
  then show ?thesis
    by (rule ends_in_go) (auto simp: Session_object Session_Dispatch_def object_Dispatch_def release_ends)
next
  case (Listener_object lid)
  show ?thesis
  proof (cases "\<exists>ev. the_event e s = Inr ev \<and> eventType ev = Accept")
    case False
    have "\<exists>x. worker_step os (W_object obj e bytes) s = Inl x \<and> object_Dispatch os obj e bytes s = Some (Inl x)"
      using False by (cases "the_event e s")
        (auto simp: Listener_object object_Dispatch_def Listener_Dispatch_def ASSERT_CRASH_def)
    then show ?thesis by (auto simp: ends_in_step(1))
  next
    case True
    then have go: "worker_step os (W_object obj e bytes) s = Inr (W_accept lid e, s)"
      and disp: "object_Dispatch os obj e bytes s = ProcessAccept os lid e s"
      by (auto simp: Listener_object object_Dispatch_def Listener_Dispatch_def)
    show ?thesis by (rule ends_in_go [OF go]) (simp_all add: disp [unfolded Listener_object] Listener_object accept_ends)
  qed
qed

lemma event_ends: "ends_in os (W_event iocpEvent bytes) s r \<longleftrightarrow> dispatch_event os iocpEvent bytes s = Some r"
proof (cases "\<exists>x. worker_step os (W_event iocpEvent bytes) s = Inl x")
  case True
  then obtain x where x: "worker_step os (W_event iocpEvent bytes) s = Inl x" by blast
  then have "dispatch_event os iocpEvent bytes s = Some (Inl x)"
    by (auto simp: dispatch_event_def and_then_def run_then_def split: option.splits sum.splits)
  then show ?thesis by (auto simp: ends_in_step(1) [OF x])
next
  case False
  obtain e ev obj s1 where parts: "iocpEvent = Some e" "the_event e s = Inr ev" "owner ev = Some obj"
      "object_copy obj s = Inr s1"
    using False by (auto simp: and_then_def split: option.splits sum.splits)
  then have "worker_step os (W_event iocpEvent bytes) s = Inr (W_object obj e bytes, s1)" by simp
  then show ?thesis by (rule ends_in_go) (simp_all add: parts dispatch_event_def object_ends)
qed

text \<open>
  C13. One call of \<^verbatim>\<open>Dispatch\<close> that no other worker interleaves with: its steps end in exactly
  the result of the function \<open>IocpCore_Dispatch\<close>, be it a state or a stop, and they go on for ever
  exactly when the function does not return.
\<close>

theorem worker_alone_refines_dispatch:
  "(\<exists>n. turn n os W_wait s = Some r) \<longleftrightarrow> worker_turn os s = Some r"
proof -
  define c where "c = GetQueuedCompletionStatus (GetIocpCore (svc s)) INFINITE"
  define q where "q = os (hist (srv_net s)) c"
  define s1 where "s1 = s\<lparr>srv_net := (srv_net s)\<lparr>hist := (c, q) # hist (srv_net s)\<rparr>\<rparr>"
  define late where "late \<longleftrightarrow> result q = 0 \<and> lastError q = WAIT_TIMEOUT"
  have step: "worker_step os W_wait s =
      Inr (if late then W_wait else W_event (overlapped q) (numOfBytes q), s1)"
    by (simp add: on_net_def sys_def Let_def late_def q_def c_def s1_def)
  have call: "IocpCore_Dispatch os (GetIocpCore (svc s)) INFINITE s = (if late then Some (Inr (False, s1))
      else run_then (dispatch_event os (overlapped q) (numOfBytes q) s1) (\<lambda>s. Some (Inr (True, s))))"
    by (simp add: IocpCore_Dispatch_def on_net_def sys_def Let_def late_def q_def c_def s1_def)
  have disp: "worker_turn os s = (if late then Some (Inr s1) else dispatch_event os (overlapped q) (numOfBytes q) s1)"
    unfolding worker_turn_def call run_then_def by (simp split: option.split sum.split)
  have "ends_in os W_wait s r \<longleftrightarrow> worker_turn os s = Some r"
  proof (cases late)
    case True
    then have "worker_step os W_wait s = Inr (W_wait, s1)" unfolding step by simp
    then show ?thesis using True by (auto simp: disp ends_in_step(2))
  next
    case False
    then have "worker_step os W_wait s = Inr (W_event (overlapped q) (numOfBytes q), s1)" unfolding step by simp
    then show ?thesis by (rule ends_in_go) (simp_all add: disp False event_ends)
  qed
  then show ?thesis by (simp add: ends_in_def)
qed

end
