(* ===== verification/Worker_Inv.thy ===== *)
theory Worker_Inv
  imports Worker_Steps Server_Run
begin

text \<open>
  The invariant of workers that dispatch at the same time. An accept event is either pending with
  the system or in the hands of exactly one worker, and the reference count of a session is the
  number of events and local variables that hold it. What one step has to keep of this is
  \<open>step_ok\<close>, a statement about the moving worker and the server only.
\<close>

section \<open>What a worker holds\<close>

fun held :: "worker_pc \<Rightarrow> nat option list" where
  "held (W_update lid e ref) = [ref]"
| "held (W_peer lid e ref) = [ref]"
| "held (W_connected lid e ref addr) = [ref]"
| "held (W_print lid e ref) = [ref]"
| "held (W_create lid e refs) = refs"
| "held (W_register lid e refs ref) = ref # refs"
| "held (W_refused lid e refs ref) = ref # refs"
| "held (W_attach lid e refs ref) = ref # refs"
| "held (W_assigned lid e refs ref old) = ref # old # refs"
| "held (W_call lid e refs ref) = ref # refs"
| "held (W_return lid refs) = refs"
| "held _ = []"

text \<open>The event that a worker has dequeued and not yet given back to the system.\<close>

fun handles :: "worker_pc \<Rightarrow> nat option" where
  "handles (W_event iocpEvent bytes) = iocpEvent"
| "handles (W_object obj e bytes) = Some e"
| "handles (W_accept lid e) = Some e"
| "handles (W_update lid e ref) = Some e"
| "handles (W_peer lid e ref) = Some e"
| "handles (W_connected lid e ref addr) = Some e"
| "handles (W_print lid e ref) = Some e"
| "handles (W_create lid e refs) = Some e"
| "handles (W_register lid e refs ref) = Some e"
| "handles (W_refused lid e refs ref) = Some e"
| "handles (W_attach lid e refs ref) = Some e"
| "handles (W_assigned lid e refs ref old) = Some e"
| "handles (W_call lid e refs ref) = Some e"
| "handles _ = None"

text \<open>Whether the local \<^verbatim>\<open>iocpObject\<close> holds a reference.\<close>

fun holds_object :: "worker_pc \<Rightarrow> nat" where
  "holds_object W_wait = 0"
| "holds_object (W_event iocpEvent bytes) = 0"
| "holds_object _ = 1"

definition ref_count :: "net \<Rightarrow> nat \<Rightarrow> nat" where
  "ref_count n sid = (case sessions n sid of None \<Rightarrow> 0 | Some (se, k) \<Rightarrow> k)"

text \<open>A session that only one reference is to.\<close>

definition unshared :: "server \<Rightarrow> nat option \<Rightarrow> bool" where
  "unshared s ref \<longleftrightarrow> (\<forall>x. ref = Some x \<longrightarrow> ref_count (srv_net s) x = 1)"

fun made_here :: "worker_pc \<Rightarrow> nat option" where
  "made_here (W_register lid e refs ref) = ref"
| "made_here (W_refused lid e refs ref) = ref"
| "made_here (W_attach lid e refs ref) = ref"
| "made_here _ = None"

fun at_call :: "worker_pc \<Rightarrow> bool" where
  "at_call (W_call lid e refs ref) \<longleftrightarrow> True"
| "at_call _ \<longleftrightarrow> False"

text \<open>
  What is known at each place. \<open>refusing\<close>: the completion port may refuse a session;
  \<open>failing\<close>: a dequeue may fail without a packet and not by a timeout.
\<close>

fun pc_ok :: "bool \<Rightarrow> bool \<Rightarrow> nat \<Rightarrow> server \<Rightarrow> worker_pc \<Rightarrow> bool" where
  "pc_ok refusing failing lid s W_wait \<longleftrightarrow> True"
| "pc_ok refusing failing lid s (W_event iocpEvent bytes) \<longleftrightarrow> (case iocpEvent of
     None \<Rightarrow> failing | Some e \<Rightarrow> event_session s e \<noteq> None)"
| "pc_ok refusing failing lid s (W_object obj e bytes) \<longleftrightarrow>
     obj = Listener_object lid \<and> event_session s e \<noteq> None"
| "pc_ok refusing failing lid s (W_accept i e) \<longleftrightarrow> i = lid \<and> event_session s e \<noteq> None"
| "pc_ok refusing failing lid s (W_update i e ref) \<longleftrightarrow> i = lid \<and> ref \<noteq> None"
| "pc_ok refusing failing lid s (W_peer i e ref) \<longleftrightarrow> i = lid \<and> ref \<noteq> None"
| "pc_ok refusing failing lid s (W_connected i e ref addr) \<longleftrightarrow> i = lid \<and> ref \<noteq> None"
| "pc_ok refusing failing lid s (W_print i e ref) \<longleftrightarrow> i = lid \<and> ref \<noteq> None"
| "pc_ok refusing failing lid s (W_create i e refs) \<longleftrightarrow> i = lid"
| "pc_ok refusing failing lid s (W_register i e refs ref) \<longleftrightarrow> i = lid \<and> ref \<noteq> None \<and> unshared s ref"
| "pc_ok refusing failing lid s (W_refused i e refs ref) \<longleftrightarrow> i = lid \<and> ref \<noteq> None \<and> unshared s ref \<and> refusing"
| "pc_ok refusing failing lid s (W_attach i e refs ref) \<longleftrightarrow> i = lid \<and> unshared s ref \<and> (ref = None \<longrightarrow> refusing)"
| "pc_ok refusing failing lid s (W_assigned i e refs ref old) \<longleftrightarrow>
     i = lid \<and> event_session s e = ref \<and> (ref = None \<longrightarrow> refusing)"
| "pc_ok refusing failing lid s (W_call i e refs ref) \<longleftrightarrow>
     i = lid \<and> event_session s e = ref \<and> (ref = None \<longrightarrow> refusing)"
| "pc_ok refusing failing lid s (W_return i refs) \<longleftrightarrow> i = lid"
| "pc_ok refusing failing lid s (W_release obj) \<longleftrightarrow> obj = Listener_object lid"

lemma pc_ok_frame:
  assumes "pc_ok R F lid s p" "\<And>e. handles p = Some e \<Longrightarrow> event_session s' e = event_session s e"
    and "\<And>x. made_here p = Some x \<Longrightarrow> ref_count (srv_net s') x = ref_count (srv_net s) x"
  shows "pc_ok R F lid s' p"
  using assms by (cases p) (auto simp: unshared_def split: option.splits)

section \<open>Reference counts\<close>

definition ones :: "nat option \<Rightarrow> nat \<Rightarrow> nat" where
  "ones ref x = (if ref = Some x then 1 else 0)"

definition net_ok :: "SOCKET set \<Rightarrow> net \<Rightarrow> bool" where
  "net_ok X n \<longleftrightarrow> net_inv X n \<and> (\<forall>sid se. sessions n sid \<noteq> Some (se, 0)) \<and> AcceptEx_fn n \<noteq> 0"

lemma live_session:
  assumes "0 < ref_count n sid"
  obtains se k where "sessions n sid = Some (se, k)" "0 < k" "ref_count n sid = k"
  using assms by (auto simp: ref_count_def split: option.splits)

lemma unshared_hist [simp]: "unshared (s\<lparr>srv_net := (srv_net s)\<lparr>hist := h\<rparr>\<rparr>) = unshared s"
  by (simp add: unshared_def fun_eq_iff ref_count_def)

lemma unshared_None [simp]: "unshared s None"
  by (simp add: unshared_def)

lemma ref_count_hist [simp]: "ref_count (n\<lparr>hist := h\<rparr>) = ref_count n"
  by (simp add: ref_count_def fun_eq_iff)

lemma net_ok_call:
  assumes "net_ok X n" "\<not> socket_call c"
  shows "net_ok X (n\<lparr>hist := (c, r) # hist n\<rparr>)"
  using assms net_inv_call [of X n c r] by (simp add: net_ok_def)

text \<open>A copy and a drop of a reference.\<close>

lemma copy_counted:
  assumes "net_ok X n" "\<And>x. ref = Some x \<Longrightarrow> 0 < ref_count n x"
  obtains n' where "session_copy ref n = Inr n'" "net_ok X n'" "hist n' = hist n"
    "\<And>x. ref_count n' x = ref_count n x + ones ref x"
proof (cases ref)
  case None
  then show thesis using that [of n] assms(1) by (simp add: ones_def)
next
  case (Some sid)
  then obtain se k where se: "sessions n sid = Some (se, k)" "0 < k" using assms(2) live_session by blast
  define n' where "n' = n\<lparr>sessions := (sessions n)(sid \<mapsto> (se, k + 1))\<rparr>"
  have "net_inv X n'" unfolding n'_def
    using assms(1) se(1) by (intro net_inv_refs) (auto simp: net_ok_def)
  then have ok: "net_ok X n'" using assms(1) by (auto simp: net_ok_def n'_def)
  have copy: "session_copy ref n = Inr n'" using Some se by (simp add: n'_def)
  have count: "ref_count n' x = ref_count n x + ones ref x" for x
    using se Some by (cases "x = sid") (auto simp: n'_def ref_count_def ones_def)
  have "hist n' = hist n" by (simp add: n'_def)
  then show thesis by (rule that [OF copy ok _ count])
qed

lemma drop_counted:
  assumes "net_ok X n" "\<And>x. ref = Some x \<Longrightarrow> 0 < ref_count n x"
  obtains n' where "session_drop os ref n = Inr n'" "net_ok X n'" "quiet (hist n) (hist n')"
    "\<And>x. ref_count n' x + ones ref x = ref_count n x"
proof (cases ref)
  case None
  then show thesis using that [of n] assms(1) by (simp add: session_drop_def ones_def)
next
  case (Some sid)
  then obtain se k where se: "sessions n sid = Some (se, k)" "0 < k" using assms(2) live_session by blast
  show thesis
  proof (cases "k = 1")
    case True
    define n' where "n' = Session_dtor os se n\<lparr>sessions := (sessions n)(sid := None)\<rparr>"
    have "net_inv X n'" unfolding n'_def
      using assms(1) se(1) by (intro net_inv_drop [OF _ _ refl]) (auto simp: net_ok_def)
    then have "net_ok X n'" using assms(1) by (simp add: net_ok_def n'_def)
    moreover have "session_drop os ref n = Inr n'"
      unfolding n'_def Some using session_drop_last se True by simp
    moreover have "ref_count n' x + ones ref x = ref_count n x" for x
      using se True Some by (cases "x = sid") (auto simp: n'_def ref_count_def ones_def)
    moreover have "quiet (hist n) (hist n')" by (simp add: n'_def)
    ultimately show thesis using that [of n'] Some by blast
  next
    case False
    define n' where "n' = n\<lparr>sessions := (sessions n)(sid \<mapsto> (se, k - 1))\<rparr>"
    have "net_inv X n'" unfolding n'_def
      using assms(1) se(1) by (intro net_inv_refs) (auto simp: net_ok_def)
    then have "net_ok X n'" using assms(1) se(2) False by (auto simp: net_ok_def n'_def)
    moreover have "session_drop os ref n = Inr n'" using Some se False by (simp add: session_drop_def n'_def)
    moreover have "ref_count n' x + ones ref x = ref_count n x" for x
      using se False Some by (cases "x = sid") (auto simp: n'_def ref_count_def ones_def)
    moreover have "quiet (hist n) (hist n')" by (simp add: n'_def)
    ultimately show thesis using that [of n'] Some by blast
  qed
qed

text \<open>The events that hold a session.\<close>

definition event_count :: "server \<Rightarrow> nat \<Rightarrow> nat" where
  "event_count s x = card {e \<in> dom (events s). event_session s e = Some x}"

lemma event_count_upd:
  assumes fin: "finite (dom (events s))" and e: "events s e = Some ev"
    and s': "events s' = (events s)(e \<mapsto> ev')"
  shows "event_count s' x + ones (session ev) x = event_count s x + ones (session ev') x"
proof -
  let ?A = "{d \<in> dom (events s) - {e}. event_session s d = Some x}"
  have es: "event_session s' = (event_session s)(e := session ev')" by (rule event_session_upd [OF s'])
  have old: "event_session s e = session ev" using e by (simp add: event_session_def)
  have fA: "finite ?A" "e \<notin> ?A" using fin by auto
  have "{d \<in> dom (events s). event_session s d = Some x} = (if session ev = Some x then insert e ?A else ?A)"
    using e old by (auto split: if_splits)
  moreover have "{d \<in> dom (events s'). event_session s' d = Some x} = (if session ev' = Some x then insert e ?A else ?A)"
    using s' es e by (auto split: if_splits)
  ultimately show ?thesis using fA by (auto simp: event_count_def ones_def)
qed

lemma event_session_frame: "events s' = events s \<Longrightarrow> event_session s' = event_session s"
  by (rule ext) (simp add: event_session_def)

lemma event_session_net [simp]: "event_session (s\<lparr>srv_net := n\<rparr>) = event_session s"
  by (rule event_session_frame) simp

lemma event_count_frame: "events s' = events s \<Longrightarrow> event_count s' = event_count s"
  using event_session_frame [of s' s] by (simp add: event_count_def [abs_def])

section \<open>One step\<close>

text \<open>
  What a worker that is about to move may rely on. \<open>k\<close> counts the references to the listener
  that are not its own.
\<close>

definition here :: "bool \<Rightarrow> bool \<Rightarrow> nat \<Rightarrow> listener \<Rightarrow> nat \<Rightarrow> worker_pc \<Rightarrow> server \<Rightarrow> bool" where
  "here R F lid l k p s \<longleftrightarrow>
     net_ok {listen_socket l} (srv_net s) \<and> listeners s = [lid \<mapsto> (l, k + holds_object p)] \<and> 0 < k \<and>
     has_service l \<and> dom (events s) = set (acceptEvents l) \<and>
     (\<forall>e ev. events s e = Some ev \<longrightarrow> eventType ev = Accept \<and> owner ev = Some (Listener_object lid)) \<and>
     set_option (handles p) \<union> pending (hist (srv_net s)) \<subseteq> set (acceptEvents l) \<and>
     set_option (handles p) \<inter> pending (hist (srv_net s)) = {} \<and>
     (\<forall>e \<in> pending (hist (srv_net s)). event_session s e \<noteq> None) \<and> pc_ok R F lid s p \<and>
     (\<forall>x. event_count s x \<le> 1) \<and>
     (\<forall>x. count_list (held p) (Some x) + event_count s x \<le> ref_count (srv_net s) x)"

text \<open>
  The last two lines: references are neither lost nor forged, and a session that is neither with the
  worker nor with an event stays so.
\<close>

definition step_ok :: "bool \<Rightarrow> bool \<Rightarrow> nat \<Rightarrow> listener \<Rightarrow> nat \<Rightarrow> worker_pc \<Rightarrow> server \<Rightarrow> worker_pc \<Rightarrow> server \<Rightarrow> bool" where
  "step_ok R F lid l k p s p' s' \<longleftrightarrow>
     net_ok {listen_socket l} (srv_net s') \<and> svc s' = svc s \<and> events_made s' = events_made s \<and>
     listeners s' = [lid \<mapsto> (l, k + holds_object p')] \<and> dom (events s') = dom (events s) \<and>
     (\<forall>e. handles p \<noteq> Some e \<longrightarrow> events s' e = events s e) \<and>
     (\<forall>e ev. events s' e = Some ev \<longrightarrow> eventType ev = Accept \<and> owner ev = Some (Listener_object lid)) \<and>
     set_option (handles p') \<union> pending (hist (srv_net s')) = set_option (handles p) \<union> pending (hist (srv_net s)) \<and>
     set_option (handles p') \<inter> pending (hist (srv_net s')) = {} \<and>
     (\<forall>e \<in> pending (hist (srv_net s')). event_session s' e \<noteq> None) \<and> pc_ok R F lid s' p' \<and>
     (\<forall>x. event_count s' x \<le> 1) \<and>
     (\<forall>e. refusals e (hist (srv_net s')) = (if handles p = Some e \<and> at_call p
        then if handles p' = None then 0 else Suc (refusals e (hist (srv_net s)))
        else refusals e (hist (srv_net s)))) \<and>
     (\<forall>x. ref_count (srv_net s') x + count_list (held p) (Some x) + event_count s x =
        ref_count (srv_net s) x + count_list (held p') (Some x) + event_count s' x) \<and>
     (\<forall>x. 0 < ref_count (srv_net s) x \<and> count_list (held p) (Some x) = 0 \<and> event_count s x = 0 \<longrightarrow>
        count_list (held p') (Some x) = 0 \<and> event_count s' x = 0)"

text \<open>A move that only calls the system or counts references.\<close>

lemma step_net:
  assumes p: "here R F lid l k p s"
    and n: "net_ok {listen_socket l} n" "quiet (hist (srv_net s)) (hist n)"
    and same: "handles p' = handles p" "holds_object p' = holds_object p" "\<not> at_call p"
    and pc: "pc_ok R F lid (s\<lparr>srv_net := n\<rparr>) p'"
    and count: "\<And>x. ref_count n x + count_list (held p) (Some x) =
      ref_count (srv_net s) x + count_list (held p') (Some x)"
    and held: "\<And>x. 0 < ref_count (srv_net s) x \<Longrightarrow> count_list (held p) (Some x) = 0 \<Longrightarrow>
      event_count s x = 0 \<Longrightarrow> count_list (held p') (Some x) = 0"
  shows "step_ok R F lid l k p s p' (s\<lparr>srv_net := n\<rparr>)"
proof -
  have ec: "event_count (s\<lparr>srv_net := n\<rparr>) = event_count s" by (rule event_count_frame) simp
  show ?thesis
    unfolding step_ok_def using p n(1) pc count held quiet_same [OF n(2)]
    by (simp add: here_def same ec)
qed

lemma here_live:
  assumes p: "here R F lid l k p s" and "Some sid \<in> set (held p)"
  obtains se c where "sessions (srv_net s) sid = Some (se, c)"
proof -
  have "0 < count_list (held p) (Some sid)" using assms(2) by (simp add: count_list_0_iff neq0_conv [symmetric] del: neq0_conv)
  moreover have "count_list (held p) (Some sid) + event_count s sid \<le> ref_count (srv_net s) sid"
    using p by (simp add: here_def)
  ultimately have "0 < ref_count (srv_net s) sid" by linarith
  then show thesis using live_session that by metis
qed

text \<open>A session that an event holds exists.\<close>

lemma event_counted:
  assumes p: "here R F lid l k p s" and e: "event_session s e = Some sid"
  shows "0 < event_count s sid"
proof -
  have "e \<in> {e \<in> dom (events s). event_session s e = Some sid}"
    using e by (auto simp: event_session_def bind_eq_Some_conv)
  moreover have "finite (dom (events s))" using p by (simp add: here_def)
  ultimately show ?thesis unfolding event_count_def by (auto simp: card_gt_0_iff)
qed

lemma event_live:
  assumes p: "here R F lid l k p s" and e: "event_session s e = Some sid"
  shows "0 < ref_count (srv_net s) sid"
proof -
  have "event_count s sid \<le> ref_count (srv_net s) sid"
    using p by (auto simp: here_def dest: spec [of _ sid])
  then show ?thesis using event_counted [OF p e] by linarith
qed

end
