(* ===== verification/Worker_Moves.thy ===== *)
theory Worker_Moves
  imports Worker_Inv
begin

text \<open>
  Every step of a worker keeps what the invariant asks for, or stops for one of two reasons. One
  lemma for each group of places; \<open>worker_step_well\<close> sums them up.
\<close>

definition goes_well :: "bool \<Rightarrow> bool \<Rightarrow> nat \<Rightarrow> listener \<Rightarrow> nat \<Rightarrow> worker_pc \<Rightarrow> server \<Rightarrow>
    (worker_pc \<times> server) outcome \<Rightarrow> bool" where
  "goes_well R F lid l k p s out \<longleftrightarrow> (case out of
     Inl x \<Rightarrow> x = UB ''null IocpEvent'' \<and> F \<or> x = UB ''null SessionRef'' \<and> R
   | Inr (p', s') \<Rightarrow> step_ok R F lid l k p s p' s')"

lemma goes_well_simps [simp]:
  "goes_well R F lid l k p s (Inr (p', s')) = step_ok R F lid l k p s p' s'"
  "goes_well R F lid l k p s (Inl x) \<longleftrightarrow> x = UB ''null IocpEvent'' \<and> F \<or> x = UB ''null SessionRef'' \<and> R"
  by (simp_all add: goes_well_def)

text \<open>Moves that make one call to the system.\<close>

lemma on_call:
  "on_net (sys os c) s = (os (hist (srv_net s)) c,
     s\<lparr>srv_net := (srv_net s)\<lparr>hist := (c, os (hist (srv_net s)) c) # hist (srv_net s)\<rparr>\<rparr>)"
  by (simp add: on_net_def sys_def Let_def)

lemma step_call:
  assumes p: "here R F lid l k p s" and c: "\<not> socket_call c" "\<not> completes c"
    and same: "handles p' = handles p" "holds_object p' = holds_object p" "held p' = held p"
      "\<not> at_call p" and pc: "pc_ok R F lid s p'"
  shows "step_ok R F lid l k p s p' (s\<lparr>srv_net := (srv_net s)\<lparr>hist := (c, r) # hist (srv_net s)\<rparr>\<rparr>)"
proof (rule step_net [OF p _ _ same(1,2,4)])
  show "pc_ok R F lid (s\<lparr>srv_net := (srv_net s)\<lparr>hist := (c, r) # hist (srv_net s)\<rparr>\<rparr>) p'"
    by (rule pc_ok_frame [OF pc]) simp_all
  have "net_ok {listen_socket l} (srv_net s)" using p by (simp add: here_def)
  then show "net_ok {listen_socket l} ((srv_net s)\<lparr>hist := (c, r) # hist (srv_net s)\<rparr>)"
    by (rule net_ok_call [OF _ c(1)])
qed (use c in \<open>simp_all add: same\<close>)

lemma here_session:
  assumes "here R F lid l k p s" "ref \<noteq> None" "ref \<in> set (held p)"
  obtains sid se c where "ref = Some sid" "the_session ref (srv_net s) = Inr (sid, se)"
    "sessions (srv_net s) sid = Some (se, c)"
proof -
  obtain sid where sid: "ref = Some sid" using assms(2) by blast
  then have "Some sid \<in> set (held p)" using assms(3) by simp
  then obtain se c where "sessions (srv_net s) sid = Some (se, c)"
    by (rule here_live [OF assms(1)])
  then show thesis using that [OF sid] sid by simp
qed

lemma here_listener: "here R F lid l k p s \<Longrightarrow> the_listener lid s = Inr l \<and> has_service l"
  by (simp add: here_def)

lemma here_event:
  assumes "here R F lid l k p s" "handles p = Some e"
  obtains ev where "events s e = Some ev" "eventType ev = Accept" "owner ev = Some (Listener_object lid)"
    "event_session s e = session ev"
proof -
  have "e \<in> dom (events s)" using assms by (auto simp: here_def)
  then obtain ev where "events s e = Some ev" by auto
  then show thesis using that [of ev] assms(1) by (auto simp: here_def event_session_def)
qed

lemma well_update:
  assumes p: "here R F lid l k (W_update lid e ref) s"
  shows "goes_well R F lid l k (W_update lid e ref) s (worker_step os (W_update lid e ref) s)"
proof -
  have ok: "ref \<noteq> None" using p by (simp add: here_def)
  have mem: "ref \<in> set (held (W_update lid e ref))" by simp
  obtain sid se c where se: "ref = Some sid" "the_session ref (srv_net s) = Inr (sid, se)"
      "sessions (srv_net s) sid = Some (se, c)"
    by (rule here_session [OF p ok mem])
  have p': "here R F lid l k (W_update lid e (Some sid)) s" using p se(1) by simp
  show ?thesis
    using se here_listener [OF p] ok
    by (auto simp: SetUpdateAcceptSocket_def SetSockOpt_eq on_net_def Let_def intro!: step_call [OF p'])
qed

lemma well_peer:
  assumes p: "here R F lid l k (W_peer lid e ref) s"
  shows "goes_well R F lid l k (W_peer lid e ref) s (worker_step os (W_peer lid e ref) s)"
proof -
  have ok: "ref \<noteq> None" using p by (simp add: here_def)
  have mem: "ref \<in> set (held (W_peer lid e ref))" by simp
  obtain sid se c where se: "ref = Some sid" "the_session ref (srv_net s) = Inr (sid, se)"
      "sessions (srv_net s) sid = Some (se, c)"
    by (rule here_session [OF p ok mem])
  have p': "here R F lid l k (W_peer lid e (Some sid)) s" using p se(1) by simp
  show ?thesis
    using se here_listener [OF p] ok by (auto simp: on_call intro!: step_call [OF p'])
qed

lemma well_print:
  assumes p: "here R F lid l k (W_print lid e ref) s"
  shows "goes_well R F lid l k (W_print lid e ref) s (worker_step os (W_print lid e ref) s)"
proof -
  have "step_ok R F lid l k (W_print lid e ref) s (W_create lid e [ref]) (s\<lparr>srv_net := (srv_net s)\<lparr>hist :=
      (print ''Client Connected!'', os (hist (srv_net s)) (print ''Client Connected!'')) # hist (srv_net s)\<rparr>\<rparr>)"
    by (rule step_call [OF p]) simp_all
  then show ?thesis by (simp add: on_call)
qed

lemma well_register:
  assumes p: "here R F lid l k (W_register lid e refs ref) s"
    and R: "\<And>h c. result (os h (CreateIoCompletionPort c (iocpCore (svc s)))) = 0 \<Longrightarrow> R"
  shows "goes_well R F lid l k (W_register lid e refs ref) s (worker_step os (W_register lid e refs ref) s)"
proof -
  have ok: "ref \<noteq> None" using p by (simp add: here_def)
  have mem: "ref \<in> set (held (W_register lid e refs ref))" by simp
  obtain sid se c where se: "ref = Some sid" "the_session ref (srv_net s) = Inr (sid, se)"
      "sessions (srv_net s) sid = Some (se, c)"
    by (rule here_session [OF p ok mem])
  have p': "here R F lid l k (W_register lid e refs (Some sid)) s" using p se(1) by simp
  define c0 where "c0 = CreateIoCompletionPort (Session_GetHandle se) (iocpCore (svc s))"
  define r where "r = os (hist (srv_net s)) c0"
  define s1 where "s1 = s\<lparr>srv_net := (srv_net s)\<lparr>hist := (c0, r) # hist (srv_net s)\<rparr>\<rparr>"
  have step: "worker_step os (W_register lid e refs ref) s =
      Inr (if result r = 0 then W_refused lid e refs (Some sid) else W_attach lid e refs (Some sid), s1)"
    using se by (simp add: IocpCore_Register_eq on_net_def Let_def s1_def r_def c0_def)
  have fresh: "unshared s (Some sid)" using p' by (simp add: here_def)
  have "step_ok R F lid l k (W_register lid e refs (Some sid)) s (W_refused lid e refs (Some sid)) s1"
    if "result r = 0"
    unfolding s1_def
    by (rule step_call [OF p']) (use R fresh that in \<open>auto simp: r_def c0_def\<close>)
  moreover have "step_ok R F lid l k (W_register lid e refs (Some sid)) s (W_attach lid e refs (Some sid)) s1"
    unfolding s1_def by (rule step_call [OF p']) (simp_all add: c0_def fresh)
  ultimately show ?thesis unfolding step by (simp add: se(1))
qed

lemma well_connected:
  assumes p: "here R F lid l k (W_connected lid e ref addr) s"
  shows "goes_well R F lid l k (W_connected lid e ref addr) s (worker_step os (W_connected lid e ref addr) s)"
proof -
  have ok: "ref \<noteq> None" using p by (simp add: here_def)
  have mem: "ref \<in> set (held (W_connected lid e ref addr))" by simp
  obtain sid se c where se: "ref = Some sid" "the_session ref (srv_net s) = Inr (sid, se)"
      "sessions (srv_net s) sid = Some (se, c)"
    by (rule here_session [OF p ok mem])
  define n where "n = set_session sid (SetNetAddress (NetAddress_of addr)) (srv_net s)"
  have net: "net_ok {listen_socket l} (srv_net s)" using p by (simp add: here_def)
  have sess: "sessions n = (sessions (srv_net s))(sid \<mapsto> (SetNetAddress (NetAddress_of addr) se, c))"
    using se(3) by (simp add: n_def set_session_def)
  have "net_inv {listen_socket l} n" unfolding n_def set_session_def
    using net se(3) by (intro net_inv_refs) (auto simp: net_ok_def SetNetAddress_def)
  moreover have "0 < c" using net se(3) by (cases c) (auto simp: net_ok_def)
  moreover have "AcceptEx_fn n = AcceptEx_fn (srv_net s)" by (simp add: n_def set_session_def)
  ultimately have n: "net_ok {listen_socket l} n" using net sess by (auto simp: net_ok_def)
  have "ref_count n x = ref_count (srv_net s) x" for x
    using se(3) sess by (cases "x = sid") (auto simp: ref_count_def)
  then have "step_ok R F lid l k (W_connected lid e ref addr) s (W_print lid e ref) (s\<lparr>srv_net := n\<rparr>)"
    by (intro step_net [OF p n]) (use ok in \<open>simp_all add: n_def set_session_def\<close>)
  then show ?thesis using se by (simp add: n_def)
qed

text \<open>Moves that count a reference.\<close>

lemma well_accept:
  assumes p: "here R F lid l k (W_accept lid e) s"
  shows "goes_well R F lid l k (W_accept lid e) s (worker_step os (W_accept lid e) s)"
proof -
  have ok: "event_session s e \<noteq> None" using p by (simp add: here_def)
  obtain ev where ev: "events s e = Some ev" "event_session s e = session ev"
    by (rule here_event [OF p]) auto
  have net: "net_ok {listen_socket l} (srv_net s)" using p by (simp add: here_def)
  obtain n where n: "session_copy (session ev) (srv_net s) = Inr n" "net_ok {listen_socket l} n"
      "hist n = hist (srv_net s)" "\<And>x. ref_count n x = ref_count (srv_net s) x + ones (session ev) x"
    using copy_counted [OF net] event_live [OF p] ev(2) by metis
  have count: "session ev \<noteq> Some x" if "event_count s x = 0" for x
    using event_counted [OF p] ev(2) that by force
  have "step_ok R F lid l k (W_accept lid e) s (W_update lid e (session ev)) (s\<lparr>srv_net := n\<rparr>)"
    by (rule step_net [OF p n(2)]) (use ok ev n count in \<open>auto simp: ones_def\<close>)
  then show ?thesis using ev n(1) by (simp add: try_net_def)
qed

lemma well_drop:
  assumes p: "here R F lid l k p s"
    and step: "worker_step os p s = and_then (try_net (session_drop os ref) s) (\<lambda>s. Inr (p', s))"
    and same: "handles p' = handles p" "holds_object p' = holds_object p" "\<not> at_call p"
    and pc: "\<And>n. pc_ok R F lid (s\<lparr>srv_net := n\<rparr>) p'"
    and count: "\<And>x. count_list (held p) (Some x) = ones ref x + count_list (held p') (Some x)"
  shows "goes_well R F lid l k p s (worker_step os p s)"
proof -
  have net: "net_ok {listen_socket l} (srv_net s)" using p by (simp add: here_def)
  have "0 < ref_count (srv_net s) x" if "ref = Some x" for x
  proof -
    have "1 \<le> count_list (held p) (Some x)" using count [of x] that by (simp add: ones_def)
    moreover have "count_list (held p) (Some x) + event_count s x \<le> ref_count (srv_net s) x"
      using p by (simp add: here_def)
    ultimately show ?thesis by linarith
  qed
  then obtain n where n: "session_drop os ref (srv_net s) = Inr n" "net_ok {listen_socket l} n"
      "quiet (hist (srv_net s)) (hist n)" "\<And>x. ref_count n x + ones ref x = ref_count (srv_net s) x"
    using drop_counted [OF net] by metis
  have "ref_count n x + count_list (held p) (Some x) =
      ref_count (srv_net s) x + count_list (held p') (Some x)" for x
    using count [of x] n(4) [of x] by linarith
  moreover have "count_list (held p') (Some x) = 0" if "count_list (held p) (Some x) = 0" for x
    using count [of x] that by linarith
  ultimately have "step_ok R F lid l k p s p' (s\<lparr>srv_net := n\<rparr>)"
    using step_net [OF p n(2,3) same pc] by blast
  then show ?thesis using step n(1) by (simp add: try_net_def)
qed

lemma well_refused:
  assumes p: "here R F lid l k (W_refused lid e refs ref) s"
  shows "goes_well R F lid l k (W_refused lid e refs ref) s (worker_step os (W_refused lid e refs ref) s)"
  by (rule well_drop [OF p worker_step.simps(11)]) (use p in \<open>simp_all add: here_def ones_def\<close>)

lemma well_assigned:
  assumes p: "here R F lid l k (W_assigned lid e refs ref old) s"
  shows "goes_well R F lid l k (W_assigned lid e refs ref old) s (worker_step os (W_assigned lid e refs ref old) s)"
  by (rule well_drop [OF p worker_step.simps(13)]) (use p in \<open>simp_all add: here_def ones_def\<close>)

lemma well_return:
  assumes p: "here R F lid l k (W_return lid refs) s"
  shows "goes_well R F lid l k (W_return lid refs) s (worker_step os (W_return lid refs) s)"
proof (cases refs)
  case Nil
  have "step_ok R F lid l k (W_return lid []) s (W_release (Listener_object lid)) (s\<lparr>srv_net := srv_net s\<rparr>)"
    by (rule step_net) (use p Nil in \<open>simp_all add: here_def\<close>)
  then show ?thesis using Nil by simp
next
  case (Cons ref rest)
  have p': "here R F lid l k (W_return lid (ref # rest)) s" using p Cons by simp
  show ?thesis unfolding Cons
    by (rule well_drop [OF p' worker_step.simps(16)]) (use p' in \<open>simp_all add: here_def ones_def\<close>)
qed

text \<open>The completion port.\<close>

lemma well_wait:
  assumes p: "here R F lid l k W_wait s" and os: "os_ok os"
    and F: "\<And>h c t r. r = os h (GetQueuedCompletionStatus c t) \<Longrightarrow> overlapped r = None \<Longrightarrow>
      lastError r \<noteq> WAIT_TIMEOUT \<Longrightarrow> F"
  shows "goes_well R F lid l k W_wait s (worker_step os W_wait s)"
proof -
  define c where "c = GetQueuedCompletionStatus (GetIocpCore (svc s)) INFINITE"
  define r where "r = os (hist (srv_net s)) c"
  define n where "n = (srv_net s)\<lparr>hist := (c, r) # hist (srv_net s)\<rparr>"
  define p' where "p' = (if result r = 0 \<and> lastError r = WAIT_TIMEOUT then W_wait
    else W_event (overlapped r) (numOfBytes r))"
  have step: "worker_step os W_wait s = Inr (p', s\<lparr>srv_net := n\<rparr>)"
    by (simp add: on_call Let_def p'_def n_def r_def c_def)
  note deq = os_ok_dequeue [OF os, of r "hist (srv_net s)" "GetIocpCore (svc s)" INFINITE,
      OF r_def [unfolded c_def]]
  have net: "net_ok {listen_socket l} (srv_net s)" using p by (simp add: here_def)
  have n: "net_ok {listen_socket l} n"
    unfolding n_def by (rule net_ok_call [OF net]) (simp add: c_def)
  have es: "event_session (s\<lparr>srv_net := n\<rparr>) = event_session s" by (rule event_session_frame) simp
  have ec: "event_count (s\<lparr>srv_net := n\<rparr>) = event_count s" by (rule event_count_frame) simp
  have rc: "ref_count n = ref_count (srv_net s)" by (simp add: n_def)
  have pend: "pending (hist n) = pending (hist (srv_net s)) - set_option (overlapped r)"
    by (cases "overlapped r") (simp_all add: n_def c_def)
  have refu: "refusals e (hist n) = refusals e (hist (srv_net s))" for e by (simp add: n_def c_def)
  have sub: "set_option (overlapped r) \<subseteq> pending (hist (srv_net s))"
    and none: "overlapped r = None \<Longrightarrow> result r = 0"
    using deq by (cases "overlapped r"; simp)+
  have p': "p' = W_wait \<and> overlapped r = None \<or> p' = W_event (overlapped r) (numOfBytes r) \<and>
      (overlapped r = None \<longrightarrow> lastError r \<noteq> WAIT_TIMEOUT)"
    using deq by (cases "overlapped r") (auto simp: p'_def)
  have h: "handles p' = overlapped r" "holds_object p' = 0" "held p' = []" using p' by auto
  have pc: "pc_ok R F lid (s\<lparr>srv_net := n\<rparr>) p'"
    using p' sub p F [OF r_def [unfolded c_def]] by (auto simp: es here_def split: option.splits)
  show ?thesis unfolding step goes_well_simps step_ok_def
    using p n pc sub by (auto simp: here_def es ec rc h pend refu)
qed

lemma well_event:
  assumes p: "here R F lid l k (W_event iocpEvent bytes) s"
  shows "goes_well R F lid l k (W_event iocpEvent bytes) s (worker_step os (W_event iocpEvent bytes) s)"
proof (cases iocpEvent)
  case None
  then show ?thesis using p by (simp add: here_def)
next
  case (Some e)
  obtain ev where ev: "events s e = Some ev" "owner ev = Some (Listener_object lid)"
    using here_event [OF p, of e] Some by auto
  define s1 where "s1 = listener_refs lid Suc s"
  have lis: "listeners s lid = Some (l, k)" using p by (simp add: here_def)
  have step: "worker_step os (W_event iocpEvent bytes) s = Inr (W_object (Listener_object lid) e bytes, s1)"
    using ev lis Some by (simp add: object_copy_def s1_def)
  have ec: "event_count s1 = event_count s" by (rule event_count_frame) (simp add: s1_def)
  have "listeners s1 = [lid \<mapsto> (l, Suc k)]"
    using p by (simp add: s1_def here_def listener_refs_def fun_eq_iff)
  then show ?thesis unfolding step goes_well_simps step_ok_def
    using p Some by (simp add: here_def ec) (simp add: s1_def)
qed

lemma well_object:
  assumes p: "here R F lid l k (W_object (Listener_object lid) e bytes) s"
  shows "goes_well R F lid l k (W_object (Listener_object lid) e bytes) s
    (worker_step os (W_object (Listener_object lid) e bytes) s)"
proof -
  obtain ev where ev: "events s e = Some ev" "eventType ev = Accept"
    using here_event [OF p, of e] by auto
  have net: "net_ok {listen_socket l} (srv_net s)" using p by (simp add: here_def)
  have "step_ok R F lid l k (W_object (Listener_object lid) e bytes) s (W_accept lid e) (s\<lparr>srv_net := srv_net s\<rparr>)"
    by (rule step_net [OF p net]) (use p in \<open>simp_all add: here_def\<close>)
  then show ?thesis using ev by simp
qed

lemma well_release:
  assumes p: "here R F lid l k (W_release (Listener_object lid)) s"
  shows "goes_well R F lid l k (W_release (Listener_object lid)) s
    (worker_step os (W_release (Listener_object lid)) s)"
proof -
  define s1 where "s1 = listener_refs lid (\<lambda>k. k - 1) s"
  have lis: "listeners s = [lid \<mapsto> (l, k + 1)]" and k: "0 < k" using p by (simp_all add: here_def)
  then have step: "worker_step os (W_release (Listener_object lid)) s = Inr (W_wait, s1)"
    by (simp add: object_drop_def listener_drop_def s1_def)
  have ec: "event_count s1 = event_count s" by (rule event_count_frame) (simp add: s1_def)
  have "listeners s1 = [lid \<mapsto> (l, k)]"
    using lis by (simp add: s1_def listener_refs_def fun_eq_iff)
  then show ?thesis unfolding step goes_well_simps step_ok_def
    using p by (simp add: here_def ec) (simp add: s1_def)
qed

text \<open>Registering.\<close>

text \<open>The counts when the event takes over the new session.\<close>

lemma attach_counted:
  assumes p: "here R F lid l k (W_attach lid e refs ref) s" and ev: "events s e = Some ev"
    and s1: "events s1 = (events s)(e \<mapsto> ev')" "session ev' = ref"
    and n: "\<And>x. ref_count (srv_net s1) x = ref_count (srv_net s) x + ones ref x"
  defines "old \<equiv> \<lambda>x. count_list (held (W_attach lid e refs ref)) (Some x)"
    and "new \<equiv> \<lambda>x. count_list (held (W_assigned lid e refs ref (session ev))) (Some x)"
  shows "ref_count (srv_net s1) x + old x + event_count s x = ref_count (srv_net s) x + new x + event_count s1 x"
    "event_count s1 x \<le> 1"
    "old x = 0 \<Longrightarrow> event_count s x = 0 \<Longrightarrow> new x = 0 \<and> event_count s1 x = 0"
proof -
  have held: "old x = ones ref x + count_list refs (Some x)" "new x = ones ref x + ones (session ev) x + count_list refs (Some x)"
    by (simp_all add: ones_def old_def new_def)
  have fin: "finite (dom (events s))" using p by (simp add: here_def)
  have ecount: "event_count s1 x + ones (session ev) x = event_count s x + ones ref x"
    using event_count_upd [OF fin ev(1), of s1 ev' x] by (simp add: s1)
  show "ref_count (srv_net s1) x + old x + event_count s x = ref_count (srv_net s) x + new x + event_count s1 x"
    unfolding held using n [of x] ecount by linarith
  have one: "event_count s x = 0" if "ref = Some x"
  proof -
    have "old x + event_count s x \<le> ref_count (srv_net s) x" using p by (simp add: here_def old_def)
    moreover have "ref_count (srv_net s) x = 1" using p that by (simp add: here_def unshared_def)
    ultimately show ?thesis using that by (simp add: old_def)
  qed
  have "event_count s x \<le> 1" using p by (simp add: here_def)
  then show "event_count s1 x \<le> 1" using ecount one by (cases "ref = Some x") (auto simp: ones_def)
  assume none: "old x = 0" "event_count s x = 0"
  then have "session ev \<noteq> Some x"
    using event_counted [OF p, of e x] ev by (auto simp: event_session_def)
  then show "new x = 0 \<and> event_count s1 x = 0" using ecount none unfolding held by (simp add: ones_def)
qed

lemma well_attach:
  assumes p: "here R F lid l k (W_attach lid e refs ref) s"
  shows "goes_well R F lid l k (W_attach lid e refs ref) s (worker_step os (W_attach lid e refs ref) s)"
proof -
  obtain ev where ev: "events s e = Some ev" "eventType ev = Accept" "owner ev = Some (Listener_object lid)"
    by (rule here_event [OF p]) auto
  define ev' where "ev' = (IocpEvent_Init ev)\<lparr>session := ref\<rparr>"
  have ev': "eventType ev' = Accept" "owner ev' = Some (Listener_object lid)" "session ev' = ref"
    using ev by (simp_all add: ev'_def IocpEvent_Init_def)
  have net: "net_ok {listen_socket l} (srv_net s)" using p by (simp add: here_def)
  have "0 < ref_count (srv_net s) x" if "ref = Some x" for x
  proof -
    have "Some x \<in> set (held (W_attach lid e refs ref))" using that by simp
    then obtain se c where "sessions (srv_net s) x = Some (se, c)" by (rule here_live [OF p])
    then show ?thesis using net by (cases c) (auto simp: ref_count_def net_ok_def)
  qed
  then obtain n where n: "session_copy ref (srv_net s) = Inr n" "net_ok {listen_socket l} n"
      "hist n = hist (srv_net s)" "\<And>x. ref_count n x = ref_count (srv_net s) x + ones ref x"
    using copy_counted [OF net] by metis
  define s1 where "s1 = s\<lparr>events := (events s)(e \<mapsto> ev'), srv_net := n\<rparr>"
  have step: "worker_step os (W_attach lid e refs ref) s = Inr (W_assigned lid e refs ref (session ev), s1)"
    using ev n(1) by (simp add: try_net_def Let_def s1_def ev'_def)
  have s1: "srv_net s1 = n" "svc s1 = svc s" "listeners s1 = listeners s" "events s1 = (events s)(e \<mapsto> ev')"
    "events_made s1 = events_made s"
    by (simp_all add: s1_def)
  note counted = attach_counted [OF p ev(1) s1(4) ev'(3), unfolded s1(1), OF n(4)]
  have es: "event_session s1 = (event_session s)(e := ref)"
    using event_session_upd [of s1 s e ev'] by (simp add: s1_def ev'(3))
  have dom: "dom (events s1) = dom (events s)" using ev(1) by (auto simp: s1)
  have own: "\<forall>d v. events s1 d = Some v \<longrightarrow> eventType v = Accept \<and> owner v = Some (Listener_object lid)"
    using p ev' by (simp add: here_def s1(4))
  have pend: "\<forall>d \<in> pending (hist (srv_net s)). event_session s1 d \<noteq> None"
    using p by (auto simp: here_def es)
  show ?thesis unfolding step goes_well_simps step_ok_def
  proof (intro conjI)
    show "\<forall>x. ref_count (srv_net s1) x + count_list (held (W_attach lid e refs ref)) (Some x) + event_count s x =
      ref_count (srv_net s) x + count_list (held (W_assigned lid e refs ref (session ev))) (Some x) +
      event_count s1 x"
      unfolding s1(1) using counted(1) by blast
    show "\<forall>x. 0 < ref_count (srv_net s) x \<and> count_list (held (W_attach lid e refs ref)) (Some x) = 0 \<and>
        event_count s x = 0 \<longrightarrow>
      count_list (held (W_assigned lid e refs ref (session ev))) (Some x) = 0 \<and> event_count s1 x = 0"
      using counted(3) by blast
    show "\<forall>x. event_count s1 x \<le> 1" using counted(2) by blast
    show "pc_ok R F lid s1 (W_assigned lid e refs ref (session ev))" using p by (simp add: here_def es)
  qed (use p pend own dom n(2,3) in \<open>simp_all add: here_def s1\<close>)
qed

lemma well_call:
  assumes p: "here R F lid l k (W_call lid e refs ref) s"
  shows "goes_well R F lid l k (W_call lid e refs ref) s (worker_step os (W_call lid e refs ref) s)"
proof (cases ref)
  case None
  then show ?thesis using p by (simp add: here_def)
next
  case (Some sid)
  have mem: "ref \<in> set (held (W_call lid e refs ref))" by simp
  obtain se where se: "the_session ref (srv_net s) = Inr (sid, se)"
    by (rule here_session [OF p _ mem]) (simp_all add: Some)
  have net: "net_ok {listen_socket l} (srv_net s)" using p by (simp add: here_def)
  define c where "c = AcceptEx (listen_socket l) (sess_socket se) 0 (16 + 16) (16 + 16) e"
  define r where "r = os (hist (srv_net s)) c"
  define n where "n = (srv_net s)\<lparr>hist := (c, r) # hist (srv_net s)\<rparr>"
  define p' where "p' = (if \<not> accepted_by_system r then W_create lid e (ref # refs) else W_return lid (ref # refs))"
  have "AcceptEx_fn (srv_net s) \<noteq> 0" using net by (simp add: net_ok_def)
  then have step: "worker_step os (W_call lid e refs ref) s = Inr (p', s\<lparr>srv_net := n\<rparr>)"
    using se here_listener [OF p]
    by (simp add: on_call Let_def p'_def accepted_by_system_def n_def r_def c_def)
  have n: "net_ok {listen_socket l} n" unfolding n_def by (rule net_ok_call [OF net]) (simp add: c_def)
  have es: "event_session (s\<lparr>srv_net := n\<rparr>) = event_session s" by (rule event_session_frame) simp
  have ec: "event_count (s\<lparr>srv_net := n\<rparr>) = event_count s" by (rule event_count_frame) simp
  have rc: "ref_count n = ref_count (srv_net s)" by (simp add: n_def)
  have pend: "pending (hist n) = (if accepted_by_system r then insert e (pending (hist (srv_net s)))
      else pending (hist (srv_net s)))"
    by (simp add: n_def c_def)
  have refu: "refusals d (hist n) = (if d = e then if accepted_by_system r then 0
      else Suc (refusals e (hist (srv_net s))) else refusals d (hist (srv_net s)))" for d
    by (simp add: n_def c_def)
  have e: "event_session s e = ref" using p by (simp add: here_def)
  have p': "held p' = ref # refs" "holds_object p' = 1" "pc_ok R F lid (s\<lparr>srv_net := n\<rparr>) p'"
    "handles p' = (if accepted_by_system r then None else Some e)" by (simp_all add: p'_def)
  show ?thesis unfolding step goes_well_simps step_ok_def
    using p n p' Some e by (simp add: here_def es ec rc pend refu)
qed

text \<open>A refused accept is tried again, an accepted one is not.\<close>

lemma call_again:
  assumes "worker_step os (W_call lid e refs ref) s = Inr (p', s')"
    and "N \<le> refusals e (hist (srv_net s)) \<Longrightarrow>
      \<forall>ls cs len l1 l2. accepted_by_system (os (hist (srv_net s)) (AcceptEx ls cs len l1 l2 e))"
  shows "p' = W_return lid (ref # refs) \<or>
    p' = W_create lid e (ref # refs) \<and> refusals e (hist (srv_net s)) < N"
  using assms
  by (cases "N \<le> refusals e (hist (srv_net s))")
    (auto simp: on_call Let_def outcome_simps accepted_by_system_def split: prod.splits if_splits)

context session_factory begin

lemma well_create:
  assumes p: "here R F lid l k (W_create lid e refs) s" and os: "os_ok os"
    and fac: "sessionFactory (svc s) = Some (make os)"
  shows "goes_well R F lid l k (W_create lid e refs) s (worker_step os (W_create lid e refs) s)"
proof -
  have net: "net_ok {listen_socket l} (srv_net s)" using p by (simp add: here_def)
  then have inv: "net_inv {listen_socket l} (srv_net s)" by (simp add: net_ok_def)
  obtain sid se n where n: "make os (srv_net s) = Inr (Some sid, n)" "sessions (srv_net s) sid = None"
      "sessions n = (sessions (srv_net s))(sid \<mapsto> (se, 1))" "net_inv {listen_socket l} n"
      "quiet (hist (srv_net s)) (hist n)" "AcceptEx_fn n = AcceptEx_fn (srv_net s)"
    using makes_session [OF os inv] by blast
  have ok: "net_ok {listen_socket l} n" using n(3,4,6) net by (auto simp: net_ok_def)
  have count: "ref_count n x = ref_count (srv_net s) x + ones (Some sid) x" for x
    using n(2,3) by (cases "x = sid") (simp_all add: ref_count_def ones_def)
  moreover have none: "ref_count (srv_net s) sid = 0" using n(2) by (simp add: ref_count_def)
  moreover have "unshared (s\<lparr>srv_net := n\<rparr>) (Some sid)" using count [of sid] none by (simp add: unshared_def ones_def)
  ultimately have "step_ok R F lid l k (W_create lid e refs) s (W_register lid e refs (Some sid)) (s\<lparr>srv_net := n\<rparr>)"
    by (intro step_net [OF p ok n(5)]) (auto simp: ones_def)
  then show ?thesis using fac n(1) here_listener [OF p] by simp
qed

text \<open>All places.\<close>

lemma worker_step_well:
  assumes p: "here R F lid l k p s" and os: "os_ok os" and fac: "sessionFactory (svc s) = Some (make os)"
    and R: "\<And>h c. result (os h (CreateIoCompletionPort c (iocpCore (svc s)))) = 0 \<Longrightarrow> R"
    and F: "\<And>h c t r. r = os h (GetQueuedCompletionStatus c t) \<Longrightarrow> overlapped r = None \<Longrightarrow>
      lastError r \<noteq> WAIT_TIMEOUT \<Longrightarrow> F"
  shows "goes_well R F lid l k p s (worker_step os p s)"
proof -
  have pc: "pc_ok R F lid s p" using p by (simp add: here_def)
  show ?thesis
  proof (cases p)
    case W_wait
    show ?thesis unfolding W_wait by (rule well_wait [OF p [unfolded W_wait] os F])
  next
    case (W_event iocpEvent bytes)
    then show ?thesis using p well_event by simp
  next
    case (W_object obj e bytes)
    then show ?thesis using p pc well_object by simp
  next
    case (W_accept i e)
    then show ?thesis using p pc well_accept by simp
  next
    case (W_update i e ref)
    then show ?thesis using p pc well_update by simp
  next
    case (W_peer i e ref)
    then show ?thesis using p pc well_peer by simp
  next
    case (W_connected i e ref addr)
    then show ?thesis using p pc well_connected by simp
  next
    case (W_print i e ref)
    then show ?thesis using p pc well_print by simp
  next
    case (W_create i e refs)
    then show ?thesis using p pc well_create [OF _ os fac] by simp
  next
    case (W_register i e refs ref)
    then have "i = lid" using pc by simp
    then have p': "here R F lid l k (W_register lid e refs ref) s" using p W_register by simp
    show ?thesis unfolding W_register \<open>i = lid\<close> by (rule well_register [OF p']) (rule R)
  next
    case (W_refused i e refs ref)
    then have "i = lid" using pc by simp
    then show ?thesis using p W_refused well_refused by blast
  next
    case (W_attach i e refs ref)
    then have "i = lid" using pc by simp
    then show ?thesis using p W_attach well_attach by blast
  next
    case (W_assigned i e refs ref old)
    then have "i = lid" using pc by simp
    then show ?thesis using p W_assigned well_assigned by blast
  next
    case (W_call i e refs ref)
    then have "i = lid" using pc by simp
    then show ?thesis using p W_call well_call by blast
  next
    case (W_return i refs)
    then have "i = lid" using pc by simp
    then show ?thesis using p W_return well_return by blast
  next
    case (W_release obj)
    then have "obj = Listener_object lid" using pc by simp
    then show ?thesis using p W_release well_release by blast
  qed
qed

end

end
