(* ===== verification/Worker_Safety.thy ===== *)
theory Worker_Safety
  imports Worker_Moves
begin

text \<open>
  Workers that dispatch at the same time keep the server intact. The invariant of all workers
  together, its preservation by every step, and what it says of the runs that begin when the server
  of \<open>server_run\<close> is at rest.
\<close>

section \<open>The invariant\<close>

definition workers_inv :: "bool \<Rightarrow> bool \<Rightarrow> listener \<Rightarrow> nat set \<Rightarrow> workers \<Rightarrow> bool" where
  "workers_inv R F l T ws \<longleftrightarrow> (let s = srv ws; at = worker_at ws in
     net_ok {listen_socket l} (srv_net s) \<and>
     listeners s = [0 \<mapsto> (l, 1 + length (acceptEvents l) + (\<Sum>t\<in>T. holds_object (at t)))] \<and>
     has_service l \<and> dom (events s) = set (acceptEvents l) \<and>
     (\<forall>e ev. events s e = Some ev \<longrightarrow> eventType ev = Accept \<and> owner ev = Some (Listener_object 0)) \<and>
     (\<Union>t\<in>T. set_option (handles (at t))) \<union> pending (hist (srv_net s)) = set (acceptEvents l) \<and>
     (\<forall>t\<in>T. set_option (handles (at t)) \<inter> pending (hist (srv_net s)) = {}) \<and>
     (\<forall>t\<in>T. \<forall>u\<in>T. t \<noteq> u \<longrightarrow> set_option (handles (at t)) \<inter> set_option (handles (at u)) = {}) \<and>
     (\<forall>e \<in> pending (hist (srv_net s)). event_session s e \<noteq> None) \<and>
     (\<forall>t\<in>T. pc_ok R F 0 s (at t)) \<and> (\<forall>x. event_count s x \<le> 1) \<and>
     (\<forall>x. ref_count (srv_net s) x = event_count s x + (\<Sum>t\<in>T. count_list (held (at t)) (Some x))))"

lemma sum_upd:
  fixes f :: "'b \<Rightarrow> nat"
  assumes "finite T" "t \<in> T"
  shows "(\<Sum>u\<in>T. f ((w(t := p)) u)) + f (w t) = (\<Sum>u\<in>T. f (w u)) + f p"
proof -
  have "(\<Sum>u\<in>T. f ((w(t := p)) u)) = f p + (\<Sum>u\<in>T - {t}. f ((w(t := p)) u))"
    using assms by (simp add: sum.remove)
  also have "(\<Sum>u\<in>T - {t}. f ((w(t := p)) u)) = (\<Sum>u\<in>T - {t}. f (w u))"
    by (rule sum.cong) auto
  finally show ?thesis using sum.remove [OF assms, of "\<lambda>u. f (w u)"] by simp
qed

lemma made_alone:
  assumes "pc_ok R F lid s p" "made_here p = Some x"
  shows "ref_count (srv_net s) x = 1" "0 < count_list (held p) (Some x)"
  using assms by (cases p; simp add: unshared_def)+

text \<open>What the moving worker may rely on.\<close>

lemma workers_here:
  assumes inv: "workers_inv R F l T ws" and T: "finite T" "t \<in> T"
  shows "here R F 0 l (1 + length (acceptEvents l) + (\<Sum>u\<in>T - {t}. holds_object (worker_at ws u)))
    (worker_at ws t) (srv ws)"
proof -
  have sum: "(\<Sum>u\<in>T. holds_object (worker_at ws u)) =
      holds_object (worker_at ws t) + (\<Sum>u\<in>T - {t}. holds_object (worker_at ws u))"
    by (rule sum.remove [OF T])
  have "count_list (held (worker_at ws t)) (Some x) \<le> (\<Sum>u\<in>T. count_list (held (worker_at ws u)) (Some x))" for x
    by (rule member_le_sum [OF T(2) _ T(1)]) simp
  then show ?thesis
    using inv T(2) sum by (auto simp: workers_inv_def here_def Let_def)
qed

text \<open>What is shared out among the workers and the system stays shared out when one worker gives to or takes from the system.\<close>

lemma shared_out:
  fixes H H' :: "'b \<Rightarrow> 'c set"
  assumes t: "t \<in> T" and same: "\<And>u. u \<noteq> t \<Longrightarrow> H' u = H u"
    and gives: "H' t \<union> P' = H t \<union> P" "H' t \<inter> P' = {}"
    and all: "(\<Union>u\<in>T. H u) \<union> P = A" and free: "\<forall>u\<in>T. H u \<inter> P = {}"
    and excl: "\<forall>u\<in>T. \<forall>v\<in>T. u \<noteq> v \<longrightarrow> H u \<inter> H v = {}"
  shows "(\<Union>u\<in>T. H' u) \<union> P' = A" "\<forall>u\<in>T. H' u \<inter> P' = {}"
    "\<forall>u\<in>T. \<forall>v\<in>T. u \<noteq> v \<longrightarrow> H' u \<inter> H' v = {}"
proof -
  have split: "(\<Union>u\<in>T. f u) = f t \<union> (\<Union>u\<in>T - {t}. f u)" for f :: "'b \<Rightarrow> 'c set" using t by blast
  have same': "(\<Union>u\<in>T - {t}. H' u) = (\<Union>u\<in>T - {t}. H u)" using same by auto
  have "(\<Union>u\<in>T. H' u) \<union> P' = (H' t \<union> P') \<union> (\<Union>u\<in>T - {t}. H u)"
    unfolding split [of H'] same' by blast
  also have "\<dots> = (\<Union>u\<in>T. H u) \<union> P" unfolding split [of H] gives(1) by blast
  finally show "(\<Union>u\<in>T. H' u) \<union> P' = A" using all by simp
  have other: "H' u \<inter> (H' t \<union> P') = {}" if "u \<in> T" "u \<noteq> t" for u
    unfolding same [OF that(2)] gives(1) using excl free that t by blast
  show "\<forall>u\<in>T. H' u \<inter> P' = {}"
  proof
    fix u assume "u \<in> T"
    then show "H' u \<inter> P' = {}" using other [of u] gives(2) by (cases "u = t") auto
  qed
  show "\<forall>u\<in>T. \<forall>v\<in>T. u \<noteq> v \<longrightarrow> H' u \<inter> H' v = {}"
  proof (intro ballI impI)
    fix u v assume uv: "u \<in> T" "v \<in> T" "u \<noteq> v"
    then show "H' u \<inter> H' v = {}"
      using other [of u] other [of v] excl by (cases "u = t"; cases "v = t") (auto simp: same)
  qed
qed

text \<open>A step of worker \<open>t\<close> leaves the facts of the other workers' places alone.\<close>

lemma other_place_ok:
  assumes inv: "workers_inv R F l T ws" and T: "finite T" "t \<in> T" and u: "u \<in> T" "u \<noteq> t"
    and step: "step_ok R F 0 l k (worker_at ws t) (srv ws) p' s'"
  shows "pc_ok R F 0 s' (worker_at ws u)"
proof (rule pc_ok_frame)
  note inv = inv [unfolded workers_inv_def Let_def]
  note step = step [unfolded step_ok_def]
  show pc: "pc_ok R F 0 (srv ws) (worker_at ws u)" using inv u by blast
  fix e assume "handles (worker_at ws u) = Some e"
  moreover have "set_option (handles (worker_at ws u)) \<inter> set_option (handles (worker_at ws t)) = {}"
    using inv u T(2) by blast
  ultimately have "handles (worker_at ws t) \<noteq> Some e" by auto
  then show "event_session s' e = event_session (srv ws) e" using step by (simp add: event_session_def)
next
  note inv = inv [unfolded workers_inv_def Let_def]
  note step = step [unfolded step_ok_def]
  fix x assume x: "made_here (worker_at ws u) = Some x"
  let ?c = "\<lambda>v. count_list (held (worker_at ws v)) (Some x)"
  have pc: "pc_ok R F 0 (srv ws) (worker_at ws u)" using inv u by blast
  have "?c t + (\<Sum>v\<in>T - {t}. ?c v) = (\<Sum>v\<in>T. ?c v)" by (rule sum.remove [OF T, symmetric])
  moreover have "?c u \<le> (\<Sum>v\<in>T - {t}. ?c v)"
    by (rule member_le_sum) (use u T(1) in auto)
  moreover have "ref_count (srv_net (srv ws)) x = event_count (srv ws) x + (\<Sum>v\<in>T. ?c v)" using inv by blast
  ultimately have none: "?c t = 0" "event_count (srv ws) x = 0"
    using made_alone [OF pc x] by linarith+
  then have "count_list (held p') (Some x) = 0 \<and> event_count s' x = 0"
    using step made_alone(1) [OF pc x] by simp
  moreover have "ref_count (srv_net s') x + ?c t + event_count (srv ws) x =
      ref_count (srv_net (srv ws)) x + count_list (held p') (Some x) + event_count s' x"
    using step by blast
  ultimately show "ref_count (srv_net s') x = ref_count (srv_net (srv ws)) x" using none by linarith
qed

lemma workers_preserved:
  assumes inv: "workers_inv R F l T ws" and T: "finite T" "t \<in> T"
    and k: "k = 1 + length (acceptEvents l) + (\<Sum>u\<in>T - {t}. holds_object (worker_at ws u))"
    and step: "step_ok R F 0 l k (worker_at ws t) (srv ws) p' s'"
  shows "workers_inv R F l T (ws\<lparr>srv := s', worker_at := (worker_at ws)(t := p')\<rparr>)"
proof -
  define w where "w = worker_at ws"
  define w' where "w' = w(t := p')"
  have w': "w' t = p'" "\<And>u. u \<noteq> t \<Longrightarrow> w' u = w u" by (simp_all add: w'_def)
  note place = other_place_ok [OF inv T _ _ step, folded w_def]
  note inv = inv [unfolded workers_inv_def Let_def, folded w_def]
  note step = step [unfolded step_ok_def, folded w_def]
  have holds: "k + holds_object p' = 1 + length (acceptEvents l) + (\<Sum>u\<in>T. holds_object (w' u))"
  proof -
    have "(\<Sum>u\<in>T - {t}. holds_object (w' u)) = (\<Sum>u\<in>T - {t}. holds_object (w u))"
      by (rule sum.cong) (auto simp: w')
    then show ?thesis using sum.remove [OF T, of "\<lambda>u. holds_object (w' u)"] by (simp add: w' k w_def)
  qed
  have counts: "ref_count (srv_net s') x = event_count s' x + (\<Sum>u\<in>T. count_list (held (w' u)) (Some x))" for x
  proof -
    have "(\<Sum>u\<in>T. count_list (held (w' u)) (Some x)) + count_list (held (w t)) (Some x) =
        (\<Sum>u\<in>T. count_list (held (w u)) (Some x)) + count_list (held p') (Some x)"
      using sum_upd [OF T, of "\<lambda>p. count_list (held p) (Some x)" w p'] by (simp add: w'_def)
    moreover have "ref_count (srv_net (srv ws)) x =
        event_count (srv ws) x + (\<Sum>u\<in>T. count_list (held (w u)) (Some x))"
      using inv by blast
    moreover have "ref_count (srv_net s') x + count_list (held (w t)) (Some x) + event_count (srv ws) x =
        ref_count (srv_net (srv ws)) x + count_list (held p') (Some x) + event_count s' x"
      using step by blast
    ultimately show ?thesis by linarith
  qed
  have shared: "(\<Union>u\<in>T. set_option (handles (w' u))) \<union> pending (hist (srv_net s')) = set (acceptEvents l)"
      "\<forall>u\<in>T. set_option (handles (w' u)) \<inter> pending (hist (srv_net s')) = {}"
      "\<forall>u\<in>T. \<forall>v\<in>T. u \<noteq> v \<longrightarrow> set_option (handles (w' u)) \<inter> set_option (handles (w' v)) = {}"
    by (rule shared_out [OF T(2), where H = "\<lambda>u. set_option (handles (w u))" and P = "pending (hist (srv_net (srv ws)))"
          and H' = "\<lambda>u. set_option (handles (w' u))" and P' = "pending (hist (srv_net s'))" and A = "set (acceptEvents l)"];
        use inv step w' in \<open>simp; fail\<close>)+
  have pcs: "\<forall>u\<in>T. pc_ok R F 0 s' (w' u)"
    using place step unfolding w'_def by auto
  have "workers_inv R F l T (ws\<lparr>srv := s', worker_at := w'\<rparr>)"
    unfolding workers_inv_def Let_def using inv step counts shared pcs by (simp add: holds)
  then show ?thesis by (simp add: w'_def w_def)
qed

section \<open>Runs\<close>

definition refuses :: "os \<Rightarrow> HANDLE \<Rightarrow> bool" where
  "refuses os core \<longleftrightarrow> (\<exists>h c. result (os h (CreateIoCompletionPort c core)) = 0)"

definition dequeue_fails :: "os \<Rightarrow> bool" where
  "dequeue_fails os \<longleftrightarrow> (\<exists>h c t. overlapped (os h (GetQueuedCompletionStatus c t)) = None \<and>
     lastError (os h (GetQueuedCompletionStatus c t)) \<noteq> WAIT_TIMEOUT)"

text \<open>What holds of the workers in a run from \<open>s0\<close>, halted or not.\<close>

definition workers_ok :: "os \<Rightarrow> server \<Rightarrow> listener \<Rightarrow> nat set \<Rightarrow> workers \<Rightarrow> bool" where
  "workers_ok os s0 l T ws \<longleftrightarrow>
     workers_inv (refuses os (iocpCore (svc s0))) (dequeue_fails os) l T ws \<and> svc (srv ws) = svc s0 \<and>
     events_made (srv ws) = events_made s0 \<and>
     (\<forall>x. halted ws = Some x \<longrightarrow> x = UB ''null IocpEvent'' \<and> dequeue_fails os \<or>
        x = UB ''null SessionRef'' \<and> refuses os (iocpCore (svc s0)))"

lemma workers_inv_halted: "workers_inv R F l T (ws\<lparr>halted := x\<rparr>) = workers_inv R F l T ws"
  by (simp add: workers_inv_def)

lemma event_count_rest:
  assumes "serving lid l k s"
  shows "ref_count (srv_net s) x = event_count s x \<and> event_count s x \<le> 1"
proof -
  have doms: "dom (events s) = set (acceptEvents l)"
      "dom (sessions (srv_net s)) = {sid. \<exists>e \<in> set (acceptEvents l). event_session s e = Some sid}"
    and inj: "inj_on (event_session s) (set (acceptEvents l))"
    and ok: "\<And>e. e \<in> set (acceptEvents l) \<Longrightarrow> event_ok lid s e"
    using assms by (simp_all add: serving_def)
  show ?thesis
  proof (cases "\<exists>e \<in> set (acceptEvents l). event_session s e = Some x")
    case True
    then obtain e where e: "e \<in> set (acceptEvents l)" "event_session s e = Some x" by blast
    have "{d \<in> dom (events s). event_session s d = Some x} = {e}"
      using e inj_onD [OF inj] by (auto simp: doms(1))
    moreover have "ref_count (srv_net s) x = 1"
      using ok [OF e(1)] e(2) by (auto simp: ref_count_def elim!: event_okD)
    ultimately show ?thesis by (simp add: event_count_def)
  next
    case False
    then have "x \<notin> dom (sessions (srv_net s))" by (simp add: doms(2))
    then have "ref_count (srv_net s) x = 0" by (simp add: ref_count_def domIff del: not_None_eq)
    moreover have none: "{d \<in> dom (events s). event_session s d = Some x} = {}"
      using False by (auto simp: doms(1))
    ultimately show ?thesis unfolding event_count_def none by simp
  qed
qed

lemma workers_start_ok:
  assumes rest: "at_rest os maxCount l s0"
  shows "workers_ok os s0 l T (workers_start s0)"
proof -
  have s: "serving 0 l (1 + nat maxCount) s0" using rest by (simp add: at_rest_def)
  have ev: "event_ok 0 s0 e" if "e \<in> set (acceptEvents l)" for e using s that by (simp add: serving_def)
  have dom: "dom (events s0) = set (acceptEvents l)" using s by (simp add: serving_def)
  have net: "net_ok {listen_socket l} (srv_net s0)"
  proof -
    have "sessions (srv_net s0) sid \<noteq> Some (se, 0)" for sid se
    proof
      assume none: "sessions (srv_net s0) sid = Some (se, 0)"
      then have "sid \<in> dom (sessions (srv_net s0))" by blast
      then obtain e where "e \<in> set (acceptEvents l)" "event_session s0 e = Some sid"
        using s by (auto simp: serving_def)
      then show False using event_okD [OF ev] none by (metis One_nat_def nat.distinct(1) option.inject prod.inject)
    qed
    then show ?thesis using s by (simp add: net_ok_def serving_def)
  qed
  have types: "eventType v = Accept \<and> owner v = Some (Listener_object 0)" if "events s0 e = Some v" for e v
  proof -
    have "e \<in> set (acceptEvents l)" using that dom by blast
    then show ?thesis using ev [of e] that by (auto elim!: event_okD)
  qed
  have sess: "event_session s0 e \<noteq> None" if "e \<in> set (acceptEvents l)" for e
    using ev [OF that] by (auto elim!: event_okD)
  note counts = event_count_rest [OF s]
  have "workers_inv R F l T (workers_start s0)" for R F
    unfolding workers_inv_def Let_def workers_start_def
    using rest s net types sess counts by (simp add: at_rest_def serving_def)
  then show ?thesis by (simp add: workers_ok_def workers_start_def)
qed

lemma workers_step_ok:
  assumes ok: "workers_ok os s0 l T ws" and step: "workers_step os T ws ws'" and os: "os_ok os" and T: "finite T"
    and fac: "sessionFactory (svc s0) = Some (make_shared_session os)"
  shows "workers_ok os s0 l T ws'"
  using step
proof (rule workers_stepE)
  fix t assume ws': "ws' = worker_moves os t ws" and go: "halted ws = None" and t: "t \<in> T"
  let ?R = "refuses os (iocpCore (svc s0))" and ?F = "dequeue_fails os"
  define k where "k = 1 + length (acceptEvents l) + (\<Sum>u\<in>T - {t}. holds_object (worker_at ws u))"
  have inv: "workers_inv ?R ?F l T ws" and svc: "svc (srv ws) = svc s0" using ok by (simp_all add: workers_ok_def)
  have p: "here ?R ?F 0 l k (worker_at ws t) (srv ws)" unfolding k_def by (rule workers_here [OF inv T t])
  have well: "goes_well ?R ?F 0 l k (worker_at ws t) (srv ws) (worker_step os (worker_at ws t) (srv ws))"
    by (rule shared_session.worker_step_well [OF p os])
      (auto simp: svc fac refuses_def dequeue_fails_def)
  show ?thesis
  proof (cases "worker_step os (worker_at ws t) (srv ws)")
    case (Inl x)
    then show ?thesis using well ok by (simp add: ws' worker_moves_def workers_ok_def workers_inv_halted)
  next
    case (Inr q)
    obtain p' s' where q: "q = (p', s')" by (cases q)
    have step': "step_ok ?R ?F 0 l k (worker_at ws t) (srv ws) p' s'" using well Inr q by simp
    then have "svc s' = svc s0" "events_made s' = events_made s0"
      using svc ok by (simp_all add: step_ok_def workers_ok_def)
    then show ?thesis
      using workers_preserved [OF inv T t k_def step'] Inr q go
      by (simp add: ws' worker_moves_def workers_ok_def)
  qed
qed

lemma workers_run_ok:
  assumes "workers_run os T s0 ws" and os: "os_ok os" and T: "finite T" and rest: "at_rest os maxCount l s0"
  shows "workers_ok os s0 l T ws"
  using assms(1)
proof (induction rule: workers_run.induct)
  case run_begin
  show ?case by (rule workers_start_ok [OF rest])
next
  case (run_step ws ws')
  have "sessionFactory (svc s0) = Some (make_shared_session os)" using rest by (simp add: at_rest_def)
  then show ?case using workers_step_ok [OF run_step.IH run_step.hyps(2) os T] by blast
qed

section \<open>What the runs guarantee\<close>

lemma workers_ok_run:
  assumes "os_ok os" "server_run os maxCount s0" "finite T" "workers_run os T s0 ws"
  obtains l where "at_rest os maxCount l s0" "workers_ok os s0 l T ws"
    "workers_inv (refuses os (iocpCore (svc s0))) (dequeue_fails os) l T ws"
proof -
  obtain l where rest: "at_rest os maxCount l s0" using run_at_rest [OF assms(2,1)] by blast
  then have "workers_ok os s0 l T ws" by (rule workers_run_ok [OF assms(4,1,3)])
  then show thesis using that [OF rest] by (simp add: workers_ok_def)
qed

lemma card_indicator:
  assumes "finite T" "\<And>t. t \<in> T \<Longrightarrow> f t = (if P t then 1 else 0 :: nat)"
  shows "(\<Sum>t\<in>T. f t) = card {t \<in> T. P t}"
proof -
  have "(\<Sum>t\<in>T. f t) = (\<Sum>t\<in>T. if P t then 1 else 0)" by (rule sum.cong) (simp_all add: assms(2))
  also have "\<dots> = (\<Sum>t\<in>{t \<in> T. P t}. 1)" by (rule sum.inter_filter [OF assms(1), symmetric])
  finally show ?thesis by simp
qed

lemma card_handled:
  assumes "finite T" and "\<And>t u. t \<in> T \<Longrightarrow> u \<in> T \<Longrightarrow> t \<noteq> u \<Longrightarrow> set_option (h t) \<inter> set_option (h u) = {}"
  shows "card (\<Union>t\<in>T. set_option (h t)) = card {t \<in> T. h t \<noteq> None}"
proof -
  have "card (\<Union>t\<in>T. set_option (h t)) = (\<Sum>t\<in>T. card (set_option (h t)))"
    by (rule card_UN_disjoint) (use assms in auto)
  also have "\<dots> = card {t \<in> T. h t \<noteq> None}"
    by (rule card_indicator [OF assms(1)]) (auto split: option.splits)
  finally show ?thesis .
qed

text \<open>References under the invariant.\<close>

lemma references_exact:
  assumes inv: "workers_inv R F l T ws" and T: "finite T"
  shows "(\<forall>sid. ref_count (srv_net (srv ws)) sid = card {e \<in> dom (events (srv ws)). event_session (srv ws) e = Some sid} +
      (\<Sum>t\<in>T. count_list (held (worker_at ws t)) (Some sid))) \<and>
    (\<forall>sid se k. sessions (srv_net (srv ws)) sid = Some (se, k) \<longrightarrow> 0 < k) \<and>
    (\<forall>t\<in>T. \<forall>sid. Some sid \<in> set (held (worker_at ws t)) \<longrightarrow> sessions (srv_net (srv ws)) sid \<noteq> None) \<and>
    (\<forall>d e sid. event_session (srv ws) d = Some sid \<longrightarrow> sessions (srv_net (srv ws)) sid \<noteq> None \<and>
      (event_session (srv ws) e = Some sid \<longrightarrow> e = d))"
proof -
  define s where "s = srv ws"
  have counts: "ref_count (srv_net s) sid = event_count s sid + (\<Sum>t\<in>T. count_list (held (worker_at ws t)) (Some sid))" for sid
    using inv by (simp add: workers_inv_def Let_def s_def)
  have one: "event_count s sid \<le> 1" for sid using inv by (simp add: workers_inv_def Let_def s_def)
  have fin: "finite (dom (events s))" using inv by (simp add: workers_inv_def Let_def s_def)
  have net: "net_ok {listen_socket l} (srv_net s)" using inv by (simp add: workers_inv_def Let_def s_def)
  have live: "sessions (srv_net s) sid \<noteq> None" if "0 < ref_count (srv_net s) sid" for sid
    using that by (auto simp: ref_count_def split: option.splits)
  have pos: "0 < k" if "sessions (srv_net s) sid = Some (se, k)" for sid se k
    using net that by (cases k) (auto simp: net_ok_def)
  have local: "sessions (srv_net s) sid \<noteq> None" if t: "t \<in> T" and mem: "Some sid \<in> set (held (worker_at ws t))" for t sid
  proof (rule live)
    have "count_list (held (worker_at ws t)) (Some sid) \<noteq> 0" using mem by (simp add: count_list_0_iff)
    moreover have "count_list (held (worker_at ws t)) (Some sid) \<le> (\<Sum>t\<in>T. count_list (held (worker_at ws t)) (Some sid))"
      by (rule member_le_sum [OF t _ T]) simp
    ultimately show "0 < ref_count (srv_net s) sid" using counts [of sid] by linarith
  qed
  have event: "sessions (srv_net s) sid \<noteq> None \<and> (event_session s e = Some sid \<longrightarrow> e = d)"
    if d: "event_session s d = Some sid" for d e sid
  proof
    let ?E = "{e \<in> dom (events s). event_session s e = Some sid}"
    have mem: "x \<in> ?E" if "event_session s x = Some sid" for x
      using that by (auto simp: event_session_def bind_eq_Some_conv)
    have finE: "finite ?E" using fin by simp
    have "0 < event_count s sid" unfolding event_count_def using finE mem [OF d] by (auto simp: card_gt_0_iff)
    then show "sessions (srv_net s) sid \<noteq> None" using live counts [of sid] by simp
    show "event_session s e = Some sid \<longrightarrow> e = d"
    proof
      assume e: "event_session s e = Some sid"
      have "card ?E \<le> Suc 0" using one [of sid] by (simp add: event_count_def)
      then show "e = d" using card_le_Suc0_iff_eq [OF finE] mem [OF d] mem [OF e] by blast
    qed
  qed
  show ?thesis unfolding s_def [symmetric]
    using counts pos local event unfolding event_count_def by blast
qed

text \<open>Every event has one owner, the system or a worker.\<close>

lemma events_shared:
  fixes h :: "nat \<Rightarrow> nat option"
  assumes all: "(\<Union>t\<in>T. set_option (h t)) \<union> P = set es" and es: "distinct es" and T: "finite T"
    and free: "\<And>t. t \<in> T \<Longrightarrow> set_option (h t) \<inter> P = {}"
    and excl: "\<And>t u. t \<in> T \<Longrightarrow> u \<in> T \<Longrightarrow> t \<noteq> u \<Longrightarrow> set_option (h t) \<inter> set_option (h u) = {}"
  shows "\<forall>e \<in> set es. if e \<in> P then \<forall>t\<in>T. h t \<noteq> Some e else \<exists>!t. t \<in> T \<and> h t = Some e"
    "card P + card {t \<in> T. h t \<noteq> None} = length es"
proof -
  have each: "if e \<in> P then \<forall>t\<in>T. h t \<noteq> Some e else \<exists>!t. t \<in> T \<and> h t = Some e"
    if "e \<in> set es" for e
  proof (cases "e \<in> P")
    case True
    then show ?thesis using free by fastforce
  next
    case False
    then have "e \<in> (\<Union>t\<in>T. set_option (h t))" using all that by blast
    then obtain t where t: "t \<in> T" "h t = Some e" by (auto simp: elem_set)
    have "u = t" if "u \<in> T" "h u = Some e" for u using excl [OF that(1) t(1)] that(2) t(2) by auto
    then show ?thesis using False t by auto
  qed
  then show "\<forall>e \<in> set es. if e \<in> P then \<forall>t\<in>T. h t \<noteq> Some e else \<exists>!t. t \<in> T \<and> h t = Some e" by blast
  have "card P + card {t \<in> T. h t \<noteq> None} = card (P \<union> (\<Union>t\<in>T. set_option (h t)))"
  proof -
    have "P \<subseteq> set es" using all by blast
    then have "finite P" by (rule finite_subset) simp
    moreover have "finite (\<Union>t\<in>T. set_option (h t))" using T by simp
    moreover have "P \<inter> (\<Union>t\<in>T. set_option (h t)) = {}" using free by blast
    ultimately show ?thesis
      using card_Un_disjoint [of P "\<Union>t\<in>T. set_option (h t)"] card_handled [where h = h, OF T excl] by simp
  qed
  also have "\<dots> = length es" using all es by (simp add: Un_commute distinct_card)
  finally show "card P + card {t \<in> T. h t \<noteq> None} = length es" .
qed

text \<open>
  C5. While any number of workers dispatch at the same time, in any order of their steps, every accept
  event is either pending with the system or in the hands of exactly one worker, the events pending
  and those being handled are together \<^verbatim>\<open>maxSessionCount\<close>, and the listener's reference count is one
  for the service, one for each event and one for each worker inside \<^verbatim>\<open>IocpObject::Dispatch\<close>.
\<close>

theorem accepts_pending_or_handled:
  assumes "os_ok os" "server_run os maxCount s0" "finite T" "workers_run os T s0 ws"
  shows "\<exists>l. listeners (srv ws) = [0 \<mapsto> (l, 1 + nat maxCount + card {t \<in> T. holds_object (worker_at ws t) = 1})] \<and>
    distinct (acceptEvents l) \<and> length (acceptEvents l) = nat maxCount \<and>
    (\<forall>e \<in> set (acceptEvents l). if e \<in> pending (hist (srv_net (srv ws)))
       then \<forall>t\<in>T. handles (worker_at ws t) \<noteq> Some e
       else \<exists>!t. t \<in> T \<and> handles (worker_at ws t) = Some e) \<and>
    card (pending (hist (srv_net (srv ws)))) + card {t \<in> T. handles (worker_at ws t) \<noteq> None} = nat maxCount"
proof (rule workers_ok_run [OF assms])
  fix l R F assume rest: "at_rest os maxCount l s0" and inv': "workers_inv R F l T ws"
  define P where "P = pending (hist (srv_net (srv ws)))"
  define h where "h t = handles (worker_at ws t)" for t
  note inv = inv' [unfolded workers_inv_def Let_def, folded P_def h_def]
  have n: "distinct (acceptEvents l)" "length (acceptEvents l) = nat maxCount"
    using rest by (simp_all add: at_rest_def serving_def)
  have all: "(\<Union>t\<in>T. set_option (h t)) \<union> P = set (acceptEvents l)"
    and free: "\<And>t. t \<in> T \<Longrightarrow> set_option (h t) \<inter> P = {}"
    and excl: "\<And>t u. t \<in> T \<Longrightarrow> u \<in> T \<Longrightarrow> t \<noteq> u \<Longrightarrow> set_option (h t) \<inter> set_option (h u) = {}"
    using inv by (simp_all del: Union_iff)
  have "(\<Sum>t\<in>T. holds_object (worker_at ws t)) = card {t \<in> T. holds_object (worker_at ws t) = 1}"
  proof (rule card_indicator [OF assms(3)])
    fix t show "holds_object (worker_at ws t) = (if holds_object (worker_at ws t) = 1 then 1 else 0)"
      by (cases "worker_at ws t") simp_all
  qed
  then have lis: "listeners (srv ws) = [0 \<mapsto> (l, 1 + nat maxCount + card {t \<in> T. holds_object (worker_at ws t) = 1})]"
    using inv n(2) by simp
  note shared = events_shared [OF all n(1) assms(3) free excl, unfolded n(2)]
  show ?thesis using lis n shared unfolding P_def h_def by blast
qed

text \<open>
  C7. The reference count of a session is exactly the number of accept events and of local variables
  of the workers that hold it, so that no step copies, follows or drops a reference to a session that
  is gone, and no two events share a session.
\<close>

theorem session_references_exact:
  assumes "os_ok os" "server_run os maxCount s0" "finite T" "workers_run os T s0 ws"
  shows "(\<forall>sid. ref_count (srv_net (srv ws)) sid = card {e \<in> dom (events (srv ws)). event_session (srv ws) e = Some sid} +
      (\<Sum>t\<in>T. count_list (held (worker_at ws t)) (Some sid))) \<and>
    (\<forall>sid se k. sessions (srv_net (srv ws)) sid = Some (se, k) \<longrightarrow> 0 < k) \<and>
    (\<forall>t\<in>T. \<forall>sid. Some sid \<in> set (held (worker_at ws t)) \<longrightarrow> sessions (srv_net (srv ws)) sid \<noteq> None) \<and>
    (\<forall>d e sid. event_session (srv ws) d = Some sid \<longrightarrow> sessions (srv_net (srv ws)) sid \<noteq> None \<and>
      (event_session (srv ws) e = Some sid \<longrightarrow> e = d))"
proof (rule workers_ok_run [OF assms])
  fix l R F assume inv: "workers_inv R F l T ws"
  show ?thesis by (rule references_exact [OF inv assms(3)])
qed

text \<open>
  C34. Whatever the workers are in the middle of, the sockets made and not yet closed are exactly the
  listening one and those of the living sessions, each with a single owner, and no socket is closed
  twice.
\<close>

theorem sockets_owned_while_serving:
  assumes "os_ok os" "server_run os maxCount s0" "finite T" "workers_run os T s0 ws"
  shows "\<exists>l k. listeners (srv ws) 0 = Some (l, k) \<and> nat maxCount < k \<and>
    unclosed (hist (srv_net (srv ws))) = insert (listen_socket l) (ran (sess_sock (srv_net (srv ws)))) \<and>
    listen_socket l \<notin> ran (sess_sock (srv_net (srv ws))) \<and>
    inj_on (sess_sock (srv_net (srv ws))) (dom (sess_sock (srv_net (srv ws)))) \<and>
    closes_ok (hist (srv_net (srv ws)))"
proof (rule workers_ok_run [OF assms])
  fix l R F assume rest: "at_rest os maxCount l s0" and inv: "workers_inv R F l T ws"
  have "length (acceptEvents l) = nat maxCount" using rest by (simp add: at_rest_def)
  moreover have "net_inv {listen_socket l} (srv_net (srv ws))"
    using inv by (simp add: workers_inv_def Let_def net_ok_def)
  ultimately show ?thesis using inv
    by (intro exI [of _ l] exI conjI) (auto simp: workers_inv_def Let_def net_inv_def)
qed




end
