(* ===== verification/Worker_Progress.thy ===== *)
theory Worker_Progress
  imports Worker_Safety
begin

text \<open>
  A worker that has dequeued a completion comes back for the next one after a bounded number of its
  own steps, whatever the other workers do in between, if the system refuses an accept only a bounded
  number of times in a row. The bound is a rank that the worker's own steps decrease and that the
  steps of the others do not touch, since the refusals it depends on are those of the event in its
  hands.
\<close>

section \<open>The rank\<close>

fun steps_left :: "nat \<Rightarrow> worker_pc \<Rightarrow> nat" where
  "steps_left k W_wait = 0"
| "steps_left k (W_event iocpEvent bytes) = 17 + 7 * k"
| "steps_left k (W_object obj e bytes) = 16 + 7 * k"
| "steps_left k (W_accept lid e) = 15 + 7 * k"
| "steps_left k (W_update lid e ref) = 14 + 7 * k"
| "steps_left k (W_peer lid e ref) = 13 + 7 * k"
| "steps_left k (W_connected lid e ref addr) = 12 + 7 * k"
| "steps_left k (W_print lid e ref) = 11 + 7 * k"
| "steps_left k (W_create lid e refs) = 9 + length refs + 7 * k"
| "steps_left k (W_register lid e refs ref) = 8 + length refs + 7 * k"
| "steps_left k (W_refused lid e refs ref) = 7 + length refs + 7 * k"
| "steps_left k (W_attach lid e refs ref) = 6 + length refs + 7 * k"
| "steps_left k (W_assigned lid e refs ref old) = 5 + length refs + 7 * k"
| "steps_left k (W_call lid e refs ref) = 4 + length refs + 7 * k"
| "steps_left k (W_return lid refs) = 2 + length refs"
| "steps_left k (W_release obj) = 1"

text \<open>\<open>N\<close> bounds the refusals in a row.\<close>

definition turns_left :: "nat \<Rightarrow> workers \<Rightarrow> nat \<Rightarrow> nat" where
  "turns_left N ws t = (case handles (worker_at ws t) of
     None \<Rightarrow> steps_left 0 (worker_at ws t)
   | Some e \<Rightarrow> steps_left (N - refusals e (hist (srv_net (srv ws)))) (worker_at ws t))"

definition patient :: "os \<Rightarrow> nat \<Rightarrow> bool" where
  "patient os N \<longleftrightarrow> (\<forall>e h ls cs len l1 l2. N \<le> refusals e h \<longrightarrow> accepted_by_system (os h (AcceptEx ls cs len l1 l2 e)))"

text \<open>A step away from the port, that of \<^verbatim>\<open>AcceptEx\<close> aside, uses up one.\<close>

lemma steps_left_less:
  assumes step: "worker_step os p s = Inr (p', s')" and p: "p \<noteq> W_wait" "\<not> at_call p"
    and pc: "pc_ok R F i s p"
  shows "steps_left k p' < steps_left k p \<and> (handles p' = handles p \<or> handles p' = None)"
proof (cases p)
  case W_wait
  then show ?thesis using p by simp
next
  case (W_call lid e refs ref)
  then show ?thesis using p by simp
next
  case (W_event iocpEvent bytes)
  then show ?thesis using step pc
    by (auto simp: outcome_simps on_call Let_def split_beta split: if_splits option.splits)
next
  case (W_object obj e bytes)
  then show ?thesis using step pc
    by (auto simp: outcome_simps on_call Let_def split_beta split: if_splits IocpObject.splits)
next
  case (W_accept lid e)
  then show ?thesis using step pc
    by (auto simp: outcome_simps on_call Let_def split_beta split: if_splits)
next
  case (W_update lid e ref)
  then show ?thesis using step pc
    by (auto simp: outcome_simps on_call Let_def split_beta split: if_splits)
next
  case (W_peer lid e ref)
  then show ?thesis using step pc
    by (auto simp: outcome_simps on_call Let_def split_beta split: if_splits)
next
  case (W_connected lid e ref addr)
  then show ?thesis using step pc
    by (auto simp: outcome_simps on_call Let_def split_beta split: if_splits)
next
  case (W_print lid e ref)
  then show ?thesis using step pc
    by (auto simp: outcome_simps on_call Let_def split_beta split: if_splits)
next
  case (W_create lid e refs)
  then show ?thesis using step pc
    by (auto simp: outcome_simps on_call Let_def split_beta split: if_splits option.splits)
next
  case (W_register lid e refs ref)
  then show ?thesis using step pc
    by (auto simp: outcome_simps on_call Let_def split_beta split: if_splits)
next
  case (W_refused lid e refs ref)
  then show ?thesis using step pc
    by (auto simp: outcome_simps on_call Let_def split_beta split: if_splits)
next
  case (W_attach lid e refs ref)
  then show ?thesis using step pc
    by (auto simp: outcome_simps on_call Let_def split_beta split: if_splits)
next
  case (W_assigned lid e refs ref old)
  then show ?thesis using step pc
    by (auto simp: outcome_simps on_call Let_def split_beta split: if_splits)
next
  case (W_return lid refs)
  then show ?thesis using step
    by (cases refs) (auto simp: outcome_simps)
next
  case (W_release obj)
  then show ?thesis using step pc
    by (auto simp: outcome_simps on_call Let_def split_beta split: if_splits)
qed

lemma steps_left_mono: "k \<le> k' \<Longrightarrow> steps_left k p \<le> steps_left k' p"
  by (cases p) simp_all

section \<open>Own steps and the steps of others\<close>

lemma worker_moved:
  assumes "worker_step os (worker_at ws t) (srv ws) = Inr (p', s')"
  shows "worker_moves os t ws = ws\<lparr>srv := s', worker_at := (worker_at ws)(t := p')\<rparr>"
  using assms by (simp add: worker_moves_def)

text \<open>Where a worker is that has nothing in its hands, the number of refusals does not matter.\<close>

lemma steps_left_free:
  assumes "handles p = None" "pc_ok R F i s p" "\<And>b. p \<noteq> W_event None b"
  shows "steps_left k p = steps_left 0 p"
  using assms by (cases p) auto

lemma step_facts:
  assumes ok: "workers_ok os s0 l T ws" and os: "os_ok os" and T: "finite T" "t \<in> T"
    and fac: "sessionFactory (svc s0) = Some (make_shared_session os)"
    and step: "worker_step os (worker_at ws t) (srv ws) = Inr (p', s')"
  obtains R F k where "step_ok R F 0 l k (worker_at ws t) (srv ws) p' s'" "workers_inv R F l T ws"
proof -
  let ?R = "refuses os (iocpCore (svc s0))" and ?F = "dequeue_fails os"
  have inv: "workers_inv ?R ?F l T ws" and svc: "svc (srv ws) = svc s0" using ok by (simp_all add: workers_ok_def)
  note p = workers_here [OF inv T]
  have "goes_well ?R ?F 0 l (1 + length (acceptEvents l) + (\<Sum>u\<in>T - {t}. holds_object (worker_at ws u)))
      (worker_at ws t) (srv ws) (worker_step os (worker_at ws t) (srv ws))"
    by (rule shared_session.worker_step_well [OF p os]) (auto simp: svc fac refuses_def dequeue_fails_def)
  then show thesis using that [OF _ inv] step by simp
qed

lemma own_step:
  assumes ok: "workers_ok os s0 l T ws" and os: "os_ok os" and T: "finite T" "t \<in> T"
    and fac: "sessionFactory (svc s0) = Some (make_shared_session os)" and N: "patient os N"
    and step: "worker_step os (worker_at ws t) (srv ws) = Inr (p', s')" and p: "worker_at ws t \<noteq> W_wait"
  shows "turns_left N (worker_moves os t ws) t < turns_left N ws t"
proof -
  obtain R F k where st: "step_ok R F 0 l k (worker_at ws t) (srv ws) p' s'" and inv: "workers_inv R F l T ws"
    by (rule step_facts [OF ok os T fac step])
  have pc: "pc_ok R F 0 (srv ws) (worker_at ws t)" using inv T(2) by (simp add: workers_inv_def Let_def)
  define m where "m (s :: server) e = N - refusals e (hist (srv_net s))" for s e
  have moved: "turns_left N (worker_moves os t ws) t = (case handles p' of
      None \<Rightarrow> steps_left 0 p' | Some e \<Rightarrow> steps_left (m s' e) p')"
    by (simp add: worker_moved [OF step] turns_left_def m_def split: option.splits)
  show ?thesis
  proof (cases "at_call (worker_at ws t)")
    case True
    then obtain i e refs ref where w: "worker_at ws t = W_call i e refs ref" by (cases "worker_at ws t") auto
    have patience: "\<forall>ls cs len l1 l2. accepted_by_system (os (hist (srv_net (srv ws))) (AcceptEx ls cs len l1 l2 e))"
      if "N \<le> refusals e (hist (srv_net (srv ws)))" using N that by (simp add: patient_def)
    have "p' = W_return i (ref # refs) \<or>
        p' = W_create i e (ref # refs) \<and> refusals e (hist (srv_net (srv ws))) < N"
      by (rule call_again [OF step [unfolded w] patience])
    then show ?thesis
    proof
      assume "p' = W_return i (ref # refs)"
      then show ?thesis unfolding moved by (simp add: turns_left_def w)
    next
      assume again: "p' = W_create i e (ref # refs) \<and> refusals e (hist (srv_net (srv ws))) < N"
      then have "refusals e (hist (srv_net s')) = Suc (refusals e (hist (srv_net (srv ws))))"
        using st by (simp add: step_ok_def w)
      then have "m (srv ws) e = Suc (m s' e)" using again by (simp add: m_def Suc_diff_Suc)
      then show ?thesis unfolding moved using again by (simp add: turns_left_def w m_def [symmetric])
    qed
  next
    case False
    have less: "steps_left j p' < steps_left j (worker_at ws t) \<and>
        (handles p' = handles (worker_at ws t) \<or> handles p' = None)" for j
      by (rule steps_left_less [OF step p False pc])
    have same: "m s' e = m (srv ws) e" for e using st False by (simp add: step_ok_def m_def)
    show ?thesis
    proof (cases "handles p'")
      case None
      have "steps_left 0 p' \<le> steps_left j p'" for j by (rule steps_left_mono) simp
      then have "steps_left 0 p' < steps_left j (worker_at ws t)" for j using less [of j] le_less_trans by blast
      then show ?thesis unfolding moved using None by (simp add: turns_left_def split: option.splits)
    next
      case (Some e)
      then have "handles (worker_at ws t) = Some e" using less [of 0] by auto
      then show ?thesis unfolding moved using Some less [of "m (srv ws) e"] same
        by (simp add: turns_left_def m_def [symmetric])
    qed
  qed
qed

lemma other_step:
  assumes ok: "workers_ok os s0 l T ws" and os: "os_ok os" and T: "finite T" "t \<in> T" "u \<in> T" "u \<noteq> t"
    and fac: "sessionFactory (svc s0) = Some (make_shared_session os)"
  shows "turns_left N (worker_moves os u ws) t = turns_left N ws t"
proof (cases "worker_step os (worker_at ws u) (srv ws)")
  case (Inl x)
  then show ?thesis by (simp add: worker_moves_def turns_left_def split: option.splits)
next
  case (Inr q)
  obtain p' s' where step: "worker_step os (worker_at ws u) (srv ws) = Inr (p', s')" using Inr by (cases q) auto
  obtain R F k where st: "step_ok R F 0 l k (worker_at ws u) (srv ws) p' s'" and inv: "workers_inv R F l T ws"
    by (rule step_facts [OF ok os T(1,3) fac step])
  have "refusals e (hist (srv_net s')) = refusals e (hist (srv_net (srv ws)))"
    if e: "handles (worker_at ws t) = Some e" for e
  proof -
    have "set_option (handles (worker_at ws t)) \<inter> set_option (handles (worker_at ws u)) = {}"
      using inv T(2-4) by (simp add: workers_inv_def Let_def)
    then have "handles (worker_at ws u) \<noteq> Some e" using e by auto
    then show ?thesis using st by (simp add: step_ok_def)
  qed
  then show ?thesis using T(4)
    by (auto simp: worker_moved [OF step] turns_left_def split: option.splits)
qed

section \<open>Schedules\<close>

text \<open>The workers move in the order of a list; nobody moves after a crash.\<close>

definition scheduled :: "os \<Rightarrow> nat \<Rightarrow> workers \<Rightarrow> workers" where
  "scheduled os t ws = (if halted ws = None then worker_moves os t ws else ws)"

definition schedule :: "os \<Rightarrow> nat list \<Rightarrow> workers \<Rightarrow> workers" where
  "schedule os ts = fold (scheduled os) ts"

lemma scheduled_run:
  "workers_run os T s0 ws \<Longrightarrow> t \<in> T \<Longrightarrow> workers_run os T s0 (scheduled os t ws)"
  by (auto simp: scheduled_def intro: run_step workers_step.move)

lemma comes_back_within:
  assumes "os_ok os" "server_run os maxCount s0" "finite T" "workers_run os T s0 ws"
    and "patient os N" "t \<in> T" "set ts \<subseteq> T" "turns_left N ws t \<le> count_list ts t"
  shows "\<exists>n \<le> length ts. worker_at (schedule os (take n ts) ws) t = W_wait \<or>
    halted (schedule os (take n ts) ws) \<noteq> None"
  using assms(4,7,8)
proof (induction ts arbitrary: ws)
  case Nil
  have "turns_left N ws t = 0" using Nil.prems(3) by simp
  then have "worker_at ws t = W_wait"
    by (cases "worker_at ws t") (auto simp: turns_left_def split: option.splits)
  then show ?case by (simp add: schedule_def)
next
  case (Cons u us)
  show ?case
  proof (cases "worker_at ws t = W_wait \<or> halted ws \<noteq> None")
    case True
    then show ?thesis by (intro exI [of _ 0]) (simp add: schedule_def)
  next
    case False
    obtain l where rest: "at_rest os maxCount l s0" and ok: "workers_ok os s0 l T ws"
      by (rule workers_ok_run [OF assms(1,2,3) Cons.prems(1)])
    have fac: "sessionFactory (svc s0) = Some (make_shared_session os)" using rest by (simp add: at_rest_def)
    define ws1 where "ws1 = scheduled os u ws"
    have ws1: "ws1 = worker_moves os u ws" using False by (simp add: ws1_def scheduled_def)
    have run: "workers_run os T s0 ws1" unfolding ws1_def
      by (rule scheduled_run [OF Cons.prems(1)]) (use Cons.prems(2) in simp)
    have first: "schedule os (take (Suc n) (u # us)) ws = schedule os (take n us) ws1" for n
      by (simp add: schedule_def ws1_def)
    show ?thesis
    proof (cases "halted ws1 = None")
      case False
      then show ?thesis using first [of 0] by (intro exI [of _ 1]) (simp add: schedule_def)
    next
      case True
      have "turns_left N ws1 t \<le> count_list us t"
      proof (cases "u = t")
        case True
        then obtain p' s' where "worker_step os (worker_at ws t) (srv ws) = Inr (p', s')"
          using \<open>halted ws1 = None\<close> by (cases "worker_step os (worker_at ws t) (srv ws)") (auto simp: ws1 worker_moves_def)
        then have "turns_left N ws1 t < turns_left N ws t"
          unfolding ws1 True using own_step [OF ok assms(1,3,6) fac assms(5)] False by blast
        then show ?thesis using Cons.prems(3) True by simp
      next
        case neq: False
        have "turns_left N ws1 t = turns_left N ws t"
          unfolding ws1 using other_step [OF ok assms(1,3,6) _ neq fac] Cons.prems(2) by simp
        then show ?thesis using Cons.prems(3) neq by simp
      qed
      then obtain n where "n \<le> length us" "worker_at (schedule os (take n us) ws1) t = W_wait \<or>
          halted (schedule os (take n us) ws1) \<noteq> None"
        using Cons.IH [OF run] Cons.prems(2) by auto
      then show ?thesis using first [of n] by (intro exI [of _ "Suc n"]) simp
    qed
  qed
qed

text \<open>
  C14. A worker that has dequeued a completion is back at \<^verbatim>\<open>GetQueuedCompletionStatus\<close>, or the
  process has stopped, before it has moved 17 + 7 N times, in every order of the steps of all workers,
  if the system accepts an event after at most N refusals in a row.
\<close>

theorem worker_comes_back:
  assumes "os_ok os" "server_run os maxCount s0" "finite T" "workers_run os T s0 ws"
    and "patient os N" "t \<in> T" "worker_at ws t = W_event iocpEvent bytes"
    and "set ts \<subseteq> T" "17 + 7 * N \<le> count_list ts t"
  shows "\<exists>n \<le> length ts. worker_at (schedule os (take n ts) ws) t = W_wait \<or>
    halted (schedule os (take n ts) ws) \<noteq> None"
proof (rule comes_back_within [OF assms(1-6) assms(8)])
  have "turns_left N ws t \<le> 17 + 7 * N" by (simp add: turns_left_def assms(7) split: option.splits)
  then show "turns_left N ws t \<le> count_list ts t" using assms(9) by linarith
qed

end
