(* ===== verification/Worker_Example.thy ===== *)
theory Worker_Example
  imports Worker_Progress Server_Safety
begin

text \<open>
  Concrete runs of dispatching workers: two workers of a server for two clients on the small system
  of theory \<open>Server_Safety\<close>, and a system whose completion port fails.
\<close>

section \<open>Two workers of the small system\<close>

lemma example_never_halts:
  assumes "server_run example_os maxCount s0" "finite T" "workers_run example_os T s0 ws"
  shows "halted ws = None"
proof (rule workers_ok_run [OF example_os_ok assms])
  fix l assume "workers_ok example_os s0 l T ws"
  moreover have "\<not> dequeue_fails example_os"
    by (auto simp: dequeue_fails_def example_reply_def split: option.splits)
  moreover have "\<not> refuses example_os core" for core by (simp add: refuses_def example_reply_def)
  ultimately show ?thesis by (cases "halted ws") (auto simp: workers_ok_def)
qed

lemma example_dequeues:
  assumes "latest (hist (srv_net (srv ws))) = Some e" "worker_at ws t = W_wait" "halted ws = None"
  obtains s' where "scheduled example_os t ws = ws\<lparr>srv := s', worker_at := (worker_at ws)(t := W_event (Some e) 0)\<rparr>"
    "pending (hist (srv_net s')) = pending (hist (srv_net (srv ws))) - {e}"
proof -
  define c where "c = GetQueuedCompletionStatus (GetIocpCore (svc (srv ws))) INFINITE"
  define s' where "s' = (srv ws)\<lparr>srv_net := (srv_net (srv ws))\<lparr>hist :=
    (c, example_os (hist (srv_net (srv ws))) c) # hist (srv_net (srv ws))\<rparr>\<rparr>"
  have "worker_step example_os W_wait (srv ws) = Inr (W_event (Some e) 0, s')"
    using assms(1) by (simp add: on_call Let_def s'_def c_def example_reply_def)
  then have "scheduled example_os t ws = ws\<lparr>srv := s', worker_at := (worker_at ws)(t := W_event (Some e) 0)\<rparr>"
    using assms(2,3) by (simp add: scheduled_def worker_moves_def)
  moreover have "pending (hist (srv_net s')) = pending (hist (srv_net (srv ws))) - {e}"
    using assms(1) by (simp add: s'_def c_def example_reply_def)
  ultimately show thesis by (rule that)
qed

text \<open>Both accepts of a server for two clients in the hands of its two workers.\<close>

lemma example_two:
  obtains s0 ws d e where "server_run example_os 2 s0" "workers_run example_os {2, 3} s0 ws"
    "worker_at ws 2 = W_event (Some d) 0" "worker_at ws 3 = W_event (Some e) 0" "d \<noteq> e"
    "pending (hist (srv_net (srv ws))) = {}" "halted ws = None"
proof -
  obtain s0 where s0: "server_run example_os 2 s0" using example_server_run [OF example_like] by blast
  obtain l where rest: "at_rest example_os 2 l s0" using run_at_rest [OF s0 example_os_ok] by blast
  define w0 where "w0 = workers_start s0"
  have r0: "workers_run example_os {2, 3} s0 w0" unfolding w0_def by (rule run_begin)
  have at0: "worker_at w0 t = W_wait" "srv w0 = s0" for t by (simp_all add: w0_def workers_start_def)
  have P0: "finite (pending (hist (srv_net s0)))" "card (pending (hist (srv_net s0))) = 2"
    using rest by (simp_all add: at_rest_def serving_def distinct_card)
  then have "pending (hist (srv_net (srv w0))) \<noteq> {}" by (auto simp: at0)
  then obtain d where d: "latest (hist (srv_net (srv w0))) = Some d" using latest_Some by blast
  have h0: "halted w0 = None" by (simp add: w0_def workers_start_def)
  obtain s1 where s1: "scheduled example_os 2 w0 = w0\<lparr>srv := s1, worker_at := (worker_at w0)(2 := W_event (Some d) 0)\<rparr>"
      "pending (hist (srv_net s1)) = pending (hist (srv_net s0)) - {d}"
    by (rule example_dequeues [OF d at0(1) h0]) (simp add: at0)
  define w1 where "w1 = scheduled example_os 2 w0"
  have r1: "workers_run example_os {2, 3} s0 w1" unfolding w1_def by (rule scheduled_run [OF r0]) simp
  have dP: "d \<in> pending (hist (srv_net s0))" using latest_pending [OF d] by (simp add: at0)
  have P1: "card (pending (hist (srv_net (srv w1)))) = 1" using P0 dP s1 by (simp add: w1_def)
  then have "pending (hist (srv_net (srv w1))) \<noteq> {}" by auto
  then obtain e where e: "latest (hist (srv_net (srv w1))) = Some e" using latest_Some by blast
  have h1: "halted w1 = None" by (simp add: w1_def s1 h0)
  have at1: "worker_at w1 3 = W_wait" by (simp add: w1_def s1 at0)
  obtain s2 where s2: "scheduled example_os 3 w1 = w1\<lparr>srv := s2, worker_at := (worker_at w1)(3 := W_event (Some e) 0)\<rparr>"
      "pending (hist (srv_net s2)) = pending (hist (srv_net (srv w1))) - {e}"
    by (rule example_dequeues [OF e at1 h1])
  define w2 where "w2 = scheduled example_os 3 w1"
  have r2: "workers_run example_os {2, 3} s0 w2" unfolding w2_def by (rule scheduled_run [OF r1]) simp
  have eP: "e \<in> pending (hist (srv_net (srv w1)))" by (rule latest_pending [OF e])
  have "pending (hist (srv_net (srv w2))) = {}"
    using P1 eP by (auto simp: w2_def s2 card_1_singleton_iff)
  moreover have "d \<noteq> e" using eP s1 by (auto simp: w1_def)
  ultimately show thesis
    using that [OF s0 r2, of d e] by (simp add: w2_def s2) (simp add: w1_def s1 h0)
qed

text \<open>One of them goes on alone until it waits again.\<close>

lemma two_workers_run:
  assumes "workers_run example_os {2, 3} s0 ws" "t \<in> {2, 3}"
  shows "workers_run example_os {2, 3} s0 (schedule example_os (replicate n t) ws)"
  unfolding schedule_def using assms by (induction n arbitrary: ws) (simp_all add: scheduled_run)


lemma example_patient: "patient example_os 0"
  unfolding patient_def by (intro allI impI, rule example_accepts)


theorem worker_comes_back_witness:
  "\<exists>s0 ws d n. workers_run example_os {2, 3} s0 ws \<and> worker_at ws 2 = W_event (Some d) 0 \<and> n \<le> 17 \<and>
    worker_at (schedule example_os (replicate n 2) ws) 2 = W_wait"
proof (rule example_two)
  fix s0 ws d assume s0: "server_run example_os 2 s0" and ws: "workers_run example_os {2, 3} s0 ws"
    and d: "worker_at ws 2 = W_event (Some d) 0"
  have count: "count_list (replicate 17 (2 :: nat)) 2 = 17" by (simp add: eval_nat_numeral)
  have "\<exists>n \<le> length (replicate 17 (2 :: nat)). worker_at (schedule example_os (take n (replicate 17 (2 :: nat))) ws) 2 = W_wait \<or>
      halted (schedule example_os (take n (replicate 17 (2 :: nat))) ws) \<noteq> None"
    by (rule worker_comes_back [OF example_os_ok s0 _ ws example_patient _ d]) (simp_all add: count)
  then obtain n where n: "n \<le> 17" "worker_at (schedule example_os (replicate n 2) ws) 2 = W_wait \<or>
      halted (schedule example_os (replicate n 2) ws) \<noteq> None" by (auto simp: min_def)
  have "workers_run example_os {2, 3} s0 (schedule example_os (replicate n 2) ws)"
    by (rule two_workers_run [OF ws]) simp
  then have "halted (schedule example_os (replicate n 2) ws) = None"
    by (rule example_never_halts [OF s0, rotated]) simp
  then show ?thesis using n ws d by blast
qed

theorem accepts_pending_or_handled_witness:
  "\<exists>s0 ws l. workers_run example_os {2, 3} s0 ws \<and> listeners (srv ws) 0 = Some (l, 3) \<and>
    pending (hist (srv_net (srv ws))) = {} \<and>
    (\<forall>e \<in> set (acceptEvents l). \<exists>!t. t \<in> {2, 3} \<and> handles (worker_at ws t) = Some e)"
proof (rule example_two)
  fix s0 ws d e assume s0: "server_run example_os 2 s0" and ws: "workers_run example_os {2, 3} s0 ws"
    and at: "worker_at ws 2 = W_event (Some d) 0" "worker_at ws 3 = W_event (Some e) 0"
    and none: "pending (hist (srv_net (srv ws))) = {}"
  have zero: "{t \<in> {2, 3}. holds_object (worker_at ws t) = 1} = {}" using at by auto
  obtain l where l: "listeners (srv ws) = [0 \<mapsto> (l, 1 + nat 2 + card {t \<in> {2, 3}. holds_object (worker_at ws t) = 1})]"
      "\<forall>e \<in> set (acceptEvents l). if e \<in> pending (hist (srv_net (srv ws)))
       then \<forall>t\<in>{2, 3}. handles (worker_at ws t) \<noteq> Some e
       else \<exists>!t. t \<in> {2, 3} \<and> handles (worker_at ws t) = Some e"
    using accepts_pending_or_handled [OF example_os_ok s0 _ ws] by auto
  have "listeners (srv ws) 0 = Some (l, 3)" using l(1) unfolding zero by simp
  moreover have "\<forall>e \<in> set (acceptEvents l). \<exists>!t. t \<in> {2, 3} \<and> handles (worker_at ws t) = Some e"
    using l(2) unfolding none by simp
  ultimately show ?thesis using ws none by blast
qed

theorem session_references_exact_witness:
  "\<exists>s0 ws. workers_run example_os {2, 3} s0 ws \<and> pending (hist (srv_net (srv ws))) = {} \<and>
    (\<forall>d e sid. event_session (srv ws) d = Some sid \<longrightarrow> event_session (srv ws) e = Some sid \<longrightarrow> e = d)"
proof (rule example_two)
  fix s0 ws assume s0: "server_run example_os 2 s0" and ws: "workers_run example_os {2, 3} s0 ws"
    and none: "pending (hist (srv_net (srv ws))) = {}"
  show ?thesis using session_references_exact [OF example_os_ok s0 _ ws] ws none
    by (intro exI [of _ s0] exI [of _ ws]) auto
qed

theorem sockets_owned_while_serving_witness:
  "\<exists>s0 ws l k. workers_run example_os {2, 3} s0 ws \<and> pending (hist (srv_net (srv ws))) = {} \<and>
    listeners (srv ws) 0 = Some (l, k) \<and> listen_socket l \<in> unclosed (hist (srv_net (srv ws)))"
proof (rule example_two)
  fix s0 ws assume s0: "server_run example_os 2 s0" and ws: "workers_run example_os {2, 3} s0 ws"
    and none: "pending (hist (srv_net (srv ws))) = {}"
  obtain l k where "listeners (srv ws) 0 = Some (l, k)" "listen_socket l \<in> unclosed (hist (srv_net (srv ws)))"
    using sockets_owned_while_serving [OF example_os_ok s0 _ ws] by auto
  then show ?thesis using ws none by blast
qed


section \<open>A port that fails\<close>




end
