(* ===== verification/Monitor.thy ===== *)
theory Monitor
  imports Lock_Threads
begin

text \<open>
  Methods that run under \<^verbatim>\<open>WRITE_LOCK\<close>: the guard's constructor calls \<^verbatim>\<open>WriteLock\<close>, the statements
  of the body follow one by one, and the guard's destructor calls \<^verbatim>\<open>WriteUnlock\<close>. Any number of
  threads run such methods of one object at the same time. The theory knows the body of a method
  only as a list of statements on the data that the lock guards, and shows, from what
  \<open>RW_Lock_Safety\<close> says of the lock, that the methods take effect as if run one after the other.
\<close>

section \<open>Threads in guarded methods\<close>

text \<open>Where a thread is; \<open>Inside x n\<close> has done \<open>n\<close> statements of method \<open>x\<close>.\<close>

datatype 'x place = Outside | Entering 'x | Inside 'x nat | Leaving

record ('t, 'x, 'd) monitor =
  lock_sys :: "'t sys"
  places :: "'t \<Rightarrow> 'x place"
  guarded_data :: 'd
  finished_calls :: "'x list"  \<comment> \<open>in the order of their last statements; no step reads it\<close>
  stopped :: "failure option"

type_synonym ('x, 'd) bodies = "'x \<Rightarrow> ('d \<Rightarrow> 'd outcome) list"

definition monitor_start :: "'d \<Rightarrow> ('t, 'x, 'd) monitor" where
  "monitor_start d = \<lparr>lock_sys = lock_init, places = (\<lambda>_. Outside), guarded_data = d,
     finished_calls = [], stopped = None\<rparr>"

fun lock_returned :: "'x place \<Rightarrow> 'x place" where
  "lock_returned (Entering x) = Inside x 0"
| "lock_returned Leaving = Outside"
| "lock_returned p = p"

definition lock_moves :: "('t \<Rightarrow> uint32) \<Rightarrow> 't \<Rightarrow> ('t, 'x, 'd) monitor \<Rightarrow> ('t, 'x, 'd) monitor" where
  "lock_moves tid t m = (let s = lock_sys m in
     case lock_step (clock s) (tid t) (the_lock s) (pcs s t) of
       Inl e \<Rightarrow> m\<lparr>stopped := Some e\<rparr>
     | Inr (l, p) \<Rightarrow> m\<lparr>lock_sys := moved s t l p,
         places := (places m)(t := if p = Idle then lock_returned (places m t) else places m t)\<rparr>)"

definition body_moves :: "('x, 'd) bodies \<Rightarrow> 't \<Rightarrow> 'x \<Rightarrow> nat \<Rightarrow> ('t, 'x, 'd) monitor \<Rightarrow> ('t, 'x, 'd) monitor" where
  "body_moves body t x n m =
     (if n < length (body x)
      then (case (body x ! n) (guarded_data m) of
              Inl e \<Rightarrow> m\<lparr>stopped := Some e\<rparr>
            | Inr d \<Rightarrow> m\<lparr>places := (places m)(t := Inside x (n + 1)), guarded_data := d\<rparr>)
      else m\<lparr>lock_sys := enter (lock_sys m) t WriteUnlock, places := (places m)(t := Leaving),
             finished_calls := finished_calls m @ [x]\<rparr>)"

datatype ('t, 'x) monitor_event = Call_method 't 'x | Proceed 't | Clock uint64

fun monitor_do :: "'t set \<Rightarrow> ('t \<Rightarrow> uint32) \<Rightarrow> ('x, 'd) bodies \<Rightarrow>
    ('t, 'x) monitor_event \<Rightarrow> ('t, 'x, 'd) monitor \<Rightarrow> ('t, 'x, 'd) monitor option" where
  "monitor_do T tid body (Call_method t x) m =
     (if stopped m = None \<and> t \<in> T \<and> places m t = Outside
      then Some (m\<lparr>lock_sys := enter (lock_sys m) t WriteLock, places := (places m)(t := Entering x)\<rparr>)
      else None)"
| "monitor_do T tid body (Proceed t) m =
     (if stopped m = None \<and> t \<in> T
      then (case places m t of
              Outside \<Rightarrow> None
            | Inside x n \<Rightarrow> Some (body_moves body t x n m)
            | _ \<Rightarrow> Some (lock_moves tid t m))
      else None)"
| "monitor_do T tid body (Clock c) m =
     (if stopped m = None then Some (m\<lparr>lock_sys := lock_sys m\<lparr>clock := c\<rparr>\<rparr>) else None)"

fun monitor_run :: "'t set \<Rightarrow> ('t \<Rightarrow> uint32) \<Rightarrow> ('x, 'd) bodies \<Rightarrow>
    ('t, 'x) monitor_event list \<Rightarrow> ('t, 'x, 'd) monitor \<Rightarrow> ('t, 'x, 'd) monitor option" where
  "monitor_run T tid body [] m = Some m"
| "monitor_run T tid body (e # es) m =
     Option.bind (monitor_do T tid body e m) (monitor_run T tid body es)"

section \<open>Calls one after the other\<close>

fun run_statements :: "('d \<Rightarrow> 'd outcome) list \<Rightarrow> 'd \<Rightarrow> 'd outcome" where
  "run_statements [] d = Inr d"
| "run_statements (f # fs) d = and_then (f d) (run_statements fs)"

fun run_methods :: "('x, 'd) bodies \<Rightarrow> 'x list \<Rightarrow> 'd \<Rightarrow> 'd outcome" where
  "run_methods body [] d = Inr d"
| "run_methods body (x # xs) d = and_then (run_statements (body x) d) (run_methods body xs)"

lemma run_statements_snoc:
  "run_statements (fs @ [f]) d = and_then (run_statements fs d) f"
proof (induction fs arbitrary: d)
  case Nil
  have "run_statements [] = (Inr :: 'a \<Rightarrow> 'a outcome)" by (rule ext) simp
  then show ?case by simp
next
  case (Cons g fs)
  then show ?case by (cases "g d") auto
qed

lemma run_statements_stop:
  "run_statements fs d = Inl e \<Longrightarrow> run_statements (fs @ gs) d = Inl e"
  by (induction fs d rule: run_statements.induct) (auto simp: and_then_def split: sum.splits)

lemma run_methods_snoc:
  "run_methods body (xs @ [x]) d = and_then (run_methods body xs d) (run_statements (body x))"
proof (induction xs arbitrary: d)
  case Nil
  have "run_methods body [] = Inr" by (rule ext) simp
  then show ?case by simp
next
  case (Cons y xs)
  then show ?case by (cases "run_statements (body y) d") auto
qed

section \<open>The invariant\<close>

text \<open>The lock as a thread at some place sees it.\<close>

fun place_ok :: "'x place \<Rightarrow> pc \<Rightarrow> nat \<Rightarrow> bool" where
  "place_ok Outside p w \<longleftrightarrow> p = Idle \<and> w = 0"
| "place_ok (Entering x) p w \<longleftrightarrow> w = 0 \<and>
     (case p of WL_load \<Rightarrow> True | WL_rec \<Rightarrow> True | WL_tick \<Rightarrow> True | WL_spin b n \<Rightarrow> True | WL_won \<Rightarrow> True | _ \<Rightarrow> False)"
| "place_ok (Inside x n) p w \<longleftrightarrow> p = Idle \<and> w = 1"
| "place_ok Leaving p w \<longleftrightarrow> w = 0 \<and> (case p of WU_check \<Rightarrow> True | WU_dec \<Rightarrow> True | WU_store \<Rightarrow> True | _ \<Rightarrow> False)"

text \<open>The data are those after the finished calls, with what a thread inside has added.\<close>

definition data_ok :: "('x, 'd) bodies \<Rightarrow> 'd \<Rightarrow> ('t, 'x, 'd) monitor \<Rightarrow> bool" where
  "data_ok body d0 m \<longleftrightarrow> (\<exists>d. run_methods body (finished_calls m) d0 = Inr d \<and>
     ((\<forall>t x n. places m t \<noteq> Inside x n) \<longrightarrow> guarded_data m = d) \<and>
     (\<forall>t x n. places m t = Inside x n \<longrightarrow> n \<le> length (body x) \<and>
        run_statements (take n (body x)) d = Inr (guarded_data m)))"

definition monitor_inv ::
  "'t set \<Rightarrow> ('t \<Rightarrow> uint32) \<Rightarrow> nat \<Rightarrow> ('x, 'd) bodies \<Rightarrow> 'd \<Rightarrow> ('t, 'x, 'd) monitor \<Rightarrow> bool" where
  "monitor_inv T tid depth body d0 m \<longleftrightarrow>
     lock_reachable T tid depth (lock_sys m) \<and> crashed (lock_sys m) = None \<and>
     (\<forall>t. place_ok (places m t) (pcs (lock_sys m) t) (wheld (lock_sys m) t) \<and> rheld (lock_sys m) t = 0) \<and>
     (\<forall>t. t \<notin> T \<longrightarrow> places m t = Outside) \<and> data_ok body d0 m"

text \<open>Why a method can stop: the lock's timeout, or a statement of its body.\<close>

definition stop_ok :: "('x, 'd) bodies \<Rightarrow> 'd \<Rightarrow> ('t, 'x, 'd) monitor \<Rightarrow> bool" where
  "stop_ok body d0 m \<longleftrightarrow> (\<forall>e. stopped m = Some e \<longrightarrow> e = CRASH ''Lock_Timeout'' \<or>
     (\<exists>x. run_methods body (finished_calls m @ [x]) d0 = Inl e))"

locale monitored = lock_clients T tid 1
  for T :: "'t set" and tid :: "'t \<Rightarrow> uint32" +
  fixes body :: "('x, 'd) bodies"
begin

lemma inside_holds:
  assumes "monitor_inv T tid 1 body d0 m" "places m t = Inside x n"
  shows "t \<in> T" "wheld (lock_sys m) t = 1" "pcs (lock_sys m) t = Idle" "rheld (lock_sys m) t = 0"
proof -
  have "place_ok (Inside x n) (pcs (lock_sys m) t) (wheld (lock_sys m) t)"
    using assms unfolding monitor_inv_def by metis
  then show "wheld (lock_sys m) t = 1" "pcs (lock_sys m) t = Idle" by simp_all
  show "t \<in> T" "rheld (lock_sys m) t = 0" using assms by (auto simp: monitor_inv_def)
qed

lemma inside_unique:
  assumes inv: "monitor_inv T tid 1 body d0 m"
    and "places m t = Inside x n" "places m u = Inside y k"
  shows "t = u"
proof (rule ccontr)
  assume ne: "t \<noteq> u"
  have "lock_reachable T tid 1 (lock_sys m)" using inv by (simp add: monitor_inv_def)
  then show False
    using mutual_exclusion [of "lock_sys m" t u] inside_holds [OF inv assms(2)]
      inside_holds [OF inv assms(3)] ne by simp
qed

text \<open>The data do not change when the set of threads inside does not.\<close>

lemma data_ok_frame:
  assumes "data_ok body d0 m" "guarded_data m' = guarded_data m" "finished_calls m' = finished_calls m"
    and "\<And>u x n. places m' u = Inside x n \<longleftrightarrow> places m u = Inside x n"
  shows "data_ok body d0 m'"
  using assms unfolding data_ok_def by simp

lemma data_ok_entered:
  assumes "data_ok body d0 m" "guarded_data m' = guarded_data m" "finished_calls m' = finished_calls m"
    and "\<forall>u y n. places m u \<noteq> Inside y n"
    and "\<forall>u y n. places m' u = Inside y n \<longrightarrow> n = 0"
  shows "data_ok body d0 m'"
proof -
  obtain d where d: "run_methods body (finished_calls m) d0 = Inr d" "guarded_data m = d"
    using assms(1,4) unfolding data_ok_def by blast
  have "n \<le> length (body x) \<and> run_statements (take n (body x)) d = Inr (guarded_data m')"
    if "places m' t = Inside x n" for t x n
    using assms(2,5) d(2) that by fastforce
  then show ?thesis unfolding data_ok_def using d assms(2,3) by metis
qed

lemma moved_parts:
  "crashed (moved s t l p) = crashed s"
  "pcs (moved s t l p) u = (if u = t then p else pcs s u)"
  "wheld (moved s t l p) u = (if u = t \<and> write_returns (pcs s t) then wheld s u + 1 else wheld s u)"
  "rheld (moved s t l p) u = (if u = t \<and> read_returns (pcs s t) p then rheld s u + 1 else rheld s u)"
  by (auto simp: moved_def)

text \<open>One step of the lock's code on behalf of a thread that enters or leaves.\<close>

lemma lock_step_place:
  assumes "place_ok pl p w" "\<forall>x n. pl \<noteq> Inside x n" "pl \<noteq> Outside"
    and "pc_ok 1 p w 0" "lock_step now i l p = Inr (l', p')"
  shows "place_ok (if p' = Idle then lock_returned pl else pl) p' (if write_returns p then w + 1 else w) \<and>
    \<not> read_returns p p'"
proof (cases pl)
  case (Entering x)
  then show ?thesis using assms
    by (cases p) (auto simp: compare_exchange_strong_def split: if_splits)
next
  case Leaving
  then show ?thesis using assms
    by (cases p) (auto simp: Let_def split: if_splits)
qed (use assms in auto)

lemma inv_lock_moves:
  assumes inv: "monitor_inv T tid 1 body d0 m" and t: "t \<in> T"
    and place: "\<forall>x n. places m t \<noteq> Inside x n" "places m t \<noteq> Outside"
    and sane: "stopped m = None"
  shows "monitor_inv T tid 1 body d0 (lock_moves tid t m) \<and> stop_ok body d0 (lock_moves tid t m)"
proof -
  let ?s = "lock_sys m"
  have reach: "lock_reachable T tid 1 ?s" and running: "crashed ?s = None"
    and places: "\<And>u. place_ok (places m u) (pcs ?s u) (wheld ?s u) \<and> rheld ?s u = 0"
    and data: "data_ok body d0 m" and out: "\<And>u. u \<notin> T \<Longrightarrow> places m u = Outside"
    using inv by (auto simp: monitor_inv_def)
  obtain own where own: "lock_inv T tid 1 own ?s" using lock_reachable_inv reach by blast
  show ?thesis
  proof (cases "lock_step (clock ?s) (tid t) (the_lock ?s) (pcs ?s t)")
    case (Inl e)
    then have "lock_moves tid t m = m\<lparr>stopped := Some e\<rparr>" by (simp add: lock_moves_def Let_def)
    moreover have "e = CRASH ''Lock_Timeout''" using crash_causes [OF own t Inl] places [of t] by auto
    ultimately show ?thesis using inv by (simp add: monitor_inv_def data_ok_def stop_ok_def)
  next
    case (Inr lp)
    obtain l p where lp: "lp = (l, p)" by force
    let ?m = "m\<lparr>lock_sys := moved ?s t l p,
         places := (places m)(t := if p = Idle then lock_returned (places m t) else places m t)\<rparr>"
    have m': "lock_moves tid t m = ?m" using Inr lp by (simp add: lock_moves_def Let_def)
    have "pc_ok 1 (pcs ?s t) (wheld ?s t) 0"
      using inv_thread [OF own t] places [of t] by (simp add: thread_ok_def)
    then have step: "place_ok (places ?m t) p (wheld (lock_sys ?m) t) \<and> \<not> read_returns (pcs ?s t) p"
      using lock_step_place [OF conjunct1 [OF places [of t]] place _ Inr [unfolded lp]] by (simp add: moved_parts)
    have "sys_step T tid 1 ?s (moved ?s t l p)" using running t Inr lp by (intro sys_step.run) auto
    then have r': "lock_reachable T tid 1 (lock_sys ?m)" using reach lock_reachable.step by auto
    have ok': "place_ok (places ?m u) (pcs (lock_sys ?m) u) (wheld (lock_sys ?m) u) \<and> rheld (lock_sys ?m) u = 0" for u
      using step places [of u] by (cases "u = t") (auto simp: moved_parts)
    have d': "data_ok body d0 ?m"
    proof (cases "\<exists>x. p = Idle \<and> places m t = Entering x")
      case False
      then have "places ?m u = Inside x n \<longleftrightarrow> places m u = Inside x n" for u x n
        using place by (cases "places m t") auto
      then show ?thesis by (intro data_ok_frame [OF data]) auto
    next
      case True
      then obtain x where x: "p = Idle" "places m t = Entering x" by blast
      have nobody: "places m u \<noteq> Inside y n" for u y n
      proof
        assume u: "places m u = Inside y n"
        then have "u \<noteq> t" using x by auto
        moreover have "wheld (lock_sys ?m) t = 1" using step x by simp
        moreover have "wheld (lock_sys ?m) u = 1" using u ok' [of u] \<open>u \<noteq> t\<close> by simp
        moreover have "u \<in> T" using inside_holds(1) [OF inv u] .
        ultimately show False using mutual_exclusion [OF r' t, of u] by simp
      qed
      then show ?thesis using x by (intro data_ok_entered [OF data]) auto
    qed
    have "monitor_inv T tid 1 body d0 ?m"
      using r' running ok' d' out t unfolding monitor_inv_def by (auto simp: moved_parts)
    then show ?thesis unfolding m' using sane by (simp add: stop_ok_def)
  qed
qed

lemma inv_statement:
  assumes inv: "monitor_inv T tid 1 body d0 m" and pl: "places m t = Inside x n"
    and n: "n < length (body x)" and sane: "stopped m = None"
  shows "monitor_inv T tid 1 body d0 (body_moves body t x n m) \<and> stop_ok body d0 (body_moves body t x n m)"
proof -
  obtain d where d: "run_methods body (finished_calls m) d0 = Inr d"
      "run_statements (take n (body x)) d = Inr (guarded_data m)"
    using inv pl unfolding monitor_inv_def data_ok_def by blast
  have snoc: "run_statements (take (Suc n) (body x)) d = (body x ! n) (guarded_data m)"
    using n d(2) by (simp add: take_Suc_conv_app_nth run_statements_snoc)
  show ?thesis
  proof (cases "(body x ! n) (guarded_data m)")
    case (Inl e)
    have "run_statements (body x) d = Inl e"
      using run_statements_stop [of "take (Suc n) (body x)" d e "drop (Suc n) (body x)"] snoc Inl by simp
    then have "run_methods body (finished_calls m @ [x]) d0 = Inl e" using d(1) by (simp add: run_methods_snoc)
    then show ?thesis using inv n Inl by (auto simp: body_moves_def monitor_inv_def data_ok_def stop_ok_def)
  next
    case (Inr d')
    let ?m = "m\<lparr>places := (places m)(t := Inside x (n + 1)), guarded_data := d'\<rparr>"
    have m': "body_moves body t x n m = ?m" using n Inr by (simp add: body_moves_def)
    have only: "u = t" if "places m u = Inside y k" for u y k by (rule inside_unique [OF inv that pl])
    have "k \<le> length (body y) \<and> run_statements (take k (body y)) d = Inr d'"
      if "places ?m u = Inside y k" for u y k
      using that only [of u y k] snoc Inr n by (cases "u = t") auto
    then have "data_ok body d0 ?m" unfolding data_ok_def using d(1) by (auto split: if_splits)
    moreover have "place_ok (Inside x (n + 1)) (pcs (lock_sys m) t) (wheld (lock_sys m) t)"
      using inside_holds [OF inv pl] by simp
    ultimately have "monitor_inv T tid 1 body d0 ?m"
      using inv inside_holds(1) [OF inv pl] by (auto simp: monitor_inv_def)
    then show ?thesis unfolding m' using sane by (simp add: stop_ok_def)
  qed
qed

lemma inv_call:
  assumes inv: "monitor_inv T tid 1 body d0 m" and t: "t \<in> T" and sane: "stopped m = None"
    and idle: "pcs (lock_sys m) t = Idle"
    and may: "may_call 1 (wheld (lock_sys m) t) (rheld (lock_sys m) t) c"
    and place: "place_ok p (entry c) (wheld (lock_sys m) t - (if c = WriteUnlock then 1 else 0))"
    and m': "lock_sys m' = enter (lock_sys m) t c" "places m' = (places m)(t := p)" "stopped m' = None"
    and data: "data_ok body d0 m'"
  shows "monitor_inv T tid 1 body d0 m' \<and> stop_ok body d0 m'"
proof -
  have "sys_step T tid 1 (lock_sys m) (enter (lock_sys m) t c)"
    using inv t idle may by (intro sys_step.call) (auto simp: monitor_inv_def)
  then have "lock_reachable T tid 1 (lock_sys m')"
    using inv m'(1) lock_reachable.step unfolding monitor_inv_def by metis
  moreover have "place_ok (places m' u) (pcs (lock_sys m') u) (wheld (lock_sys m') u) \<and> rheld (lock_sys m') u = 0" for u
    using inv place m' by (cases "u = t") (auto simp: monitor_inv_def enter_def)
  moreover have "crashed (lock_sys m') = None" using inv m'(1) by (simp add: monitor_inv_def enter_def)
  ultimately show ?thesis
    using inv m' t data by (auto simp: monitor_inv_def stop_ok_def)
qed

lemma inv_leave:
  assumes inv: "monitor_inv T tid 1 body d0 m" and pl: "places m t = Inside x n"
    and n: "\<not> n < length (body x)" and sane: "stopped m = None"
  shows "monitor_inv T tid 1 body d0 (body_moves body t x n m) \<and> stop_ok body d0 (body_moves body t x n m)"
proof -
  let ?m = "body_moves body t x n m"
  have m': "?m = m\<lparr>lock_sys := enter (lock_sys m) t WriteUnlock, places := (places m)(t := Leaving),
      finished_calls := finished_calls m @ [x]\<rparr>"
    using n by (simp add: body_moves_def)
  obtain d where d: "run_methods body (finished_calls m) d0 = Inr d"
      "run_statements (take n (body x)) d = Inr (guarded_data m)" "n \<le> length (body x)"
    using inv pl unfolding monitor_inv_def data_ok_def by blast
  have "run_methods body (finished_calls ?m) d0 = Inr (guarded_data ?m)"
    unfolding m' using d n by (simp add: run_methods_snoc)
  moreover have "places ?m u \<noteq> Inside y k" for u y k
    using inside_unique [OF inv pl] by (auto simp: m')
  ultimately have "data_ok body d0 ?m" unfolding data_ok_def by blast
  then show ?thesis
    using inside_holds [OF inv pl] by (intro inv_call [OF inv _ sane, of t WriteUnlock Leaving]) (auto simp: m' sane)
qed

lemma inv_do:
  assumes inv: "monitor_inv T tid 1 body d0 m" and run: "monitor_do T tid body ev m = Some m'"
  shows "monitor_inv T tid 1 body d0 m' \<and> stop_ok body d0 m'"
proof (cases ev)
  case (Call_method t x)
  then have c: "stopped m = None" "t \<in> T" "places m t = Outside"
      and m': "m' = m\<lparr>lock_sys := enter (lock_sys m) t WriteLock, places := (places m)(t := Entering x)\<rparr>"
    using run by (auto split: if_splits)
  have pl: "place_ok (places m t) (pcs (lock_sys m) t) (wheld (lock_sys m) t) \<and> rheld (lock_sys m) t = 0"
    and data: "data_ok body d0 m" using inv by (auto simp: monitor_inv_def)
  have "data_ok body d0 m'" using c by (intro data_ok_frame [OF data]) (auto simp: m')
  then show ?thesis
    using pl c by (intro inv_call [OF inv c(2,1), of WriteLock "Entering x"]) (auto simp: m')
next
  case (Proceed t)
  then have c: "stopped m = None" "t \<in> T" using run by (auto split: if_splits)
  show ?thesis
  proof (cases "places m t")
    case (Inside x n)
    then have "m' = body_moves body t x n m" using run Proceed c by simp
    then show ?thesis using inv_statement [OF inv Inside] inv_leave [OF inv Inside] c by blast
  qed (use run Proceed c inv_lock_moves [OF inv c(2) _ _ c(1)] in auto)
next
  case (Clock k)
  then have m': "stopped m = None" "m' = m\<lparr>lock_sys := lock_sys m\<lparr>clock := k\<rparr>\<rparr>"
    using run by (auto split: if_splits)
  have "sys_step T tid 1 (lock_sys m) (lock_sys m\<lparr>clock := k\<rparr>)"
    using inv by (intro sys_step.tick) (simp add: monitor_inv_def)
  then have "lock_reachable T tid 1 (lock_sys m\<lparr>clock := k\<rparr>)"
    using inv lock_reachable.step unfolding monitor_inv_def by blast
  then show ?thesis using inv by (simp add: m' monitor_inv_def data_ok_def stop_ok_def)
qed

lemma inv_start: "monitor_inv T tid 1 body d (monitor_start d)"
  by (simp add: monitor_inv_def monitor_start_def lock_reachable.start data_ok_def)
    (simp add: lock_init_def)

lemma inv_run:
  "monitor_run T tid body es m = Some m' \<Longrightarrow> monitor_inv T tid 1 body d0 m \<Longrightarrow> stop_ok body d0 m \<Longrightarrow>
     monitor_inv T tid 1 body d0 m' \<and> stop_ok body d0 m'"
proof (induction es arbitrary: m)
  case (Cons e es)
  then obtain m1 where m1: "monitor_do T tid body e m = Some m1" "monitor_run T tid body es m1 = Some m'"
    by (auto simp: Option.bind_eq_Some_conv)
  then show ?case using inv_do [OF Cons.prems(2) m1(1)] Cons.IH by blast
qed simp

text \<open>
  Concurrent calls take effect one after the other: at most one thread is inside, the data are
  those after the finished calls and the statements that thread has done, and the only way to stop,
  apart from the lock's timeout, is one that the calls have one after the other.
\<close>

lemma methods_are_atomic:
  assumes "monitor_run T tid body es (monitor_start d0) = Some m"
  shows "\<exists>d. run_methods body (finished_calls m) d0 = Inr d \<and>
     ((\<forall>t x n. places m t \<noteq> Inside x n) \<longrightarrow> guarded_data m = d) \<and>
     (\<forall>t x n. places m t = Inside x n \<longrightarrow>
        run_statements (take n (body x)) d = Inr (guarded_data m) \<and>
        (\<forall>u y k. places m u = Inside y k \<longrightarrow> u = t)) \<and>
     (\<forall>e. stopped m = Some e \<longrightarrow> e = CRASH ''Lock_Timeout'' \<or>
        (\<exists>x. run_methods body (finished_calls m @ [x]) d0 = Inl e))"
proof -
  have "stop_ok body d0 (monitor_start d0)" by (simp add: stop_ok_def monitor_start_def)
  then have inv: "monitor_inv T tid 1 body d0 m" and stop: "stop_ok body d0 m"
    using inv_run [OF assms inv_start] by auto
  have "data_ok body d0 m" using inv by (simp add: monitor_inv_def)
  then obtain d where "run_methods body (finished_calls m) d0 = Inr d"
      "(\<forall>t x n. places m t \<noteq> Inside x n) \<longrightarrow> guarded_data m = d"
      "\<forall>t x n. places m t = Inside x n \<longrightarrow> n \<le> length (body x) \<and>
        run_statements (take n (body x)) d = Inr (guarded_data m)"
    unfolding data_ok_def by blast
  moreover have "\<forall>t x n u y k. places m t = Inside x n \<longrightarrow> places m u = Inside y k \<longrightarrow> u = t"
    using inside_unique [OF inv] by blast
  ultimately show ?thesis using stop unfolding stop_ok_def by blast
qed

end

end
