(* ===== verification/Service_Count.thy ===== *)
theory Service_Count
  imports Session_Service
begin

text \<open>
  The session set of a service under any sequence of \<^verbatim>\<open>AddSession\<close> and
  \<^verbatim>\<open>ReleaseSession\<close> calls; both run under the service's write lock, so the calls of several
  threads are such a sequence.
\<close>

datatype service_op = Add_session "nat option" | Release_session "nat option"

fun service_do :: "os \<Rightarrow> service_op \<Rightarrow> service \<times> net \<Rightarrow> (service \<times> net) outcome" where
  "service_do os (Add_session ref) (sv, n) = AddSession ref sv n"
| "service_do os (Release_session ref) (sv, n) = ReleaseSession os ref sv n"

fun service_exec :: "os \<Rightarrow> service_op list \<Rightarrow> service \<times> net \<Rightarrow> (service \<times> net) outcome" where
  "service_exec os [] st = Inr st"
| "service_exec os (x # xs) st = and_then (service_do os x st) (service_exec os xs)"

text \<open>The number of calls of \<^verbatim>\<open>AddSession\<close> for a session that is in the set already.\<close>

fun set_after :: "service_op \<Rightarrow> nat option set \<Rightarrow> nat option set" where
  "set_after (Add_session ref) S = insert ref S"
| "set_after (Release_session ref) S = S - {ref}"

fun repeated :: "service_op list \<Rightarrow> nat option set \<Rightarrow> nat" where
  "repeated [] S = 0"
| "repeated (Add_session ref # xs) S = (if ref \<in> S then 1 else 0) + repeated xs (insert ref S)"
| "repeated (Release_session ref # xs) S = repeated xs (S - {ref})"

lemma add_session_ok:
  assumes "AddSession ref sv n = Inr (sv', n')"
  shows "svc_sessions sv' = insert ref (svc_sessions sv) \<and> sessionCount sv' = sessionCount sv + 1 \<and>
    maxSessionCount sv' = maxSessionCount sv"
  using assms by (auto simp: AddSession_def Let_def outcome_simps split: if_splits)

lemma release_session_ok:
  assumes "ReleaseSession os ref sv n = Inr (sv', n')"
  shows "ref \<in> svc_sessions sv \<and> svc_sessions sv' = svc_sessions sv - {ref} \<and>
    sessionCount sv' = sessionCount sv - 1 \<and> maxSessionCount sv' = maxSessionCount sv"
  using assms by (auto simp: ReleaseSession_def outcome_simps)

lemma service_exec_count:
  assumes "service_exec os xs (sv, n) = Inr (sv', n')" "finite (svc_sessions sv)"
  shows "finite (svc_sessions sv') \<and>
    sessionCount sv' - int (card (svc_sessions sv')) =
      sessionCount sv - int (card (svc_sessions sv)) + int (repeated xs (svc_sessions sv)) \<and>
    svc_sessions sv' = fold set_after xs (svc_sessions sv) \<and> maxSessionCount sv' = maxSessionCount sv"
  using assms
proof (induction xs arbitrary: sv n)
  case (Cons x xs)
  obtain sv1 n1 where step: "service_do os x (sv, n) = Inr (sv1, n1)"
      and rest: "service_exec os xs (sv1, n1) = Inr (sv', n')"
    using Cons.prems(1) by (auto simp: outcome_simps)
  show ?case
  proof (cases x)
    case (Add_session ref)
    then have "svc_sessions sv1 = insert ref (svc_sessions sv)" "sessionCount sv1 = sessionCount sv + 1"
        "maxSessionCount sv1 = maxSessionCount sv"
      using add_session_ok [of ref sv n sv1 n1] step by simp_all
    then show ?thesis using Cons.IH [OF rest] Cons.prems(2) Add_session by (auto simp: insert_absorb)
  next
    case (Release_session ref)
    then have r: "ref \<in> svc_sessions sv" "svc_sessions sv1 = svc_sessions sv - {ref}"
        "sessionCount sv1 = sessionCount sv - 1" "maxSessionCount sv1 = maxSessionCount sv"
      using release_session_ok [of os ref sv n sv1 n1] step by simp_all
    have "card (svc_sessions sv - {ref}) + 1 = card (svc_sessions sv)"
      using r(1) Cons.prems(2) by (metis Suc_eq_plus1 card.remove finite_Diff Diff_insert_absorb)
    then show ?thesis using Cons.IH [OF rest] Cons.prems(2) Release_session r by auto
  qed
qed simp

lemma release_refused:
  "ReleaseSession os ref sv n = Inl (CRASH ''ASSERT_CRASH'') \<longleftrightarrow> ref \<notin> svc_sessions sv"
proof -
  have "session_drop os ref n \<noteq> Inl (CRASH c)" for c
    by (auto simp: session_drop_def Let_def split: option.splits if_splits)
  then show ?thesis
    by (cases "session_drop os ref n") (auto simp: ReleaseSession_def ASSERT_CRASH_def)
qed

text \<open>
  \<^verbatim>\<open>GetCurrentSessionCount\<close> is the number of sessions in the set, plus the number of times
  that a session was added which was in the set already. Releasing a session that is not in the set
  is an ASSERT_CRASH. The maximum is never looked at.
\<close>

theorem session_count_exact:
  assumes "service_exec os xs (Service_ctor ty addr core fac maxCount, n) = Inr (sv, n')"
  shows "GetCurrentSessionCount sv = int (card (svc_sessions sv)) + int (repeated xs {}) \<and>
    svc_sessions sv = fold set_after xs {} \<and> GetMaxSessionCount sv = maxCount \<and>
    (ReleaseSession os ref sv n' = Inl (CRASH ''ASSERT_CRASH'') \<longleftrightarrow> ref \<notin> svc_sessions sv)"
  using service_exec_count [OF assms] release_refused [of os ref sv n']
  by (auto simp: Service_ctor_def GetCurrentSessionCount_def GetMaxSessionCount_def)

text \<open>Two sessions, one of them added twice, on a service for one.\<close>

definition silent_os :: os where
  "silent_os h c = \<lparr>result = 0, lastError = 0, overlapped = None, numOfBytes = 0, extension = 0,
     peer = NetAddress_default\<rparr>"

definition two_sessions :: net where
  "two_sessions = \<lparr>hist = [], ConnectEx_fn = 0, DisconnectEx_fn = 0, AcceptEx_fn = 0,
     sessions = (\<lambda>_. Some (\<lparr>sess_socket = 1, sess_netAddress = NetAddress_default, conneted = False\<rparr>, 1)),
     sessions_made = 2\<rparr>"

theorem session_count_exact_witness:
  "\<exists>sv n'. service_exec silent_os [Add_session (Some 0), Add_session (Some 1), Add_session (Some 0)]
      (Service_ctor Server NetAddress_default 7 None 1, two_sessions) = Inr (sv, n') \<and>
    GetCurrentSessionCount sv = 3 \<and> card (svc_sessions sv) = 2 \<and> GetMaxSessionCount sv = 1"
proof -
  obtain sv n' where run: "service_exec silent_os [Add_session (Some 0), Add_session (Some 1), Add_session (Some 0)]
      (Service_ctor Server NetAddress_default 7 None 1, two_sessions) = Inr (sv, n')"
    by (simp add: AddSession_def Service_ctor_def two_sessions_def session_copy_def Let_def)
  have set: "fold set_after [Add_session (Some 0), Add_session (Some 1), Add_session (Some 0)] {} = {Some 0, Some (1 :: nat)}"
    by auto
  then show ?thesis using session_count_exact [OF run, of None] run by auto
qed

end
