(* ===== verification/Guarded_Service.thy ===== *)
theory Guarded_Service
  imports Monitor Service_Count
begin

text \<open>
  \<^verbatim>\<open>AddSession\<close> and \<^verbatim>\<open>ReleaseSession\<close> called by any threads at the same time: the two methods
  statement by statement, under the lock of the service as \<open>RW_Lock\<close> has it, with the thread ids of
  \<open>Thread_Manager\<close>. The atomic methods of \<open>Session_Service\<close> are what this amounts to.
\<close>

section \<open>The statements\<close>

definition count_up :: "service \<times> net \<Rightarrow> (service \<times> net) outcome" where
  "count_up = (\<lambda>(sv, n).
     if sessionCount sv = 2 ^ 31 - 1 then Inl (UB ''int32 overflow'')
     else Inr (sv\<lparr>sessionCount := sessionCount sv + 1\<rparr>, n))"

definition insert_session :: "nat option \<Rightarrow> service \<times> net \<Rightarrow> (service \<times> net) outcome" where
  "insert_session ref = (\<lambda>(sv, n).
     if ref \<in> svc_sessions sv then Inr (sv, n)
     else and_then (session_copy ref n) (\<lambda>n. Inr (sv\<lparr>svc_sessions := insert ref (svc_sessions sv)\<rparr>, n)))"

definition erase_session :: "os \<Rightarrow> nat option \<Rightarrow> service \<times> net \<Rightarrow> (service \<times> net) outcome" where
  "erase_session os ref = (\<lambda>(sv, n).
     and_then (ASSERT_CRASH (ref \<in> svc_sessions sv)) (\<lambda>_.
     and_then (session_drop os ref n) (\<lambda>n. Inr (sv\<lparr>svc_sessions := svc_sessions sv - {ref}\<rparr>, n))))"

definition count_down :: "service \<times> net \<Rightarrow> (service \<times> net) outcome" where
  "count_down = (\<lambda>(sv, n). Inr (sv\<lparr>sessionCount := sessionCount sv - 1\<rparr>, n))"

fun service_body :: "os \<Rightarrow> (service_op, service \<times> net) bodies" where
  "service_body os (Add_session ref) = [count_up, insert_session ref]"
| "service_body os (Release_session ref) = [erase_session os ref, count_down]"

lemma statements_are_method: "run_statements (service_body os x) = service_do os x"
proof (rule ext)
  fix st :: "service \<times> net"
  obtain sv n where st: "st = (sv, n)" by (cases st)
  show "run_statements (service_body os x) st = service_do os x st"
  proof (cases x)
    case (Add_session ref)
    then show ?thesis
      by (cases "session_copy ref n") (auto simp: st AddSession_def count_up_def insert_session_def Let_def)
  next
    case (Release_session ref)
    then show ?thesis
      by (cases "ref \<in> svc_sessions sv"; cases "session_drop os ref n")
        (auto simp: st ReleaseSession_def erase_session_def count_down_def)
  qed
qed

lemma methods_are_exec: "run_methods (service_body os) xs st = service_exec os xs st"
  by (induction xs arbitrary: st) (auto simp: statements_are_method and_then_def split: sum.splits)

section \<open>Any number of threads\<close>

lemma managed_monitored:
  assumes "tm_reachable m" "length (inited m) < 65536"
  shows "monitored (set (inited m)) (LThreadId m)"
  using managed_clients [OF assms(1), of 1] assms(2) by (simp add: monitored_def)

interpretation game_server_service: monitored "set (inited game_server_threads)"
  "LThreadId game_server_threads" "service_body os" for os
  by (rule managed_monitored [OF game_server_threads_reachable]) (simp add: game_server_inited)

text \<open>
  C12. Whatever threads of the thread manager add and release sessions, the service is what the calls
  give one after the other: with nobody inside, the set and the count are those of the finished
  calls in their order, the count being the size of the set plus the repeated additions. At most one
  thread is inside at a time. A stop is the lock's timeout or one that the calls have in sequence.
\<close>

theorem concurrent_sessions_linear:
  assumes "tm_reachable m" and "length (inited m) < 65536"
    and "start = (Service_ctor ty addr core fac maxCount, n)"
    and "monitor_run (set (inited m)) (LThreadId m) (service_body os) es (monitor_start start) = Some g"
  shows "\<exists>sv n'. service_exec os (finished_calls g) start = Inr (sv, n') \<and>
     GetCurrentSessionCount sv = int (card (svc_sessions sv)) + int (repeated (finished_calls g) {}) \<and>
     ((\<forall>t x k. places g t \<noteq> Inside x k) \<longrightarrow> guarded_data g = (sv, n')) \<and>
     (\<forall>t x k u y j. places g t = Inside x k \<longrightarrow> places g u = Inside y j \<longrightarrow> u = t) \<and>
     (\<forall>e. stopped g = Some e \<longrightarrow> e = CRASH ''Lock_Timeout'' \<or>
        (\<exists>x. service_exec os (finished_calls g @ [x]) start = Inl e))"
proof -
  note atomic = monitored.methods_are_atomic [OF managed_monitored [OF assms(1,2)] assms(4),
      unfolded methods_are_exec]
  then obtain d where d: "service_exec os (finished_calls g) start = Inr d"
    and outside: "(\<forall>t x n. places g t \<noteq> Inside x n) \<longrightarrow> guarded_data g = d"
    and inside: "\<forall>t x n. places g t = Inside x n \<longrightarrow>
        run_statements (take n (service_body os x)) d = Inr (guarded_data g) \<and>
        (\<forall>u y k. places g u = Inside y k \<longrightarrow> u = t)"
    and stops: "\<forall>e. stopped g = Some e \<longrightarrow> e = CRASH ''Lock_Timeout'' \<or>
        (\<exists>x. service_exec os (finished_calls g @ [x]) start = Inl e)"
    by (elim exE conjE) (rule that)
  obtain sv n' where sv: "d = (sv, n')" by (cases d)
  have count: "GetCurrentSessionCount sv = int (card (svc_sessions sv)) + int (repeated (finished_calls g) {})"
    using service_exec_count [OF d [unfolded sv assms(3)]]
    by (auto simp: Service_ctor_def GetCurrentSessionCount_def)
  have alone: "\<forall>t x k u y j. places g t = Inside x k \<longrightarrow> places g u = Inside y j \<longrightarrow> u = t"
    using inside by meson
  show ?thesis
    by (intro exI [of _ sv] exI [of _ n'] conjI d [unfolded sv] count outside [unfolded sv] alone stops)
qed

text \<open>
  The main thread adds a session while a worker, which wants to add another, spins; then the worker
  gets the lock.
\<close>

definition two_adders :: "(nat, service_op) monitor_event list" where
  "two_adders = [Call_method 0 (Add_session (Some 0)), Call_method 1 (Add_session (Some 1)),
     Proceed 0, Proceed 1, Proceed 0, Proceed 0, Proceed 0, Proceed 0, Proceed 1, Proceed 1, Proceed 0,
     Proceed 0, Proceed 0, Proceed 0, Proceed 0, Proceed 1, Proceed 1, Proceed 1, Proceed 1, Proceed 1]"

lemma two_adders_run:
  "\<exists>g. monitor_run (set (inited game_server_threads)) (LThreadId game_server_threads)
      (service_body silent_os) two_adders
      (monitor_start (Service_ctor Server NetAddress_default 7 None 1, two_sessions)) = Some g \<and>
    finished_calls g = [Add_session (Some 0), Add_session (Some 1)] \<and> places g = (\<lambda>_. Outside)(1 := Leaving) \<and>
    stopped g = None"
  by (simp add: two_adders_def game_server_inited game_server_ids lock_eval monitor_start_def
      lock_moves_def body_moves_def Let_def count_up_def insert_session_def Service_ctor_def
      session_copy_def two_sessions_def fun_eq_iff)

theorem concurrent_sessions_linear_witness:
  "\<exists>g sv n'. monitor_run (set (inited game_server_threads)) (LThreadId game_server_threads)
      (service_body silent_os) two_adders
      (monitor_start (Service_ctor Server NetAddress_default 7 None 1, two_sessions)) = Some g \<and>
    finished_calls g = [Add_session (Some 0), Add_session (Some 1)] \<and> guarded_data g = (sv, n') \<and>
    GetCurrentSessionCount sv = int (card (svc_sessions sv))"
proof -
  obtain g where g: "monitor_run (set (inited game_server_threads)) (LThreadId game_server_threads)
      (service_body silent_os) two_adders
      (monitor_start (Service_ctor Server NetAddress_default 7 None 1, two_sessions)) = Some g"
    and calls: "finished_calls g = [Add_session (Some 0), Add_session (Some 1)]"
    and pl: "places g = (\<lambda>_. Outside)(1 := Leaving)"
    using two_adders_run by (elim exE conjE) (rule that)
  have few: "length (inited game_server_threads) < 65536" by (simp add: game_server_inited)
  obtain sv n' where sv: "GetCurrentSessionCount sv = int (card (svc_sessions sv)) + int (repeated (finished_calls g) {})"
    and data: "(\<forall>t x k. places g t \<noteq> Inside x k) \<longrightarrow> guarded_data g = (sv, n')"
    using concurrent_sessions_linear [OF game_server_threads_reachable few refl g] by (elim exE conjE) (rule that)
  have "\<forall>t x k. places g t \<noteq> Inside x k" by (simp add: pl)
  moreover have "repeated (finished_calls g) {} = 0" by (simp add: calls)
  ultimately show ?thesis using g calls sv data by (intro exI [of _ g] exI [of _ sv] exI [of _ n']) simp
qed

end
