(* ===== verification/Debug_Lock.thy ===== *)
theory Debug_Lock
  imports Lock_Threads Profiler_Spec
begin

text \<open>
  The lock as a debug build has it: under \<^verbatim>\<open>_DEBUG\<close> each method of \<^verbatim>\<open>Lock\<close> first calls the
  profiler with the name its guard was given. This theory puts the two models together: calls on
  any number of locks, in a release build and in a debug build, each call running alone. The
  guards of \<^verbatim>\<open>CoreMacro.h\<close> take \<^verbatim>\<open>typeid(this).name()\<close> for the name, so that all locks of all
  objects of a class share one.
\<close>

section \<open>Calls in a release and in a debug build\<close>

datatype debug_stop = Profiler_stop prof_stop | Lock_stop failure

record 'l debug =
  GDeadLockProfiler :: profiler
  locks :: "'l \<Rightarrow> lock"

definition debug_start :: "'l debug" where
  "debug_start = \<lparr>GDeadLockProfiler = new_profiler, locks = (\<lambda>_. new_lock)\<rparr>"

fun profiler_call :: "call \<Rightarrow> cstr \<Rightarrow> prof_op" where
  "profiler_call WriteLock name = Push name"
| "profiler_call WriteUnlock name = Pop name"
| "profiler_call ReadLock name = Push name"
| "profiler_call ReadUnlock name = Pop name"

fun release_call :: "uint32 \<times> call \<times> 'l \<Rightarrow> ('l \<Rightarrow> lock) \<Rightarrow> ('l \<Rightarrow> lock) outcome" where
  "release_call (t, c, l) ls =
     and_then (call_alone c t (ls l)) (\<lambda>k. Inr (ls(l := k)))"

fun debug_call :: "('l \<Rightarrow> cstr) \<Rightarrow> uint32 \<times> call \<times> 'l \<Rightarrow> 'l debug \<Rightarrow> debug_stop + 'l debug" where
  "debug_call name (t, c, l) d =
     (case prof_do (profiler_call c (name l)) (GDeadLockProfiler d) of
        Inl e \<Rightarrow> Inl (Profiler_stop e)
      | Inr p \<Rightarrow> (case release_call (t, c, l) (locks d) of
            Inl e \<Rightarrow> Inl (Lock_stop e)
          | Inr ls \<Rightarrow> Inr \<lparr>GDeadLockProfiler = p, locks = ls\<rparr>))"

fun release_run :: "(uint32 \<times> call \<times> 'l) list \<Rightarrow> ('l \<Rightarrow> lock) \<Rightarrow> ('l \<Rightarrow> lock) outcome" where
  "release_run [] ls = Inr ls"
| "release_run (x # xs) ls = and_then (release_call x ls) (release_run xs)"

fun debug_run ::
  "('l \<Rightarrow> cstr) \<Rightarrow> (uint32 \<times> call \<times> 'l) list \<Rightarrow> 'l debug \<Rightarrow> debug_stop + 'l debug" where
  "debug_run name [] d = Inr d"
| "debug_run name (x # xs) d =
     (case debug_call name x d of Inl e \<Rightarrow> Inl e | Inr d' \<Rightarrow> debug_run name xs d')"

section \<open>The two halves of a debug build\<close>

fun profiler_calls :: "('l \<Rightarrow> cstr) \<Rightarrow> (uint32 \<times> call \<times> 'l) list \<Rightarrow> (nat \<times> prof_op) list" where
  "profiler_calls name [] = []"
| "profiler_calls name ((t, c, l) # xs) = (unat t, profiler_call c (name l)) # profiler_calls name xs"

lemma profiler_calls_append:
  "profiler_calls name (xs @ ys) = profiler_calls name xs @ profiler_calls name ys"
  by (induction name xs rule: profiler_calls.induct) auto

text \<open>A debug build completes exactly when the profiler and the release build both do.\<close>

lemma debug_run_iff:
  "debug_run name xs d = Inr d' \<longleftrightarrow>
     prof_run (profiler_calls name xs) (GDeadLockProfiler d) = Inr (GDeadLockProfiler d') \<and>
     release_run xs (locks d) = Inr (locks d')"
proof (induction xs arbitrary: d)
  case Nil
  then show ?case by (cases d; cases d') auto
next
  case (Cons x xs)
  obtain t c l where x: "x = (t, c, l)" by (cases x)
  show ?case
    by (cases "prof_do (profiler_call c (name l)) (GDeadLockProfiler d)";
        cases "release_call x (locks d)") (auto simp: x Cons.IH simp del: release_call.simps)
qed

text \<open>Where it stops, one of the two stops.\<close>

lemma debug_run_stops:
  "debug_run name xs d = Inl e \<Longrightarrow>
     (\<exists>p. e = Profiler_stop p \<and> prof_run (profiler_calls name xs) (GDeadLockProfiler d) = Inl p) \<or>
     (\<exists>f. e = Lock_stop f \<and> release_run xs (locks d) = Inl f)"
proof (induction xs arbitrary: d)
  case (Cons x xs)
  obtain t c l where x: "x = (t, c, l)" by (cases x)
  show ?case
    using Cons.prems Cons.IH
    by (cases "prof_do (profiler_call c (name l)) (GDeadLockProfiler d)";
        cases "release_call x (locks d)") (fastforce simp: x simp del: release_call.simps)+
qed simp

text \<open>Calls on different locks do not meet: each lock sees its own calls.\<close>

fun lock_run :: "(uint32 \<times> call) list \<Rightarrow> lock \<Rightarrow> lock outcome" where
  "lock_run [] k = Inr k"
| "lock_run ((t, c) # xs) k = and_then (call_alone c t k) (lock_run xs)"

fun calls_on :: "'l \<Rightarrow> (uint32 \<times> call \<times> 'l) list \<Rightarrow> (uint32 \<times> call) list" where
  "calls_on l [] = []"
| "calls_on l ((t, c, m) # xs) = (if m = l then (t, c) # calls_on l xs else calls_on l xs)"

lemma lock_run_append: "lock_run (xs @ ys) = (\<lambda>k. and_then (lock_run xs k) (lock_run ys))"
proof (induction xs)
  case (Cons x xs)
  then show ?case by (cases x) (auto intro!: ext simp: and_then_assoc)
qed simp

lemma lock_run_single: "lock_run [(t, c)] = call_alone c t"
proof -
  have "lock_run [] = Inr" by (rule ext) simp
  then show ?thesis by (intro ext) simp
qed

lemma calls_on_append: "calls_on l (xs @ ys) = calls_on l xs @ calls_on l ys"
  by (induction l xs rule: calls_on.induct) auto

lemma release_run_iff:
  "release_run xs ls = Inr ls' \<longleftrightarrow> (\<forall>l. lock_run (calls_on l xs) (ls l) = Inr (ls' l))"
proof (induction xs arbitrary: ls)
  case Nil
  then show ?case by (auto simp: fun_eq_iff)
next
  case (Cons x xs)
  obtain t c l where x: "x = (t, c, l)" by (cases x)
  show ?case
  proof (cases "call_alone c t (ls l)")
    case (Inl e)
    then have "lock_run (calls_on l (x # xs)) (ls l) = Inl e" by (simp add: x)
    then have "\<not> (\<forall>m. lock_run (calls_on m (x # xs)) (ls m) = Inr (ls' m))" by (metis Inl_Inr_False)
    then show ?thesis using Inl by (simp add: x)
  next
    case (Inr k)
    then have "lock_run (calls_on m (x # xs)) (ls m) = lock_run (calls_on m xs) ((ls(l := k)) m)" for m
      by (simp add: x)
    moreover have "release_run (x # xs) ls = release_run xs (ls(l := k))" using Inr by (simp add: x)
    ultimately show ?thesis by (simp only: Cons.IH)
  qed
qed

section \<open>Nested guards\<close>

text \<open>
  Blocks guarded by \<^verbatim>\<open>READ_LOCK\<close> and \<^verbatim>\<open>WRITE_LOCK\<close> of any locks, each with the
  blocks inside it; the calls they make, the blocks that one lock sees, and the scopes that the
  profiler sees.
\<close>

datatype 'l guarded = Read_guarded 'l "'l guarded list" | Write_guarded 'l "'l guarded list"

fun calls_of :: "uint32 \<Rightarrow> 'l guarded \<Rightarrow> (uint32 \<times> call \<times> 'l) list"
  and calls_of_all :: "uint32 \<Rightarrow> 'l guarded list \<Rightarrow> (uint32 \<times> call \<times> 'l) list" where
  "calls_of t (Read_guarded l gs) = (t, ReadLock, l) # calls_of_all t gs @ [(t, ReadUnlock, l)]"
| "calls_of t (Write_guarded l gs) = (t, WriteLock, l) # calls_of_all t gs @ [(t, WriteUnlock, l)]"
| "calls_of_all t [] = []"
| "calls_of_all t (g # gs) = calls_of t g @ calls_of_all t gs"

fun on_lock :: "'l \<Rightarrow> 'l guarded \<Rightarrow> block list"
  and all_on_lock :: "'l \<Rightarrow> 'l guarded list \<Rightarrow> block list" where
  "on_lock l (Read_guarded m gs) = (if m = l then [ReadGuard (all_on_lock l gs)] else all_on_lock l gs)"
| "on_lock l (Write_guarded m gs) = (if m = l then [WriteGuard (all_on_lock l gs)] else all_on_lock l gs)"
| "all_on_lock l [] = []"
| "all_on_lock l (g # gs) = on_lock l g @ all_on_lock l gs"

fun named :: "('l \<Rightarrow> cstr) \<Rightarrow> 'l guarded \<Rightarrow> scope"
  and all_named :: "('l \<Rightarrow> cstr) \<Rightarrow> 'l guarded list \<Rightarrow> scope list" where
  "named name (Read_guarded l gs) = Scope (name l) (all_named name gs)"
| "named name (Write_guarded l gs) = Scope (name l) (all_named name gs)"
| "all_named name [] = []"
| "all_named name (g # gs) = named name g # all_named name gs"

fun guard_depth :: "'l guarded \<Rightarrow> nat" and guards_depth :: "'l guarded list \<Rightarrow> nat" where
  "guard_depth (Read_guarded l gs) = Suc (guards_depth gs)"
| "guard_depth (Write_guarded l gs) = Suc (guards_depth gs)"
| "guards_depth [] = 0"
| "guards_depth (g # gs) = max (guard_depth g) (guards_depth gs)"

lemma profiler_sees_scopes:
  "profiler_calls name (calls_of t g) = scope_ops (unat t) (named name g)"
  "profiler_calls name (calls_of_all t gs) = scopes_ops (unat t) (all_named name gs)"
  by (induction t g and t gs rule: calls_of_calls_of_all.induct) (simp_all add: profiler_calls_append)

lemma height_blocks_append: "height_blocks (xs @ ys) = max (height_blocks xs) (height_blocks ys)"
  by (induction xs) auto

lemma height_on_lock:
  "height_blocks (on_lock l g) \<le> guard_depth g"
  "height_blocks (all_on_lock l gs) \<le> guards_depth gs"
  by (induction l g and l gs rule: on_lock_all_on_lock.induct) (auto simp: height_blocks_append)

lemma run_blocks_append: "run_blocks t (xs @ ys) = (\<lambda>k. and_then (run_blocks t xs k) (run_blocks t ys))"
  by (induction xs) (auto intro!: ext simp: and_then_assoc)

lemma run_blocks_single: "run_blocks t [b] = run_block t b"
proof -
  have "run_blocks t [] = Inr" by (rule ext) simp
  then show ?thesis by (intro ext) simp
qed

text \<open>A lock sees its guards nested as they are, whatever other guards stand between them.\<close>

lemma lock_sees_blocks:
  "lock_run (calls_on l (calls_of t g)) = run_blocks t (on_lock l g)"
  "lock_run (calls_on l (calls_of_all t gs)) = run_blocks t (all_on_lock l gs)"
proof (induction t g and t gs rule: calls_of_calls_of_all.induct)
  case (1 t m gs)
  then show ?case
    by (intro ext) (simp add: calls_on_append lock_run_append lock_run_single run_blocks_single
        del: run_blocks.simps(2))
next
  case (2 t m gs)
  then show ?case
    by (intro ext) (simp add: calls_on_append lock_run_append lock_run_single run_blocks_single
        del: run_blocks.simps(2))
qed (auto intro!: ext simp: calls_on_append lock_run_append run_blocks_append)

text \<open>
  C16. Nested guards in one thread, over any number of locks. A release build runs through them exactly
  when, lock by lock, no write guard stands inside a read guard of the same lock. A debug build
  runs through exactly when moreover the names of directly nested guards form no cycle. Either way
  every lock is free afterwards, and the profiler holds nothing.
\<close>

theorem nested_guards_both_builds:
  assumes "tm_reachable m" and "length (inited m) < 65536" and "k \<in> set (inited m)"
    and "guards_depth gs < 65536"
  shows "(release_run (calls_of_all (LThreadId m k) gs) (\<lambda>_. new_lock) = Inr ls \<longleftrightarrow>
       (\<forall>l. policy_blocks False (all_on_lock l gs)) \<and> ls = (\<lambda>_. new_lock)) \<and>
     ((\<exists>d. debug_run name (calls_of_all (LThreadId m k) gs) debug_start = Inr d) \<longleftrightarrow>
       (\<forall>l. policy_blocks False (all_on_lock l gs)) \<and> acyclic (nestings [] (all_named name gs))) \<and>
     (\<forall>d. debug_run name (calls_of_all (LThreadId m k) gs) debug_start = Inr d \<longrightarrow>
       locks d = (\<lambda>_. new_lock) \<and> lockStack (GDeadLockProfiler d) = [])"
proof -
  let ?t = "LThreadId m k" and ?policy = "\<forall>l. policy_blocks False (all_on_lock l gs)"
    and ?order = "acyclic (nestings [] (all_named name gs))"
  have depth: "height_blocks (all_on_lock l gs) < 65536" for l
    using height_on_lock(2) [of l gs] assms(4) by simp
  have rel: "release_run (calls_of_all ?t gs) (\<lambda>_. new_lock) = Inr ls \<longleftrightarrow>
      ?policy \<and> ls = (\<lambda>_. new_lock)" for ls
    by (auto simp: release_run_iff lock_sees_blocks fun_eq_iff
        one_thread.blocks_run_iff [OF managed_one_thread [OF assms(1-3)] depth])
  have prof: "if ?order
      then \<exists>p. prof_run (profiler_calls name (calls_of_all ?t gs)) new_profiler = Inr p \<and> lockStack p = []
      else \<exists>ls. prof_run (profiler_calls name (calls_of_all ?t gs)) new_profiler = Inl (Prof_Deadlock ls)"
    unfolding profiler_sees_scopes by (rule scopes_accepted_iff_acyclic)
  have dbg: "debug_run name (calls_of_all ?t gs) debug_start = Inr d \<longleftrightarrow>
      prof_run (profiler_calls name (calls_of_all ?t gs)) new_profiler = Inr (GDeadLockProfiler d) \<and>
      ?policy \<and> locks d = (\<lambda>_. new_lock)" for d
    by (simp add: debug_run_iff debug_start_def rel)
  have free: "\<exists>d. GDeadLockProfiler d = p \<and> locks d = (\<lambda>_. new_lock)" for p :: profiler
    by (metis debug.select_convs)
  have "(\<exists>d. debug_run name (calls_of_all ?t gs) debug_start = Inr d) \<longleftrightarrow>
      ?policy \<and> (\<exists>p. prof_run (profiler_calls name (calls_of_all ?t gs)) new_profiler = Inr p)"
    unfolding dbg using free by metis
  also have "(\<exists>p. prof_run (profiler_calls name (calls_of_all ?t gs)) new_profiler = Inr p) \<longleftrightarrow> ?order"
    using prof by (cases ?order) auto
  finally have completes: "(\<exists>d. debug_run name (calls_of_all ?t gs) debug_start = Inr d) \<longleftrightarrow> ?policy \<and> ?order" .
  have after: "locks d = (\<lambda>_. new_lock) \<and> lockStack (GDeadLockProfiler d) = []"
    if "debug_run name (calls_of_all ?t gs) debug_start = Inr d" for d
    using that prof unfolding dbg by (cases ?order) auto
  show ?thesis using rel completes after by blast
qed

theorem nested_guards_both_builds_witness:
  "\<exists>gs :: nat guarded list.
     release_run (calls_of_all (LThreadId game_server_threads 0) gs) (\<lambda>_. new_lock) = Inr (\<lambda>_. new_lock) \<and>
     \<not> (\<exists>d. debug_run (\<lambda>l. l) (calls_of_all (LThreadId game_server_threads 0) gs) debug_start = Inr d)"
proof -
  let ?gs = "[Write_guarded 3 [Read_guarded 4 []], Write_guarded 4 [Write_guarded 3 []]] :: nat guarded list"
  have "(3, 4) \<in> nestings [] (all_named (\<lambda>l. l) ?gs)" "(4, 3) \<in> nestings [] (all_named (\<lambda>l. l) ?gs)"
    by (simp_all add: added_def)
  then have "(3, 3) \<in> (nestings [] (all_named (\<lambda>l. l) ?gs))\<^sup>+" by (meson r_into_trancl' trancl_into_trancl)
  then have cyc: "\<not> acyclic (nestings [] (all_named (\<lambda>l. l) ?gs))" by (auto simp: acyclic_def)
  have pol: "\<forall>l. policy_blocks False (all_on_lock l ?gs)" by simp
  show ?thesis
    using nested_guards_both_builds [OF game_server_threads_reachable, of 0 ?gs "\<lambda>_. new_lock" "\<lambda>l. l"]
      cyc pol by (intro exI [of _ ?gs]) (simp only: game_server_inited, simp)
qed

section \<open>Locks with the same name\<close>

lemma write_lock_others:
  assumes "unat t < 65536" "0 < unat t" "t \<noteq> u"
  shows "WriteLock_alone u (held_lock t 1 0) = Inl (CRASH ''Lock_Timeout'')"
proof -
  have flag: "unat (lockFlag (held_lock t 1 0)) = unat t * 65536" using unat_held_flag [OF assms(1), of 0 1] by simp
  have "u \<noteq> lock_thread_id (held_lock t 1 0)"
    unfolding owner_test_iff flag using assms(3) by (simp add: word_unat_eq_iff)
  moreover have "lockFlag (held_lock t 1 0) \<noteq> EMPTY_FLAG"
    unfolding empty_test_iff flag using assms(2) by simp
  ultimately show ?thesis by (simp add: WriteLock_alone_def)
qed

text \<open>
  C17. Two objects of one class: their locks have the same name. One thread locks the first object and,
  inside, the second; another does it the other way round. If they run one after the other a debug
  build completes without a word about the inversion, and if they overlap both of them wait for the
  other until the lock's timeout. With different names the profiler reports the inversion in the
  first case.
\<close>

theorem same_name_inversion_unseen:
  assumes "unat t < 65536" "0 < unat t" "unat u < 65536" "0 < unat u" "t \<noteq> u" and "l \<noteq> m"
    and "both = [(t, WriteLock, l), (t, WriteLock, m), (t, WriteUnlock, m), (t, WriteUnlock, l),
      (u, WriteLock, m), (u, WriteLock, l), (u, WriteUnlock, l), (u, WriteUnlock, m)]"
  shows "(name l = name m \<longrightarrow>
      (\<exists>d. debug_run name both debug_start = Inr d \<and> locks d = (\<lambda>_. new_lock)) \<and>
      debug_run name [(t, WriteLock, l), (u, WriteLock, m), (t, WriteLock, m)] debug_start =
        Inl (Lock_stop (CRASH ''Lock_Timeout'')) \<and>
      debug_run name [(t, WriteLock, l), (u, WriteLock, m), (u, WriteLock, l)] debug_start =
        Inl (Lock_stop (CRASH ''Lock_Timeout''))) \<and>
    (name l \<noteq> name m \<longrightarrow>
      debug_run name both debug_start =
        Inl (Profiler_stop (Prof_Deadlock [(Some (name m), Some (name l)), (Some (name l), Some (name m))])))"
proof -
  have one: "WriteLock_alone v new_lock = Inr (held_lock v 1 0)"
      "WriteUnlock_alone v (held_lock v 1 0) = Inr new_lock" if "unat v < 65536" "0 < unat v" for v
  proof -
    have v: "one_thread v" using that by unfold_locales
    show "WriteLock_alone v new_lock = Inr (held_lock v 1 0)"
      "WriteUnlock_alone v (held_lock v 1 0) = Inr new_lock"
      using one_thread.write_lock_held [OF v, of 0 0] one_thread.write_unlock_held [OF v, of 0 0] by simp_all
  qed
  note steps = one [OF assms(1,2), unfolded One_nat_def] one [OF assms(3,4), unfolded One_nat_def]
    write_lock_others [OF assms(1,2) assms(5), unfolded One_nat_def]
    write_lock_others [OF assms(3,4) assms(5) [symmetric], unfolded One_nat_def]
  show ?thesis
    using assms(6) by (auto simp: assms(7) debug_start_def steps prof_eval fun_eq_iff)
qed

theorem same_name_inversion_unseen_witness:
  "debug_run (\<lambda>_. 7) [(1, WriteLock, 0 :: nat), (2, WriteLock, 1), (1, WriteLock, 1)] debug_start =
     Inl (Lock_stop (CRASH ''Lock_Timeout'')) \<and>
   debug_run (\<lambda>l. l) [(1, WriteLock, 0), (1, WriteLock, 1), (1, WriteUnlock, 1), (1, WriteUnlock, 0),
      (2, WriteLock, 1), (2, WriteLock, 0), (2, WriteUnlock, 0), (2, WriteUnlock, 1)] debug_start =
     Inl (Profiler_stop (Prof_Deadlock [(Some 1, Some 0), (Some 0, Some 1)]))"
  using same_name_inversion_unseen [of 1 2 "0 :: nat" 1 _ "\<lambda>_. 7", OF _ _ _ _ _ _ refl]
    same_name_inversion_unseen [of 1 2 "0 :: nat" 1 _ "\<lambda>l. l", OF _ _ _ _ _ _ refl]
  by (simp del: debug_run.simps)

end
