(* ===== verification/Debug_Threads.thy ===== *)
theory Debug_Threads
  imports Debug_Lock
begin

text \<open>
  Debug and release builds with any number of threads inside the methods of any number of locks at
  the same time. A call of a method is, under \<^verbatim>\<open>_DEBUG\<close>, first a call of the profiler, which its
  mutex makes one action, and then the accesses of \<open>lock_step\<close>; a release build has the accesses only.
\<close>

section \<open>The two builds\<close>

record ('t, 'l) build =
  b_profiler :: profiler
  b_locks :: "'l \<Rightarrow> 't sys"
  b_calls :: "(uint32 \<times> call \<times> 'l) list"  \<comment> \<open>the calls made so far; no step reads it\<close>
  b_stop :: "debug_stop option"

definition build_start :: "('t, 'l) build" where
  "build_start = \<lparr>b_profiler = new_profiler, b_locks = (\<lambda>_. lock_init), b_calls = [], b_stop = None\<rparr>"

text \<open>The first lines of the four methods.\<close>

definition on_entry :: "bool \<Rightarrow> call \<Rightarrow> cstr \<Rightarrow> profiler \<Rightarrow> prof_stop + profiler" where
  "on_entry DEBUG c name p = (if DEBUG then prof_do (profiler_call c name) p else Inr p)"

definition called :: "('t \<Rightarrow> uint32) \<Rightarrow> 't \<Rightarrow> call \<Rightarrow> 'l \<Rightarrow> profiler \<Rightarrow> ('t, 'l) build \<Rightarrow> ('t, 'l) build" where
  "called tid t c l p d = d\<lparr>b_profiler := p, b_locks := (b_locks d)(l := enter (b_locks d l) t c),
     b_calls := b_calls d @ [(tid t, c, l)]\<rparr>"

inductive build_step :: "bool \<Rightarrow> 't set \<Rightarrow> ('t \<Rightarrow> uint32) \<Rightarrow> nat \<Rightarrow> ('l \<Rightarrow> cstr) \<Rightarrow>
    ('t, 'l) build \<Rightarrow> ('t, 'l) build \<Rightarrow> bool"
  for DEBUG T tid depth name where
  b_call: "\<lbrakk>b_stop d = None; t \<in> T; \<forall>k. pcs (b_locks d k) t = Idle;
      may_call depth (wheld (b_locks d l) t) (rheld (b_locks d l) t) c;
      on_entry DEBUG c (name l) (b_profiler d) = Inr p\<rbrakk>
    \<Longrightarrow> build_step DEBUG T tid depth name d (called tid t c l p d)"
| b_refused: "\<lbrakk>b_stop d = None; t \<in> T; \<forall>k. pcs (b_locks d k) t = Idle;
      may_call depth (wheld (b_locks d l) t) (rheld (b_locks d l) t) c;
      on_entry DEBUG c (name l) (b_profiler d) = Inl e\<rbrakk>
    \<Longrightarrow> build_step DEBUG T tid depth name d (d\<lparr>b_stop := Some (Profiler_stop e)\<rparr>)"
| b_run: "\<lbrakk>b_stop d = None; t \<in> T;
      lock_step (clock (b_locks d l)) (tid t) (the_lock (b_locks d l)) (pcs (b_locks d l) t) = Inr (q, p)\<rbrakk>
    \<Longrightarrow> build_step DEBUG T tid depth name d
      (d\<lparr>b_locks := (b_locks d)(l := moved (b_locks d l) t q p)\<rparr>)"
| b_crash: "\<lbrakk>b_stop d = None; t \<in> T;
      lock_step (clock (b_locks d l)) (tid t) (the_lock (b_locks d l)) (pcs (b_locks d l) t) = Inl e\<rbrakk>
    \<Longrightarrow> build_step DEBUG T tid depth name d
      (d\<lparr>b_locks := (b_locks d)(l := (b_locks d l)\<lparr>crashed := Some e\<rparr>), b_stop := Some (Lock_stop e)\<rparr>)"
| b_tick: "b_stop d = None \<Longrightarrow>
    build_step DEBUG T tid depth name d (d\<lparr>b_locks := (\<lambda>l. (b_locks d l)\<lparr>clock := c\<rparr>)\<rparr>)"

inductive build_reachable :: "bool \<Rightarrow> 't set \<Rightarrow> ('t \<Rightarrow> uint32) \<Rightarrow> nat \<Rightarrow> ('l \<Rightarrow> cstr) \<Rightarrow> ('t, 'l) build \<Rightarrow> bool"
  for DEBUG T tid depth name where
  b_start: "build_reachable DEBUG T tid depth name build_start"
| b_next: "build_reachable DEBUG T tid depth name d \<Longrightarrow> build_step DEBUG T tid depth name d d' \<Longrightarrow>
    build_reachable DEBUG T tid depth name d'"

section \<open>Each lock by itself\<close>

lemma build_locks:
  assumes "build_reachable DEBUG T tid depth name d"
  shows "lock_reachable T tid depth (b_locks d l) \<and> (b_stop d = None \<longrightarrow> crashed (b_locks d l) = None)"
  using assms
proof (induction arbitrary: l)
  case b_start
  show ?case using lock_reachable.start by (simp add: build_start_def lock_init_def)
next
  case (b_next d d')
  note IH = b_next.IH
  have lock: "lock_reachable T tid depth s" if "sys_step T tid depth (b_locks d k) s" for k s
    by (rule lock_reachable.step [OF _ that]) (use IH in blast)
  show ?case using b_next.hyps(2)
  proof cases
    case (b_call t k c p)
    then have "crashed (b_locks d k) = None" using IH by blast
    then have "lock_reachable T tid depth (enter (b_locks d k) t c)"
      using lock [OF sys_step.call] b_call by blast
    then show ?thesis using IH b_call by (auto simp: called_def enter_def)
  next
    case (b_run t k q p)
    then have "crashed (b_locks d k) = None" using IH by blast
    then have "lock_reachable T tid depth (moved (b_locks d k) t q p)"
      using lock [OF sys_step.run] b_run by blast
    then show ?thesis using IH b_run by (auto simp: moved_def)
  next
    case (b_crash t k e)
    then have "crashed (b_locks d k) = None" using IH by blast
    then have "lock_reachable T tid depth ((b_locks d k)\<lparr>crashed := Some e\<rparr>)"
      using lock [OF sys_step.crash] b_crash by blast
    then show ?thesis using IH b_crash by auto
  next
    case (b_tick c)
    then have "lock_reachable T tid depth ((b_locks d l)\<lparr>clock := c\<rparr>)"
      using lock [OF sys_step.tick] IH by blast
    then show ?thesis using IH b_tick by auto
  qed (use IH in auto)
qed

section \<open>The debug build is the release build and the profiler side by side\<close>








text \<open>
  Mutual exclusion of every lock, in both builds: while one managed thread holds a lock for writing
  no other thread holds it.
\<close>

theorem both_builds_exclude:
  assumes "tm_reachable m" "length (inited m) * depth < 65536" "0 < depth"
    and "build_reachable DEBUG (set (inited m)) (LThreadId m) depth name d"
    and "t \<in> set (inited m)" "u \<in> set (inited m)" "t \<noteq> u" "0 < wheld (b_locks d l) t"
  shows "wheld (b_locks d l) u = 0 \<and> rheld (b_locks d l) u = 0"
  using lock_clients.mutual_exclusion [OF managed_clients [OF assms(1-3)], of "b_locks d l" t u]
    build_locks [OF assms(4), of l] assms(5-8) by blast

end
