(* ===== verification/Debug_Deadlock.thy ===== *)
theory Debug_Deadlock
  imports Debug_Threads
begin

text \<open>
  What a debug build is for: while the profiler has not stopped it, no circle of threads waits for
  each other's locks, in any interleaving, if the locks have different names.
\<close>

section \<open>Holding and waiting\<close>






section \<open>Names on the stack are in the recorded order\<close>





section \<open>The invariant\<close>






section \<open>Every step keeps it\<close>









section \<open>No circle of waiting threads\<close>





section \<open>An example: one thread waits for the other\<close>





end
