(* ===== verification/Dummy_Client.thy ===== *)
theory Dummy_Client
  imports Socket_Utils
begin

text \<open>
  The test client, \<^verbatim>\<open>DummyClient/DummyClient.cpp\<close>. Its two loops have no bound, so they are
  partial functions: \<open>None\<close> is a loop that never ends.
\<close>

section \<open>The program\<close>

definition client_address :: "inet \<Rightarrow> SOCKADDR_IN" where
  "client_address net =
     (let a = NetAddress_default\<lparr>sin_family := AF_INET\<rparr>;
          a = (case InetPton net ''127.0.0.1'' of None \<Rightarrow> a | Some ip \<Rightarrow> a\<lparr>sin_addr := ip\<rparr>)
      in a\<lparr>sin_port := htons net 7777\<rparr>)"

text \<open>A connection that is made leads to another call of \<^verbatim>\<open>connect\<close>, like one that is not.\<close>

partial_function (option) connect_loop :: "os \<Rightarrow> SOCKET \<Rightarrow> SOCKADDR_IN \<Rightarrow> world \<Rightarrow> world option" where
  "connect_loop os clientSocket serverAddr w =
     (let (r, w) = sys os (sock_connect clientSocket serverAddr) w
      in if result r = SOCKET_ERROR then
           if lastError r = WSAEWOULDBLOCK then connect_loop os clientSocket serverAddr w
           else if lastError r = WSAEISCONN then Some w
           else connect_loop os clientSocket serverAddr (snd (sys os (sleep_ms 100) w))
         else connect_loop os clientSocket serverAddr w)"

definition after_send :: "os \<Rightarrow> world \<Rightarrow> world" where
  "after_send os w = snd (sys os (sleep_ms 1000) (snd (sys os (print ''Send Data ! Len = 100'') w)))"

partial_function (option) send_loop :: "os \<Rightarrow> SOCKET \<Rightarrow> uint64 \<Rightarrow> world \<Rightarrow> world option" where
  "send_loop os clientSocket wsaEvent w =
     (let (r, w) = sys os (WSASend clientSocket ''Hello World'' 100) w
      in if result r = SOCKET_ERROR then
           if lastError r = WSA_IO_PENDING then
             let w = snd (sys os (WSAWaitForMultipleEvents wsaEvent) w);
                 w = snd (sys os (WSAGetOverlappedResult clientSocket) w)
             in send_loop os clientSocket wsaEvent (after_send os w)
           else Some w
         else send_loop os clientSocket wsaEvent (after_send os w))"

definition client_main :: "os \<Rightarrow> inet \<Rightarrow> world \<Rightarrow> world option" where
  "client_main os net w =
     (let (r, w) = sys os (WSAStartup 0x0202) w
      in if result r \<noteq> 0 then Some w
      else let (r, w) = sys os (sock_socket AF_INET SOCK_STREAM 0) w; clientSocket = result r
        in if clientSocket = INVALID_SOCKET then Some w
      else let (r, w) = sys os (ioctlsocket clientSocket 1) w
        in if result r = INVALID_SOCKET then Some w
      else Option.bind (connect_loop os clientSocket (client_address net) w) (\<lambda>w.
           let (r, w) = sys os (print ''Connected to Server!'') w;
               (r, w) = sys os WSACreateEvent w; wsaEvent = result r
           in Option.bind (send_loop os clientSocket wsaEvent w) (\<lambda>w.
              let w = snd (sys os (closesocket clientSocket) w)
              in Some (snd (sys os WSACleanup w)))))"

section \<open>The loops\<close>

text \<open>The calls between two histories, and that none of them makes or closes a socket.\<close>

definition calls_only :: "(call \<Rightarrow> bool) \<Rightarrow> history \<Rightarrow> history \<Rightarrow> bool" where
  "calls_only P h h' \<longleftrightarrow> (\<exists>new. h' = new @ h \<and> (\<forall>(c, r) \<in> set new. P c))"

lemma calls_only_refl [simp]: "calls_only P h h"
  by (simp add: calls_only_def)

lemma calls_only_cons [simp]: "calls_only P h h' \<Longrightarrow> P c \<Longrightarrow> calls_only P h ((c, r) # h')"
  unfolding calls_only_def by (metis (mono_tags, lifting) append_Cons case_prodI set_ConsD)

lemma calls_only_trans: "calls_only P a b \<Longrightarrow> calls_only P b c \<Longrightarrow> calls_only P a c"
  unfolding calls_only_def by (metis (no_types, lifting) append_assoc set_append Un_iff)

lemma calls_only_mono: "calls_only P a b \<Longrightarrow> (\<And>c. P c \<Longrightarrow> Q c) \<Longrightarrow> calls_only Q a b"
  unfolding calls_only_def by (metis (mono_tags, lifting) case_prod_conv old.prod.exhaust)

lemma calls_only_sockets:
  assumes "calls_only P h h'" "\<And>c. P c \<Longrightarrow> \<not> socket_call c"
  shows "unclosed h' = unclosed h" "closes_ok h' = closes_ok h"
proof -
  obtain new where new: "h' = new @ h" "\<forall>(c, r) \<in> set new. P c" using assms(1) by (auto simp: calls_only_def)
  from new(2) have "unclosed (new @ h) = unclosed h \<and> closes_ok (new @ h) = closes_ok h"
    using assms(2) by (induction new) auto
  then show "unclosed h' = unclosed h" "closes_ok h' = closes_ok h" using new(1) by simp_all
qed

fun connect_call :: "SOCKET \<Rightarrow> call \<Rightarrow> bool" where
  "connect_call s (sock_connect x a) \<longleftrightarrow> x = s"
| "connect_call s (sleep_ms n) \<longleftrightarrow> n = 100"
| "connect_call s _ \<longleftrightarrow> False"

fun send_call :: "SOCKET \<Rightarrow> call \<Rightarrow> bool" where
  "send_call s (WSASend x b n) \<longleftrightarrow> x = s \<and> n = 100"
| "send_call s (WSAWaitForMultipleEvents e) \<longleftrightarrow> True"
| "send_call s (WSAGetOverlappedResult x) \<longleftrightarrow> x = s"
| "send_call s (print t) \<longleftrightarrow> True"
| "send_call s (sleep_ms n) \<longleftrightarrow> n = 1000"
| "send_call s _ \<longleftrightarrow> False"

lemma loop_calls_sockets: "connect_call s c \<Longrightarrow> \<not> socket_call c" "send_call s c \<Longrightarrow> \<not> socket_call c"
  by (cases c; simp)+

text \<open>The connect loop ends with the answer that the socket is connected already.\<close>

definition connect_ended :: "os \<Rightarrow> SOCKET \<Rightarrow> SOCKADDR_IN \<Rightarrow> world \<Rightarrow> bool" where
  "connect_ended os s a w \<longleftrightarrow> (\<exists>h. hist w = (sock_connect s a, os h (sock_connect s a)) # h \<and>
     result (os h (sock_connect s a)) = SOCKET_ERROR \<and> lastError (os h (sock_connect s a)) = WSAEISCONN)"

definition send_ended :: "SOCKET \<Rightarrow> world \<Rightarrow> bool" where
  "send_ended s w \<longleftrightarrow> (\<exists>r h. hist w = (WSASend s ''Hello World'' 100, r) # h \<and>
     result r = SOCKET_ERROR \<and> lastError r \<noteq> WSA_IO_PENDING)"

lemma connect_loop_ends:
  assumes "connect_loop os s a w = Some w'"
  shows "connect_ended os s a w' \<and> calls_only (connect_call s) (hist w) (hist w')"
  using assms
proof (induction rule: connect_loop.raw_induct [rotated, consumes 1, case_names step])
  case (step f os s a w w')
  define c where "c = sock_connect s a"
  define r where "r = os (hist w) c"
  define w1 where "w1 = w\<lparr>hist := (c, r) # hist w\<rparr>"
  define w2 where "w2 = snd (sys os (sleep_ms 100) w1)"
  have w1: "calls_only (connect_call s) (hist w) (hist w1)" "calls_only (connect_call s) (hist w) (hist w2)"
    by (simp_all add: w1_def c_def w2_def sys_simps)
  have sysc: "sys os (sock_connect s a) w = (r, w1)" by (simp add: sys_def Let_def w1_def r_def c_def)
  have body: "(if result r = SOCKET_ERROR then
           if lastError r = WSAEWOULDBLOCK then f os s a w1
           else if lastError r = WSAEISCONN then Some w1 else f os s a w2
         else f os s a w1) = Some w'"
    using step(2) by (simp only: sysc Let_def prod.case w2_def)
  then consider (again) "f os s a w1 = Some w'" | (slept) "f os s a w2 = Some w'"
    | (out) "result r = SOCKET_ERROR" "lastError r = WSAEISCONN" "w' = w1"
    by (metis option.inject)
  then show ?case
  proof cases
    case again
    show ?thesis using step(1) [OF again] calls_only_trans [OF w1(1)] by simp
  next
    case slept
    show ?thesis using step(1) [OF slept] calls_only_trans [OF w1(2)] by simp
  next
    case out
    have "connect_ended os s a w1" unfolding connect_ended_def
      using out(1,2) by (intro exI [of _ "hist w"]) (simp add: w1_def r_def c_def)
    then show ?thesis using w1(1) out(3) by simp
  qed
qed

text \<open>The send loop ends with an error other than a pending operation.\<close>

lemma send_loop_ends:
  assumes "send_loop os s e w = Some w'"
  shows "send_ended s w' \<and> calls_only (send_call s) (hist w) (hist w')"
  using assms
proof (induction rule: send_loop.raw_induct [rotated, consumes 1, case_names step])
  case (step f os s e w w')
  define c where "c = WSASend s ''Hello World'' 100"
  define r where "r = os (hist w) c"
  define w1 where "w1 = w\<lparr>hist := (c, r) # hist w\<rparr>"
  define w2 where "w2 = after_send os (snd (sys os (WSAGetOverlappedResult s) (snd (sys os (WSAWaitForMultipleEvents e) w1))))"
  define w3 where "w3 = after_send os w1"
  have w1: "calls_only (send_call s) (hist w) (hist w1)" "calls_only (send_call s) (hist w) (hist w2)"
      "calls_only (send_call s) (hist w) (hist w3)"
    by (simp_all add: w1_def c_def w2_def w3_def after_send_def sys_simps)
  have sysc: "sys os (WSASend s ''Hello World'' 100) w = (r, w1)" by (simp add: sys_def Let_def w1_def r_def c_def)
  have body: "(if result r = SOCKET_ERROR then
           if lastError r = WSA_IO_PENDING then f os s e w2 else Some w1
         else f os s e w3) = Some w'"
    using step(2) by (simp only: sysc Let_def prod.case w2_def w3_def)
  then consider (waited) "f os s e w2 = Some w'" | (sent) "f os s e w3 = Some w'"
    | (out) "result r = SOCKET_ERROR" "lastError r \<noteq> WSA_IO_PENDING" "w' = w1"
    by (metis option.inject)
  then show ?case
  proof cases
    case waited
    show ?thesis using step(1) [OF waited] calls_only_trans [OF w1(2)] by simp
  next
    case sent
    show ?thesis using step(1) [OF sent] calls_only_trans [OF w1(3)] by simp
  next
    case out
    have "send_ended s w1" unfolding send_ended_def
      using out(1,2) by (intro exI [of _ r] exI [of _ "hist w"]) (simp add: w1_def c_def)
    then show ?thesis using w1(1) out(3) by simp
  qed
qed

section \<open>From start to end\<close>

text \<open>\<^verbatim>\<open>main\<close> behind the connect loop.\<close>

definition after_connect :: "os \<Rightarrow> SOCKET \<Rightarrow> world \<Rightarrow> world option" where
  "after_connect os s w =
     (let (r, w) = sys os (print ''Connected to Server!'') w;
          (r, w) = sys os WSACreateEvent w; wsaEvent = result r
      in Option.bind (send_loop os s wsaEvent w) (\<lambda>w.
         let w = snd (sys os (closesocket s) w)
         in Some (snd (sys os WSACleanup w))))"

lemma after_connect_ends:
  assumes "after_connect os s w = Some w'"
  shows "\<exists>h r1 r2. hist w' = (WSACleanup, r1) # (closesocket s, r2) # h \<and>
    set (hist w) \<subseteq> set h \<and> unclosed h = unclosed (hist w)"
proof -
  define w4 where "w4 = snd (sys os WSACreateEvent (snd (sys os (print ''Connected to Server!'') w)))"
  obtain e w5 where send: "send_loop os s e w4 = Some w5"
      and w': "w' = snd (sys os WSACleanup (snd (sys os (closesocket s) w5)))"
    using assms by (auto simp: after_connect_def w4_def Let_def bind_eq_Some_conv split: prod.splits)
  have calls: "calls_only (send_call s) (hist w4) (hist w5)" using send_loop_ends [OF send] by blast
  have "unclosed (hist w5) = unclosed (hist w)"
    using calls_only_sockets(1) [OF calls] loop_calls_sockets by (simp add: w4_def sys_simps)
  moreover have "set (hist w) \<subseteq> set (hist w5)"
    using calls by (auto simp: calls_only_def w4_def sys_simps)
  ultimately show ?thesis by (simp add: w' sys_simps)
qed

lemma client_main_ends:
  assumes "client_main os net w = Some w'"
  obtains (early) new where "hist w' = new @ hist w" "length new \<le> 3"
      "\<forall>(c, r) \<in> set new. \<forall>s a. c \<noteq> sock_connect s a"
  | (connected) s h0 w2 w3 where "s = result (os h0 (sock_socket AF_INET SOCK_STREAM 0))"
      "unclosed h0 = unclosed (hist w)" "unclosed (hist w2) = insert s (unclosed h0)"
      "connect_loop os s (client_address net) w2 = Some w3" "after_connect os s w3 = Some w'"
proof -
  define c0 where "c0 = WSAStartup 0x0202"
  define w0 where "w0 = w\<lparr>hist := (c0, os (hist w) c0) # hist w\<rparr>"
  define c1 where "c1 = sock_socket AF_INET SOCK_STREAM 0"
  define w1 where "w1 = w0\<lparr>hist := (c1, os (hist w0) c1) # hist w0\<rparr>"
  define s where "s = result (os (hist w0) c1)"
  define c2 where "c2 = ioctlsocket s 1"
  define w2 where "w2 = w1\<lparr>hist := (c2, os (hist w1) c2) # hist w1\<rparr>"
  note here = w0_def w1_def w2_def c0_def c1_def c2_def
  have sys: "sys os c0 w = (os (hist w) c0, w0)" "sys os c1 w0 = (os (hist w0) c1, w1)"
      "sys os c2 w1 = (os (hist w1) c2, w2)"
    by (simp_all add: sys_def Let_def w0_def w1_def w2_def)
  have main: "client_main os net w =
      (if result (os (hist w) c0) \<noteq> 0 then Some w0
       else if s = INVALID_SOCKET then Some w1
       else if result (os (hist w1) c2) = INVALID_SOCKET then Some w2
       else Option.bind (connect_loop os s (client_address net) w2) (after_connect os s))"
    using sys by (simp add: client_main_def after_connect_def [abs_def] c0_def c1_def c2_def s_def Let_def cong: if_cong)
  consider "w' \<in> {w0, w1, w2}"
    | w3 where "s \<noteq> INVALID_SOCKET" "connect_loop os s (client_address net) w2 = Some w3" "after_connect os s w3 = Some w'"
    using assms unfolding main by (auto simp: bind_eq_Some_conv split: if_splits)
  then show thesis
  proof cases
    case 1
    then have "\<exists>new. hist w' = new @ hist w \<and> length new \<le> 3 \<and> (\<forall>(c, r) \<in> set new. \<forall>s a. c \<noteq> sock_connect s a)"
      by (auto simp: here)
    then show thesis using early by blast
  next
    case 2
    show thesis
      by (rule connected [OF _ _ _ 2(2,3), of "hist w0"]) (use 2(1) in \<open>simp_all add: here s_def\<close>)
  qed
qed

text \<open>
  C33. The dummy client returns either before it has tried to connect, after at most three calls, or
  with its last send refused for good, and then it has closed its socket and cleaned up WinSock;
  it returns at all only if \<^verbatim>\<open>connect\<close> was answered \<^verbatim>\<open>WSAEISCONN\<close> before. If \<^verbatim>\<open>connect\<close>
  never gives that answer, even by succeeding every time, the client does not return.
\<close>

theorem dummy_client_returns:
  assumes "os_ok os" "client_main os net w = Some w'"
  shows "(\<exists>new. hist w' = new @ hist w \<and> length new \<le> 3 \<and>
      (\<forall>(c, r) \<in> set new. \<forall>s a. c \<noteq> sock_connect s a)) \<or>
    (\<exists>s r1 r2 rest r. hist w' = (WSACleanup, r1) # (closesocket s, r2) # rest \<and>
      unclosed (hist w') = unclosed (hist w) \<and>
      (sock_connect s (client_address net), r) \<in> set rest \<and>
      result r = SOCKET_ERROR \<and> lastError r = WSAEISCONN)"
  using assms(2)
proof (cases rule: client_main_ends)
  case early
  then show ?thesis by blast
next
  case (connected s h0 w2 w3)
  obtain r where conn: "(sock_connect s (client_address net), r) \<in> set (hist w3)"
      "result r = SOCKET_ERROR" "lastError r = WSAEISCONN"
      and calls: "calls_only (connect_call s) (hist w2) (hist w3)"
    using connect_loop_ends [OF connected(4)] unfolding connect_ended_def by (metis list.set_intros(1))
  obtain h r1 r2 where tail: "hist w' = (WSACleanup, r1) # (closesocket s, r2) # h"
      "set (hist w3) \<subseteq> set h" "unclosed h = unclosed (hist w3)"
    using after_connect_ends [OF connected(5)] by blast
  have "unclosed h = insert s (unclosed (hist w))"
    using calls_only_sockets(1) [OF calls] loop_calls_sockets tail(3) connected(2,3) by simp
  moreover have "s \<notin> unclosed (hist w)"
    using os_ok_socket(2) [OF assms(1), of h0 AF_INET SOCK_STREAM 0] connected(1,2) by simp
  ultimately have "unclosed (hist w') = unclosed (hist w)" by (simp add: tail(1))
  then show ?thesis using tail(1,2) conn by blast
qed

text \<open>A system on which the client connects at once and its first send is refused.\<close>

definition client_reply :: reply where
  "client_reply = \<lparr>result = 0, lastError = 0, overlapped = None, numOfBytes = 0, extension = 1,
     peer = NetAddress_default\<rparr>"

fun client_os :: os where
  "client_os h (sock_socket af ty pr) = client_reply\<lparr>result := (if 5 \<in> unclosed h then INVALID_SOCKET else 5)\<rparr>"
| "client_os h (WSASocket af ty pr fl) = client_reply\<lparr>result := INVALID_SOCKET\<rparr>"
| "client_os h (sock_connect s a) = client_reply\<lparr>result := SOCKET_ERROR, lastError := WSAEISCONN\<rparr>"
| "client_os h (WSASend s b n) = client_reply\<lparr>result := SOCKET_ERROR, lastError := 10054\<rparr>"
| "client_os h _ = client_reply"

lemma client_os_ok: "os_ok client_os"
  by (simp add: os_ok_def sockets_fresh_def extensions_set_def completions_pending_def client_reply_def)

definition client_inet :: "inet" where
  "client_inet = \<lparr>InetPton = (\<lambda>s. Some 0x0100007F), InetNtop = (\<lambda>a. ''127.0.0.1''), htons = id, ntohs = id, htonl = id\<rparr>"

definition client_world :: world where
  "client_world = \<lparr>hist = [], ConnectEx_fn = 0, DisconnectEx_fn = 0, AcceptEx_fn = 0\<rparr>"

theorem dummy_client_returns_witness:
  "\<exists>w' r1 r2 rest. client_main client_os client_inet client_world = Some w' \<and>
    hist w' = (WSACleanup, r1) # (closesocket 5, r2) # rest \<and> unclosed (hist w') = {}"
proof -
  obtain w' where main: "client_main client_os client_inet client_world = Some w'"
      and hist: "\<exists>r1 r2 rest. hist w' = (WSACleanup, r1) # (closesocket 5, r2) # rest" "3 < length (hist w')"
    by (simp add: client_main_def sys_def Let_def client_reply_def client_world_def INVALID_SOCKET_def
        connect_loop.simps send_loop.simps SOCKET_ERROR_def WSAEISCONN_def WSAEWOULDBLOCK_def WSA_IO_PENDING_def)
  show ?thesis
    using dummy_client_returns [OF client_os_ok main] main hist by (auto simp: client_world_def)
qed

end
